(* ===== verification/Machine_Prelude.thy ===== *)
theory Machine_Prelude
  imports Main "HOL-Library.Word" "HOL-Library.Monad_Syntax"
begin

text \<open>
  Generic vocabulary of the development: the machine's integer types, the slicing and
  concatenation of bit vectors in which the RTL is written, C arrays as functions from
  indices to bytes, and the lemmas and lemma collections that the component theories share.
  Nothing here is about one component.
\<close>

unbundle bit_operations_syntax

type_synonym u8 = "8 word"
type_synonym u16 = "16 word"
type_synonym u32 = "32 word"

text \<open>
  A C array or a C string is the bytes from its first element on: index \<open>i\<close> is the byte
  \<open>i\<close> places above the start. The function is total, so an access beyond the array's size is a
  read or a write of whatever the machine holds there; that the code stays inside is proved
  where it is claimed.
\<close>

type_synonym bytes_from = "nat \<Rightarrow> u8"

named_theorems rtl_defs \<open>definitions that open a combinational expression of the RTL\<close>
named_theorems bus_simps \<open>what a bus access does to each field of the system\<close>

section \<open>Bit vectors\<close>

text \<open>\<open>bits hi lo w\<close> is the part-select \<open>w[hi:lo]\<close>, \<open>rep n b\<close> the replication \<open>{n{b}}\<close> and
  \<open>vcat\<close> the concatenation \<open>{...}\<close> of fields given with their widths, most significant first.\<close>

definition bits :: "nat \<Rightarrow> nat \<Rightarrow> u32 \<Rightarrow> u32" where
  "bits hi lo w = take_bit (Suc hi - lo) (drop_bit lo w)"

definition rep :: "nat \<Rightarrow> bool \<Rightarrow> u32" where
  "rep n b = (if b then mask n else 0)"

definition bit1 :: "bool \<Rightarrow> u32" where
  "bit1 b = of_bool b"

fun vcat :: "(nat \<times> u32) list \<Rightarrow> u32" where
  "vcat [] = 0"
| "vcat ((n, v) # xs) = push_bit (sum_list (map fst xs)) (take_bit n v) OR vcat xs"

lemma bit_bits [bit_simps]: "bit (bits hi lo w) n \<longleftrightarrow> n < Suc hi - lo \<and> bit w (lo + n)"
  by (simp add: bits_def bit_simps)

lemma bit_rep [bit_simps]: "bit (rep k b) n \<longleftrightarrow> b \<and> n < k \<and> n < 32"
  by (auto simp add: rep_def bit_simps)

lemma bit_bit1 [bit_simps]: "bit (bit1 b) n \<longleftrightarrow> b \<and> n = 0"
  by (auto simp add: bit1_def bit_simps)

text \<open>Two 32-bit words are equal when their 32 bits are: the rule splits an equation of bit
  vectors into 32 goals that \<open>bit_simps\<close> decides.\<close>

lemma word32_eqI:
  fixes a b :: u32
  assumes "bit a 0 = bit b 0" "bit a 1 = bit b 1" "bit a 2 = bit b 2" "bit a 3 = bit b 3"
    "bit a 4 = bit b 4" "bit a 5 = bit b 5" "bit a 6 = bit b 6" "bit a 7 = bit b 7"
    "bit a 8 = bit b 8" "bit a 9 = bit b 9" "bit a 10 = bit b 10" "bit a 11 = bit b 11"
    "bit a 12 = bit b 12" "bit a 13 = bit b 13" "bit a 14 = bit b 14" "bit a 15 = bit b 15"
    "bit a 16 = bit b 16" "bit a 17 = bit b 17" "bit a 18 = bit b 18" "bit a 19 = bit b 19"
    "bit a 20 = bit b 20" "bit a 21 = bit b 21" "bit a 22 = bit b 22" "bit a 23 = bit b 23"
    "bit a 24 = bit b 24" "bit a 25 = bit b 25" "bit a 26 = bit b 26" "bit a 27 = bit b 27"
    "bit a 28 = bit b 28" "bit a 29 = bit b 29" "bit a 30 = bit b 30" "bit a 31 = bit b 31"
  shows "a = b"
proof (rule bit_word_eqI)
  fix n assume "n < LENGTH(32)"
  then have "n \<in> set [0..<32]" by simp
  also have "[0..<32] = [0,1,2,3,4,5,6,7,8,9,10,11,12,13,14,15,16,17,18,19,20,21,22,23,24,25,
    26,27,28,29,30,31]"
    by code_simp
  finally have "list_all (\<lambda>n. bit a n = bit b n) [0,1,2,3,4,5,6,7,8,9,10,11,12,13,14,15,16,17,18,
    19,20,21,22,23,24,25,26,27,28,29,30,31] \<longrightarrow> bit a n = bit b n"
    by (auto simp only: list_all_iff)
  then show "bit a n = bit b n" using assms by simp
qed

lemma word8_eqI:
  fixes a b :: u8
  assumes "bit a 0 = bit b 0" "bit a 1 = bit b 1" "bit a 2 = bit b 2" "bit a 3 = bit b 3"
    "bit a 4 = bit b 4" "bit a 5 = bit b 5" "bit a 6 = bit b 6" "bit a 7 = bit b 7"
  shows "a = b"
proof (rule bit_word_eqI)
  fix n assume "n < LENGTH(8)"
  then have "n \<in> {0, 1, 2, 3, 4, 5, 6, 7}" by auto
  then show "bit a n = bit b n" using assms by auto
qed

text \<open>The rules that decide a bit of a vector expression at a concrete position.\<close>

lemma bit_times_2: "bit (w * 2 :: u32) n \<longleftrightarrow> 0 < n \<and> n < 32 \<and> bit w (n - 1)"
  using bit_push_bit_iff [of 1 w n] by (auto simp: push_bit_eq_mult mult.commute)

lemma odd_bits: "odd (bits hi lo w) \<longleftrightarrow> lo \<le> hi \<and> bit w lo"
  using bit_bits [of hi lo w 0] by (auto simp: bit_0 less_Suc_eq_le)

lemma odd_rep: "odd (rep n b) \<longleftrightarrow> b \<and> 0 < n"
  using bit_rep [of n b 0] by (auto simp: bit_0)

lemma beyond32: "32 \<le> n \<Longrightarrow> \<not> bit (i::u32) n"
  using impossible_bit [of n i] by simp

lemmas vec_simps = bit_simps numeral_2_eq_2 [symmetric] bit_times_2 odd_bits odd_rep beyond32

section \<open>Strings in arrays\<close>

definition chars_at :: "bytes_from \<Rightarrow> nat \<Rightarrow> u8 list \<Rightarrow> bool" where
  "chars_at buf p cs \<longleftrightarrow> (\<forall>i < length cs. buf (p + i) = cs ! i)"

lemma chars_at_Nil [simp]: "chars_at buf p []"
  by (simp add: chars_at_def)

lemma chars_at_Cons [simp]:
  "chars_at buf p (c # cs) \<longleftrightarrow> buf p = c \<and> chars_at buf (p + 1) cs"
  by (auto simp: chars_at_def nth_Cons split: nat.splits)

lemma chars_at_append [simp]:
  "chars_at buf p (cs @ ds) \<longleftrightarrow> chars_at buf p cs \<and> chars_at buf (p + length cs) ds"
  by (induction cs arbitrary: p) auto

definition put_chars :: "bytes_from \<Rightarrow> nat \<Rightarrow> u8 list \<Rightarrow> bytes_from" where
  "put_chars buf p cs = (\<lambda>i. if p \<le> i \<and> i < p + length cs then cs ! (i - p) else buf i)"

lemma put_chars_Nil [simp]: "put_chars buf p [] = buf"
  by (auto simp: put_chars_def fun_eq_iff)

lemma put_chars_Cons [simp]: "put_chars buf p (c # cs) = put_chars (buf(p := c)) (p + 1) cs"
  by (auto simp: put_chars_def fun_eq_iff nth_Cons')

lemma put_chars_at: "chars_at (put_chars buf p cs) p cs"
  by (simp add: put_chars_def chars_at_def)

lemma put_chars_outside: "i < p \<or> p + length cs \<le> i \<Longrightarrow> put_chars buf p cs i = buf i"
  by (auto simp: put_chars_def)

end
