(* ===== verification/Soc_Bus.thy ===== *)
theory Soc_Bus
  imports Machine_Prelude
begin

text \<open>
  The memory the debug stub runs on: the core's load/store unit (rtl/attorv32.v, byte lanes and
  write masks), the address decode, RAM and read mux of the debug SoC (rtl/attorv32_dbg.v, with
  its default \<open>RAM_AW = 12\<close>, so \<open>ADDR_WIDTH = 14\<close>), the register file of the hardware breakpoint
  unit (rtl/hw_bkpt.v with \<open>N = 4\<close>) and the registers through which the stub sees the UART.
  The lemmas at the end say what a C access of each width does to RAM, first for the aligned
  addresses the core supports and then for the misaligned ones.
\<close>

section \<open>Hardware breakpoint unit\<close>

record hw_bkpt =
  bp_addr :: "nat \<Rightarrow> 14 word"
  bp_en :: "4 word"
  bp_hit :: "4 word"
  halt_req :: bool

definition bp_match :: "hw_bkpt \<Rightarrow> 14 word \<Rightarrow> 4 word" where
  "bp_match b pc =
     (of_bool (bit (bp_en b) 0 \<and> pc = bp_addr b 0)) OR
     push_bit 1 (of_bool (bit (bp_en b) 1 \<and> pc = bp_addr b 1)) OR
     push_bit 2 (of_bool (bit (bp_en b) 2 \<and> pc = bp_addr b 2)) OR
     push_bit 3 (of_bool (bit (bp_en b) 3 \<and> pc = bp_addr b 3))"

text \<open>The register read mux; \<open>strobed\<close> is \<open>sel & rstrb\<close>.\<close>

definition hw_bkpt_rd :: "hw_bkpt \<Rightarrow> bool \<Rightarrow> u32 \<Rightarrow> u32" where
  "hw_bkpt_rd b strobed reg_addr =
     (if \<not> strobed then 0
      else if reg_addr = 0 then ucast (bp_en b)
      else if reg_addr = 1 then ucast (bp_hit b)
      else if reg_addr = 2 then 4
      else if reg_addr = 4 then ucast (bp_addr b 0)
      else if reg_addr = 5 then ucast (bp_addr b 1)
      else if reg_addr = 6 then ucast (bp_addr b 2)
      else if reg_addr = 7 then ucast (bp_addr b 3)
      else 0)"

text \<open>The register writes of one clock edge: \<open>BP_CTRL\<close> and \<open>BP_ADDR\<close> are stored, a write to
  \<open>BP_HIT\<close> clears the bits written as 1, \<open>BP_COUNT\<close> is read-only.\<close>

definition hw_bkpt_wr :: "hw_bkpt \<Rightarrow> u32 \<Rightarrow> u32 \<Rightarrow> hw_bkpt" where
  "hw_bkpt_wr b reg_addr wdata =
     (if reg_addr = 0 then b\<lparr>bp_en := ucast wdata\<rparr>
      else if reg_addr = 1 then b\<lparr>bp_hit := bp_hit b AND NOT (ucast wdata)\<rparr>
      else if reg_addr = 4 then b\<lparr>bp_addr := (bp_addr b)(0 := ucast wdata)\<rparr>
      else if reg_addr = 5 then b\<lparr>bp_addr := (bp_addr b)(1 := ucast wdata)\<rparr>
      else if reg_addr = 6 then b\<lparr>bp_addr := (bp_addr b)(2 := ucast wdata)\<rparr>
      else if reg_addr = 7 then b\<lparr>bp_addr := (bp_addr b)(3 := ucast wdata)\<rparr>
      else b)"

text \<open>The whole clocked process, PC comparison included. A write to \<open>BP_HIT\<close> is the last
  assignment to the register on that edge, so it wins over the hit recorded on the same edge.\<close>

definition hw_bkpt_clk ::
  "hw_bkpt \<Rightarrow> bool \<Rightarrow> 14 word \<Rightarrow> bool \<Rightarrow> u32 \<Rightarrow> u32 \<Rightarrow> 4 word \<Rightarrow> hw_bkpt" where
  "hw_bkpt_clk b resetn pc_in sel reg_addr wdata wmask =
     (if \<not> resetn then \<lparr>bp_addr = (\<lambda>_. 0), bp_en = 0, bp_hit = 0, halt_req = False\<rparr>
      else let m = bp_match b pc_in;
               b1 = b\<lparr>halt_req := m \<noteq> 0, bp_hit := bp_hit b OR m\<rparr>
           in if sel \<and> wmask \<noteq> 0
              then (if reg_addr = 1 then b1\<lparr>bp_hit := bp_hit b AND NOT (ucast wdata)\<rparr>
                    else hw_bkpt_wr b1 reg_addr wdata)
              else b1)"

section \<open>UART registers\<close>

text \<open>
  \<open>rx_queue\<close> is what the host is going to send: each byte with the number of polls of
  \<open>UART_STATUS\<close> that find it not there yet. A byte moves into the receive register when that is
  empty, as the bridge of sim/tb_dbg_gdb.cpp injects it. \<open>tx_wait\<close> counts the polls until the
  transmitter is idle again, \<open>tx_time\<close> is the length of a frame in polls and \<open>tx_log\<close> what has
  been sent.
\<close>

record uart =
  rx_valid :: bool
  rx_data :: u8
  rx_queue :: "(nat \<times> u8) list"
  tx_wait :: nat
  tx_time :: nat
  tx_log :: "u8 list"

definition rx_arrive :: "uart \<Rightarrow> uart" where
  "rx_arrive u =
     (if rx_valid u then u
      else case rx_queue u of
             [] \<Rightarrow> u
           | (0, b) # q \<Rightarrow> u\<lparr>rx_valid := True, rx_data := b, rx_queue := q\<rparr>
           | (Suc k, b) # q \<Rightarrow> u\<lparr>rx_queue := (k, b) # q\<rparr>)"

definition uart_tick :: "uart \<Rightarrow> uart" where
  "uart_tick u = (rx_arrive u)\<lparr>tx_wait := tx_wait u - 1\<rparr>"

definition uart_status :: "uart \<Rightarrow> u32" where
  "uart_status u = vcat [(29, 0), (1, bit1 True), (1, bit1 (rx_valid u)), (1, bit1 (tx_wait u = 0))]"

definition uart_rd :: "uart \<Rightarrow> uart" where
  "uart_rd u = u\<lparr>rx_valid := False\<rparr>"

definition uart_wr :: "uart \<Rightarrow> u8 \<Rightarrow> uart" where
  "uart_wr u c =
     (if tx_wait u = 0 then u\<lparr>tx_log := tx_log u @ [c], tx_wait := tx_time u\<rparr> else u)"

section \<open>Bus of the debug SoC\<close>

record soc =
  ram :: "u32 \<Rightarrow> u32"
  rom :: "u32 \<Rightarrow> u32"
  bkpt :: hw_bkpt
  uart :: uart

definition page_sel :: "u32 \<Rightarrow> u32" where "page_sel mem_addr = bits 15 12 mem_addr"
definition io_slot :: "u32 \<Rightarrow> u32" where "io_slot mem_addr = bits 11 8 mem_addr"
definition sys_subslot :: "u32 \<Rightarrow> u32" where "sys_subslot mem_addr = bits 7 5 mem_addr"
definition sys_reg :: "u32 \<Rightarrow> u32" where "sys_reg mem_addr = bits 4 2 mem_addr"
definition ram_waddr :: "u32 \<Rightarrow> u32" where "ram_waddr mem_addr = bits 11 2 mem_addr"

text \<open>A load. Reading \<open>UART_DATA\<close> consumes the byte; polling \<open>UART_STATUS\<close> lets time pass on the line.
  The core takes the data of a load in \<open>S_WAIT\<close>, the clock after the strobe (\<open>mem_rstrb\<close> is low), so the
  breakpoint unit, which answers in the clock of the strobe only, is read without it; Debug_Soc shows
  this of the clocked SoC.\<close>

definition sys_read :: "soc \<Rightarrow> u32 \<Rightarrow> u32 \<times> soc" where
  "sys_read s a =
     (if sys_subslot a = 0 then
        (if bit (sys_reg a) 0
         then (let u = uart_tick (uart s) in (uart_status u, s\<lparr>uart := u\<rparr>))
         else (ucast (rx_data (uart s)),
               if sys_reg a = 0 then s\<lparr>uart := uart_rd (uart s)\<rparr> else s))
      else if sys_subslot a = 1 then (hw_bkpt_rd (bkpt s) False (sys_reg a), s)
      else (0, s))"

definition bus_read :: "soc \<Rightarrow> u32 \<Rightarrow> u32 \<times> soc" where
  "bus_read s a =
     (if page_sel a = 1 then (rom s (ram_waddr a), s)
      else if page_sel a = 2 then (if io_slot a = 0 then sys_read s a else (0, s))
      else (ram s (ram_waddr a), s))"

definition ram_merge :: "u32 \<Rightarrow> u32 \<Rightarrow> 4 word \<Rightarrow> u32" where
  "ram_merge old wdata wmask =
     vcat [(8, bits 31 24 (if bit wmask 3 then wdata else old)),
           (8, bits 23 16 (if bit wmask 2 then wdata else old)),
           (8, bits 15 8 (if bit wmask 1 then wdata else old)),
           (8, bits 7 0 (if bit wmask 0 then wdata else old))]"

definition sys_write :: "soc \<Rightarrow> u32 \<Rightarrow> u32 \<Rightarrow> soc" where
  "sys_write s a wdata =
     (if sys_subslot a = 0 \<and> sys_reg a = 0 then s\<lparr>uart := uart_wr (uart s) (ucast wdata)\<rparr>
      else if sys_subslot a = 1 then s\<lparr>bkpt := hw_bkpt_wr (bkpt s) (sys_reg a) wdata\<rparr>
      else s)"

definition bus_write :: "soc \<Rightarrow> u32 \<Rightarrow> u32 \<Rightarrow> 4 word \<Rightarrow> soc" where
  "bus_write s a wdata wmask =
     (if wmask = 0 then s
      else if page_sel a = 0
        then s\<lparr>ram := (ram s)(ram_waddr a := ram_merge (ram s (ram_waddr a)) wdata wmask)\<rparr>
      else if page_sel a = 2 \<and> io_slot a = 0 then sys_write s a wdata
      else s)"

section \<open>Load/store unit of the core\<close>

text \<open>The effective address keeps \<open>ADDR_WIDTH\<close> = 14 bits. A word access ignores the two low
  address bits on the bus: the lanes below are all there is.\<close>

definition loadstore_addr :: "u32 \<Rightarrow> u32" where
  "loadstore_addr a = bits 13 0 a"

definition LOAD_halfword :: "u32 \<Rightarrow> u32 \<Rightarrow> u32" where
  "LOAD_halfword a mem_rdata = (if bit a 1 then bits 31 16 mem_rdata else bits 15 0 mem_rdata)"

definition LOAD_byte :: "u32 \<Rightarrow> u32 \<Rightarrow> u32" where
  "LOAD_byte a mem_rdata =
     (let h = LOAD_halfword a mem_rdata in if bit a 0 then bits 15 8 h else bits 7 0 h)"

definition mem_wdata :: "u32 \<Rightarrow> u32 \<Rightarrow> u32" where
  "mem_wdata a rs2 =
     vcat [(8, if bit a 0 then bits 7 0 rs2 else if bit a 1 then bits 15 8 rs2 else bits 31 24 rs2),
           (8, if bit a 1 then bits 7 0 rs2 else bits 23 16 rs2),
           (8, if bit a 0 then bits 7 0 rs2 else bits 15 8 rs2),
           (8, bits 7 0 rs2)]"

datatype width = Byte | Half | Word

fun STORE_wmask :: "width \<Rightarrow> u32 \<Rightarrow> 4 word" where
  "STORE_wmask Byte a =
     (if bit a 1 then (if bit a 0 then 8 else 4) else (if bit a 0 then 2 else 1))"
| "STORE_wmask Half a = (if bit a 1 then 12 else 3)"
| "STORE_wmask Word a = 15"

fun LOAD_data :: "width \<Rightarrow> u32 \<Rightarrow> u32 \<Rightarrow> u32" where
  "LOAD_data Byte a mem_rdata = LOAD_byte a mem_rdata"
| "LOAD_data Half a mem_rdata = LOAD_halfword a mem_rdata"
| "LOAD_data Word a mem_rdata = mem_rdata"

text \<open>The accesses of the C code through \<open>uint8_t\<close>, \<open>uint16_t\<close> and \<open>uint32_t\<close> pointers:
  unsigned loads, so no sign extension.\<close>

definition load :: "width \<Rightarrow> soc \<Rightarrow> u32 \<Rightarrow> u32 \<times> soc" where
  "load w s p = (let a = loadstore_addr p; (d, s') = bus_read s a in (LOAD_data w a d, s'))"

definition store :: "width \<Rightarrow> soc \<Rightarrow> u32 \<Rightarrow> u32 \<Rightarrow> soc" where
  "store w s p v = (let a = loadstore_addr p in bus_write s a (mem_wdata a v) (STORE_wmask w a))"

section \<open>What an access does to RAM\<close>

definition in_ram :: "u32 \<Rightarrow> bool" where
  "in_ram a \<longleftrightarrow> a < 0x1000"

text \<open>The halfword that RAM holds at an (even) address.\<close>

definition half_at :: "soc \<Rightarrow> u32 \<Rightarrow> u32" where
  "half_at s a = LOAD_halfword a (ram s (ram_waddr a))"

lemma in_ram_iff: "in_ram a \<longleftrightarrow> take_bit 12 a = a"
  by (simp add: in_ram_def word_less_nat_alt word_unat_eq_iff unsigned_take_bit_eq
      take_bit_nat_eq_self_iff)

lemma in_ram_take: "in_ram a \<Longrightarrow> take_bit 12 a = a"
  by (simp add: in_ram_iff)

lemma in_ram_bit: "in_ram a \<Longrightarrow> 12 \<le> k \<Longrightarrow> \<not> bit a k"
  by (metis bit_take_bit_iff in_ram_take linorder_not_less)

lemma loadstore_addr_ram [simp]: "in_ram a \<Longrightarrow> loadstore_addr a = a"
  by (rule bit_word_eqI)
     (use in_ram_bit in \<open>auto simp: loadstore_addr_def bit_simps not_less intro: ccontr\<close>)

lemma page_sel_ram [simp]: "in_ram a \<Longrightarrow> page_sel a = 0"
  by (rule bit_word_eqI) (use in_ram_bit in \<open>auto simp: page_sel_def bit_simps not_less\<close>)

lemma STORE_wmask_nonzero [simp]: "STORE_wmask w a \<noteq> 0"
  by (cases w) auto

lemma load_ram:
  "in_ram a \<Longrightarrow> load w s a = (LOAD_data w a (ram s (ram_waddr a)), s)"
  by (simp add: load_def bus_read_def)

lemma store_ram:
  "in_ram a \<Longrightarrow> store w s a v =
     s\<lparr>ram := (ram s)(ram_waddr a := ram_merge (ram s (ram_waddr a)) (mem_wdata a v) (STORE_wmask w a))\<rparr>"
  by (simp add: store_def bus_write_def)

lemma load_half_ram: "in_ram a \<Longrightarrow> load Half s a = (half_at s a, s)"
  by (simp add: load_ram half_at_def)

lemma load_word_ram: "in_ram a \<Longrightarrow> load Word s a = (ram s (ram_waddr a), s)"
  by (simp add: load_ram)

lemma ram_addr_eqI:
  assumes "in_ram a" "in_ram b" "ram_waddr a = ram_waddr b" "bit a 0 = bit b 0" "bit a 1 = bit b 1"
  shows "a = b"
proof (rule bit_word_eqI)
  fix n
  have "n = 0 \<or> n = 1 \<or> 12 \<le> n \<or> (\<exists>k < 10. n = Suc (Suc k))" by presburger
  then consider "n = 0" | "n = 1" | "12 \<le> n" | k where "n = Suc (Suc k)" "k < 10" by blast
  then show "bit a n = bit b n"
  proof cases
    case (4 k)
    have "bit (ram_waddr a) k = bit (ram_waddr b) k" using assms(3) by simp
    with 4 show ?thesis by (simp add: ram_waddr_def bit_simps)
  qed (use assms in_ram_bit in auto)
qed

text \<open>Fields of a word made of four bytes, and fields of fields.\<close>

lemma bits_lane:
  "bits 7 0 (vcat [(8, d), (8, c), (8, b), (8, a)]) = bits 7 0 a"
  "bits 15 8 (vcat [(8, d), (8, c), (8, b), (8, a)]) = bits 7 0 b"
  "bits 23 16 (vcat [(8, d), (8, c), (8, b), (8, a)]) = bits 7 0 c"
  "bits 31 24 (vcat [(8, d), (8, c), (8, b), (8, a)]) = bits 7 0 d"
  by (rule bit_word_eqI; auto simp: bit_simps)+

lemma bits_bits:
  "bits 7 0 (bits 7 0 w) = bits 7 0 w"
  "bits 7 0 (bits 15 8 w) = bits 15 8 w"
  "bits 7 0 (bits 23 16 w) = bits 23 16 w"
  "bits 7 0 (bits 31 24 w) = bits 31 24 w"
  "bits 15 8 (bits 31 16 w) = bits 31 24 w"
  "bits 7 0 (bits 31 16 w) = bits 23 16 w"
  "bits 15 8 (bits 15 0 w) = bits 15 8 w"
  "bits 7 0 (bits 15 0 w) = bits 7 0 w"
  by (rule bit_word_eqI; auto simp: bit_simps)+

lemma bits_half:
  "bits 15 0 (vcat [(8, d), (8, c), (8, b), (8, a)]) = vcat [(8, b), (8, a)]"
  "bits 31 16 (vcat [(8, d), (8, c), (8, b), (8, a)]) = vcat [(8, d), (8, c)]"
  "vcat [(8, bits 15 8 v), (8, bits 7 0 v)] = bits 15 0 v"
  "vcat [(8, bits 31 24 v), (8, bits 23 16 v)] = bits 31 16 v"
  "bits 31 16 (vcat [(16, v), (16, v)]) = bits 15 0 v"
  "bits 15 0 (vcat [(16, v), (16, v)]) = bits 15 0 v"
  by (rule bit_word_eqI; auto simp: bit_simps)+

lemma four_bytes:
  "vcat [(8, bits 31 24 v), (8, bits 23 16 v), (8, bits 15 8 v), (8, bits 7 0 v)] = v"
  "vcat [(8, bits 15 8 v), (8, bits 7 0 v), (8, bits 15 8 v), (8, bits 7 0 v)] =
     vcat [(16, v), (16, v)]"
  by (rule word32_eqI; simp add: vec_simps)+

lemmas lane_simps = LOAD_byte_def LOAD_halfword_def mem_wdata_def ram_merge_def
  bits_bits bits_lane bits_half four_bytes Let_def

lemma merge_half:
  "\<not> bit a 0 \<Longrightarrow> \<not> bit b 0 \<Longrightarrow>
   LOAD_halfword b (ram_merge old (mem_wdata a v) (STORE_wmask Half a)) =
     (if bit a 1 = bit b 1 then bits 15 0 v else LOAD_halfword b old)"
  by (cases "bit a 1"; cases "bit b 1"; simp add: lane_simps del: vcat.simps)

lemma merge_word:
  "\<not> bit a 0 \<Longrightarrow> ram_merge old (mem_wdata a v) (STORE_wmask Word a) =
     (if bit a 1 then vcat [(16, v), (16, v)] else v)"
  by (cases "bit a 1"; simp add: lane_simps del: vcat.simps)

lemma merge_half_back:
  "\<not> bit a 0 \<Longrightarrow>
   ram_merge (ram_merge old (mem_wdata a v) (STORE_wmask Half a))
     (mem_wdata a (LOAD_halfword a old)) (STORE_wmask Half a) = old"
  by (cases "bit a 1"; simp add: lane_simps del: vcat.simps)

lemma half_at_store_half:
  assumes "in_ram a" "\<not> bit a 0" "in_ram b" "\<not> bit b 0"
  shows "half_at (store Half s a v) b = (if b = a then bits 15 0 v else half_at s b)"
  using assms ram_addr_eqI [of a b]
  by (auto simp: half_at_def store_ram merge_half simp del: STORE_wmask.simps)

text \<open>Putting the old halfword back undoes a halfword store, whatever the halfword's lane.\<close>

lemma store_half_undo:
  "in_ram a \<Longrightarrow> \<not> bit a 0 \<Longrightarrow> store Half (store Half s a v) a (half_at s a) = s"
  by (simp add: store_ram half_at_def merge_half_back del: STORE_wmask.simps)

text \<open>A word store at a word boundary replaces the word; anywhere else it writes the low
  halfword twice, over the whole aligned word around the address.\<close>

lemma store_word_aligned:
  "in_ram a \<Longrightarrow> \<not> bit a 0 \<Longrightarrow> \<not> bit a 1 \<Longrightarrow>
   store Word s a v = s\<lparr>ram := (ram s)(ram_waddr a := v)\<rparr>"
  by (simp add: store_ram merge_word del: STORE_wmask.simps)

lemma store_word_misaligned:
  "in_ram a \<Longrightarrow> \<not> bit a 0 \<Longrightarrow> bit a 1 \<Longrightarrow>
   store Word s a v = s\<lparr>ram := (ram s)(ram_waddr a := vcat [(16, v), (16, v)])\<rparr>"
  by (simp add: store_ram merge_word del: STORE_wmask.simps)

lemma store_word_undo:
  "in_ram a \<Longrightarrow> \<not> bit a 0 \<Longrightarrow> \<not> bit a 1 \<Longrightarrow>
   store Word (store Word s a v) a (ram s (ram_waddr a)) = s"
  by (simp add: store_word_aligned)

lemma plus2_or:
  assumes "\<not> bit (a::u32) 1"
  shows "a + 2 = a OR 2"
  by (rule disjunctive_add) (use assms in \<open>auto simp: bit_simps\<close>)

lemma in_ram_or2: "in_ram a \<Longrightarrow> in_ram (a OR 2)"
  by (simp add: in_ram_iff)

lemma half_at_store_word:
  assumes a: "in_ram a" "\<not> bit a 0" "\<not> bit a 1" and b: "in_ram b" "\<not> bit b 0"
  shows "half_at (store Word s a v) b =
     (if b = a then bits 15 0 v else if b = a + 2 then bits 31 16 v else half_at s b)"
proof (cases "ram_waddr b = ram_waddr a")
  case True
  have w: "ram_waddr (a OR 2) = ram_waddr a"
    by (rule word32_eqI) (simp_all add: ram_waddr_def vec_simps)
  have h: "half_at (store Word s a v) b = LOAD_halfword b v"
    using True by (simp add: half_at_def store_word_aligned [OF a])
  show ?thesis
  proof (cases "bit b 1")
    case b1: True
    have "bit (a OR 2) 1" "\<not> bit (a OR 2) 0" using a by (simp_all add: bit_or_iff)
    with b1 b w True have "b = a OR 2"
      by (simp add: ram_addr_eqI in_ram_or2 a)
    moreover have "a OR 2 \<noteq> a" using a(3) b1 calculation by metis
    ultimately show ?thesis using h b1 plus2_or [OF a(3)] by (simp add: LOAD_halfword_def)
  next
    case False
    then have "b = a"
      using a b True by (simp add: ram_addr_eqI)
    with a h show ?thesis by (simp add: LOAD_halfword_def)
  qed
next
  case False
  have w: "ram_waddr (a OR 2) = ram_waddr a"
    by (rule word32_eqI) (simp_all add: ram_waddr_def vec_simps)
  from False w a have "b \<noteq> a" "b \<noteq> a + 2" by (auto simp: plus2_or)
  with False show ?thesis by (simp add: half_at_def store_word_aligned [OF a])
qed

section \<open>Bytes of RAM\<close>

definition byte_at :: "soc \<Rightarrow> u32 \<Rightarrow> u32" where
  "byte_at s a = LOAD_byte a (ram s (ram_waddr a))"

lemma load_byte_ram: "in_ram a \<Longrightarrow> load Byte s a = (byte_at s a, s)"
  by (simp add: load_ram byte_at_def)

lemma merge_byte:
  "LOAD_byte b (ram_merge old (mem_wdata a v) (STORE_wmask Byte a)) =
     (if bit a 0 = bit b 0 \<and> bit a 1 = bit b 1 then bits 7 0 v else LOAD_byte b old)"
  by (cases "bit a 0"; cases "bit a 1"; cases "bit b 0"; cases "bit b 1";
      simp add: LOAD_byte_def LOAD_halfword_def Let_def mem_wdata_def ram_merge_def bits_bits
        bits_lane del: vcat.simps)

lemma byte_at_store_byte:
  assumes "in_ram a" "in_ram b"
  shows "byte_at (store Byte s a v) b = (if b = a then bits 7 0 v else byte_at s b)"
  using assms ram_addr_eqI [of a b]
  by (auto simp: byte_at_def store_ram merge_byte simp del: STORE_wmask.simps)

text \<open>A store to RAM leaves the rest of the system alone.\<close>

lemma store_ram_frame [bus_simps]:
  "in_ram a \<Longrightarrow> uart (store w s a v) = uart s"
  "in_ram a \<Longrightarrow> bkpt (store w s a v) = bkpt s"
  "in_ram a \<Longrightarrow> rom (store w s a v) = rom s"
  by (simp_all add: store_ram)

text \<open>Outside RAM and the I/O page nothing is written.\<close>

lemma store_rom:
  assumes "page_sel (loadstore_addr a) = 1"
  shows "store w s a v = s"
  using assms by (simp add: store_def bus_write_def)

section \<open>The breakpoint unit's clock edge\<close>

text \<open>With no enabled comparator on the current PC, an edge does exactly the register write.\<close>

lemma hw_bkpt_clk_quiet:
  assumes "bp_match b pc = 0" and "wmask \<noteq> 0"
  shows "hw_bkpt_clk b True pc True r w wmask = (hw_bkpt_wr b r w)\<lparr>halt_req := False\<rparr>"
  using assms by (simp add: hw_bkpt_clk_def hw_bkpt_wr_def Let_def)

end
