(* ===== verification/Byte_Channel.thy ===== *)
theory Byte_Channel
  imports Machine_Prelude
begin

text \<open>
  The interface that sw/gdb_stub.h calls the platform-supplied byte I/O: a blocking \<open>getc\<close> and a
  blocking \<open>putc\<close>. Its laws are what the packet layer relies on: bytes come out in the order the
  host sent them and none is lost, \<open>getc\<close> never returns when nothing more will come, \<open>putc\<close> always
  returns, and neither touches anything else. The UART polling routines provide it (theory
  Uart_Io), the packet layer is its client (theory Rsp_Framing).
\<close>

locale byte_channel =
  fixes getc :: "'s \<Rightarrow> (u8 \<times> 's) option"
    and putc :: "u8 \<Rightarrow> 's \<Rightarrow> 's option"
    and pending :: "'s \<Rightarrow> u8 list"
    and sent :: "'s \<Rightarrow> u8 list"
    and others :: "'s \<Rightarrow> 'r"
  assumes getc_Cons: "pending s = b # bs \<Longrightarrow>
      \<exists>s'. getc s = Some (b, s') \<and> pending s' = bs \<and> sent s' = sent s \<and> others s' = others s"
    and getc_Nil: "pending s = [] \<Longrightarrow> getc s = None"
    and putc_total: "\<exists>s'. putc c s = Some s' \<and>
      pending s' = pending s \<and> sent s' = sent s @ [c] \<and> others s' = others s"

end
