(* ===== verification/Uart_Io.thy ===== *)
theory Uart_Io
  imports Soc_Bus Byte_Channel
begin

text \<open>
  \<open>gdb_uart_getc\<close> and \<open>gdb_uart_putc\<close> of sw/gdb_stub.c: polling loops over the UART registers,
  which they reach by word accesses through the bus. A loop that never sees its status bit is the
  value \<open>None\<close>. The theory proves that the two routines provide the byte channel.
\<close>

definition IO_BASE :: u32 where "IO_BASE = 0x2000"
definition UART_DATA :: u32 where "UART_DATA = IO_BASE + 0x00"
definition UART_STATUS :: u32 where "UART_STATUS = IO_BASE + 0x04"

partial_function (option) gdb_uart_getc :: "soc \<Rightarrow> (u8 \<times> soc) option" where
  "gdb_uart_getc s =
     (let (st, s1) = load Word s UART_STATUS
      in if st AND 0x2 = 0 then gdb_uart_getc s1
         else (let (d, s2) = load Word s1 UART_DATA in Some (ucast (d AND 0xFF), s2)))"

partial_function (option) gdb_uart_putc :: "u8 \<Rightarrow> soc \<Rightarrow> soc option" where
  "gdb_uart_putc c s =
     (let (st, s1) = load Word s UART_STATUS
      in if st AND 0x1 = 0 then gdb_uart_putc c s1
         else Some (store Word s1 UART_DATA (ucast c)))"

section \<open>The registers behind the addresses\<close>

lemmas io_decode = load_def store_def bus_read_def bus_write_def sys_read_def sys_write_def
  loadstore_addr_def page_sel_def io_slot_def sys_subslot_def sys_reg_def bits_def

lemma load_UART_STATUS:
  "load Word s UART_STATUS =
     (uart_status (uart_tick (uart s)), s\<lparr>uart := uart_tick (uart s)\<rparr>)"
  by (simp add: io_decode UART_STATUS_def IO_BASE_def Let_def)

lemma load_UART_DATA:
  "load Word s UART_DATA = (ucast (rx_data (uart s)), s\<lparr>uart := uart_rd (uart s)\<rparr>)"
  by (simp add: io_decode UART_DATA_def IO_BASE_def Let_def)

lemma store_UART_DATA:
  "store Word s UART_DATA (ucast (c::u8)) = s\<lparr>uart := uart_wr (uart s) c\<rparr>"
proof -
  have "ucast (mem_wdata 0x2000 (ucast c)) = c"
    by (rule word8_eqI; simp add: mem_wdata_def vec_simps)
  then show ?thesis
    by (simp add: io_decode UART_DATA_def IO_BASE_def Let_def)
qed

lemma status_rx: "uart_status u AND 2 = 0 \<longleftrightarrow> \<not> rx_valid u"
  by (cases "rx_valid u"; cases "tx_wait u = 0") (simp_all add: uart_status_def bit1_def)

lemma status_tx: "uart_status u AND 1 = 0 \<longleftrightarrow> tx_wait u \<noteq> 0"
  by (cases "rx_valid u"; cases "tx_wait u = 0") (simp_all add: uart_status_def bit1_def)

section \<open>The channel\<close>

text \<open>What the host has sent and the stub has not read, in order.\<close>

definition uart_pending :: "soc \<Rightarrow> u8 list" where
  "uart_pending s =
     (if rx_valid (uart s) then [rx_data (uart s)] else []) @ map snd (rx_queue (uart s))"

definition uart_sent :: "soc \<Rightarrow> u8 list" where
  "uart_sent s = tx_log (uart s)"

definition uart_others :: "soc \<Rightarrow> (u32 \<Rightarrow> u32) \<times> (u32 \<Rightarrow> u32) \<times> hw_bkpt" where
  "uart_others s = (ram s, rom s, bkpt s)"

text \<open>A poll neither loses nor reorders bytes.\<close>

lemma rx_arrive_pending:
  "(if rx_valid (rx_arrive u) then [rx_data (rx_arrive u)] else []) @ map snd (rx_queue (rx_arrive u))
   = (if rx_valid u then [rx_data u] else []) @ map snd (rx_queue u)"
  by (auto simp: rx_arrive_def split: list.splits prod.splits nat.splits)

lemma rx_arrive_frame [simp]:
  "tx_log (rx_arrive u) = tx_log u" "tx_wait (rx_arrive u) = tx_wait u"
  "tx_time (rx_arrive u) = tx_time u"
  by (auto simp: rx_arrive_def split: list.splits prod.splits nat.splits)

lemma uart_tick_simps [simp]:
  "rx_valid (uart_tick u) = rx_valid (rx_arrive u)" "rx_data (uart_tick u) = rx_data (rx_arrive u)"
  "rx_queue (uart_tick u) = rx_queue (rx_arrive u)" "tx_log (uart_tick u) = tx_log u"
  "tx_wait (uart_tick u) = tx_wait u - 1"
  by (simp_all add: uart_tick_def)

lemma poll_channel [simp]:
  "uart_pending (s\<lparr>uart := uart_tick (uart s)\<rparr>) = uart_pending s"
  "uart_sent (s\<lparr>uart := uart_tick (uart s)\<rparr>) = uart_sent s"
  "uart_others (s\<lparr>uart := uart_tick (uart s)\<rparr>) = uart_others s"
  using rx_arrive_pending [of "uart s"]
  by (auto simp: uart_pending_def uart_sent_def uart_others_def split: if_splits)

lemma byte_mask: "ucast (ucast (b::u8) AND (255::u32)) = b"
  by (rule word8_eqI; simp add: vec_simps)

text \<open>Polls left until the next byte is in the receive register.\<close>

definition polls_left :: "uart \<Rightarrow> nat" where
  "polls_left u = (if rx_valid u then 0 else case rx_queue u of [] \<Rightarrow> 0 | (k, b) # q \<Rightarrow> k)"

lemma getc_returns:
  "uart_pending s = b # bs \<Longrightarrow>
   \<exists>s'. gdb_uart_getc s = Some (b, s') \<and> uart_pending s' = bs \<and> uart_sent s' = uart_sent s \<and>
     uart_others s' = uart_others s"
proof (induction "polls_left (uart s)" arbitrary: s rule: less_induct)
  case less
  let ?s1 = "s\<lparr>uart := uart_tick (uart s)\<rparr>"
  have pend: "uart_pending ?s1 = b # bs" using less.prems by simp
  show ?case
  proof (cases "rx_valid (uart_tick (uart s))")
    case True
    then have "gdb_uart_getc s = Some (b, ?s1\<lparr>uart := uart_rd (uart_tick (uart s))\<rparr>)"
      using pend
      by (subst gdb_uart_getc.simps)
         (simp add: load_UART_STATUS load_UART_DATA status_rx uart_pending_def byte_mask)
    then show ?thesis
      using True pend by (auto simp: uart_pending_def uart_sent_def uart_others_def uart_rd_def)
  next
    case False
    then have "polls_left (uart ?s1) < polls_left (uart s)"
      using less.prems
      by (auto simp: polls_left_def rx_arrive_def uart_pending_def
          split: list.splits prod.splits nat.splits if_splits)
    from less.hyps [OF this pend] obtain s' where
      "gdb_uart_getc ?s1 = Some (b, s')" "uart_pending s' = bs" "uart_sent s' = uart_sent ?s1"
      "uart_others s' = uart_others ?s1" by blast
    moreover have "gdb_uart_getc s = gdb_uart_getc ?s1"
      using False by (subst gdb_uart_getc.simps) (simp add: load_UART_STATUS status_rx)
    ultimately show ?thesis by simp
  qed
qed

lemma getc_blocks:
  assumes "uart_pending s = []"
  shows "gdb_uart_getc s = None"
proof (rule ccontr)
  assume "gdb_uart_getc s \<noteq> None"
  then obtain r where "gdb_uart_getc s = Some r" by blast
  moreover have "uart_pending s = [] \<longrightarrow> False" if "gdb_uart_getc s = Some r" for s r
  proof (rule gdb_uart_getc.raw_induct [where P = "\<lambda>s r. uart_pending s = [] \<longrightarrow> False", OF _ that])
    fix g s r
    assume IH: "\<And>s r. g s = Some r \<Longrightarrow> uart_pending s = [] \<longrightarrow> False"
      and eq: "(let (st, s1) = load Word s UART_STATUS
        in if st AND 0x2 = 0 then g s1
           else (let (d, s2) = load Word s1 UART_DATA in Some (ucast (d AND 0xFF), s2))) = Some r"
    show "uart_pending s = [] \<longrightarrow> False"
    proof
      assume e: "uart_pending s = []"
      then have "\<not> rx_valid (rx_arrive (uart s))"
        using poll_channel(1) [of s] by (auto simp: uart_pending_def)
      with eq have "g (s\<lparr>uart := uart_tick (uart s)\<rparr>) = Some r"
        by (simp add: load_UART_STATUS status_rx)
      from IH [OF this] e show False by simp
    qed
  qed
  ultimately show False using assms by blast
qed

lemma putc_returns:
  "\<exists>s'. gdb_uart_putc c s = Some s' \<and> uart_pending s' = uart_pending s \<and>
     uart_sent s' = uart_sent s @ [c] \<and> uart_others s' = uart_others s"
proof (induction "tx_wait (uart s)" arbitrary: s rule: less_induct)
  case less
  let ?s1 = "s\<lparr>uart := uart_tick (uart s)\<rparr>"
  show ?case
  proof (cases "tx_wait (uart s) \<le> 1")
    case True
    then have "gdb_uart_putc c s = Some (?s1\<lparr>uart := uart_wr (uart_tick (uart s)) c\<rparr>)"
      by (subst gdb_uart_putc.simps)
         (simp add: load_UART_STATUS store_UART_DATA status_tx)
    moreover have "uart_pending (?s1\<lparr>uart := uart_wr (uart_tick (uart s)) c\<rparr>) = uart_pending ?s1"
      by (simp add: uart_pending_def uart_wr_def)
    ultimately show ?thesis
      using True by (simp add: uart_sent_def uart_others_def uart_wr_def)
  next
    case False
    then have "tx_wait (uart ?s1) < tx_wait (uart s)" by simp
    from less [OF this] obtain s' where
      "gdb_uart_putc c ?s1 = Some s'" "uart_pending s' = uart_pending ?s1"
      "uart_sent s' = uart_sent ?s1 @ [c]" "uart_others s' = uart_others ?s1" by blast
    moreover have "gdb_uart_putc c s = gdb_uart_putc c ?s1"
      using False by (subst gdb_uart_putc.simps) (simp add: load_UART_STATUS status_tx)
    ultimately show ?thesis by simp
  qed
qed

interpretation uart_channel: byte_channel gdb_uart_getc gdb_uart_putc uart_pending uart_sent uart_others
  by unfold_locales (use getc_returns getc_blocks putc_returns in auto)

end
