(* ===== verification/Hex_Codec.thy ===== *)
theory Hex_Codec
  imports Soc_Bus
begin

text \<open>
  The hex encode/decode utilities of sw/gdb_stub.c: single digits, \<open>parse_hex\<close>, the
  little-endian word codec of the register packets and the byte codec of the memory packets.
  \<open>int\<close> results are 32-bit words read with \<open>sint\<close>, so \<open>hex_to_nib\<close> gives \<open>-1\<close> on a character that
  is no digit and the shifts of such a value are the ones the machine does. The lemmas give the
  round trips and the value \<open>parse_hex\<close> computes.
\<close>

section \<open>Digits\<close>

definition hex_to_nib :: "u8 \<Rightarrow> u32" where
  "hex_to_nib c =
     (if 48 \<le> c \<and> c \<le> 57 then ucast c - 48
      else if 97 \<le> c \<and> c \<le> 102 then ucast c - 97 + 10
      else if 65 \<le> c \<and> c \<le> 70 then ucast c - 65 + 10
      else - 1)"

text \<open>The string literal \<open>"0123456789abcdef"\<close> of \<open>nib_to_hex\<close>.\<close>

definition hex_digits :: "u8 list" where
  "hex_digits = [48, 49, 50, 51, 52, 53, 54, 55, 56, 57, 97, 98, 99, 100, 101, 102]"

definition nib_to_hex :: "u32 \<Rightarrow> u8" where
  "nib_to_hex v = hex_digits ! unat (v AND 0xF)"

definition is_hex :: "u8 \<Rightarrow> bool" where
  "is_hex c \<longleftrightarrow> 0 \<le> sint (hex_to_nib c)"

section \<open>Numbers\<close>

text \<open>The loop of \<open>parse_hex\<close>: it stops at the first character that is no digit, and has no
  other bound.\<close>

partial_function (option) parse_hex_loop :: "bytes_from \<Rightarrow> nat \<Rightarrow> u32 \<Rightarrow> (u32 \<times> nat) option" where
  "parse_hex_loop buf p v =
     (let n = hex_to_nib (buf p)
      in if 0 \<le> sint n then parse_hex_loop buf (p + 1) (push_bit 4 v OR n) else Some (v, p))"

definition parse_hex :: "bytes_from \<Rightarrow> nat \<Rightarrow> (u32 \<times> nat) option" where
  "parse_hex buf p = parse_hex_loop buf p 0"

section \<open>Words, little endian\<close>

fun u32_to_hex_le_loop :: "nat \<Rightarrow> u32 \<Rightarrow> bytes_from \<Rightarrow> nat \<Rightarrow> bytes_from" where
  "u32_to_hex_le_loop 0 v buf p = buf"
| "u32_to_hex_le_loop (Suc n) v buf p =
     u32_to_hex_le_loop n (drop_bit 8 v)
       (buf(p := nib_to_hex (drop_bit 4 v AND 0xF), p + 1 := nib_to_hex (v AND 0xF))) (p + 2)"

definition u32_to_hex_le :: "u32 \<Rightarrow> bytes_from \<Rightarrow> nat \<Rightarrow> bytes_from" where
  "u32_to_hex_le v buf p = u32_to_hex_le_loop 4 v buf p"

fun hex_le_to_u32_loop :: "nat \<Rightarrow> nat \<Rightarrow> bytes_from \<Rightarrow> nat \<Rightarrow> u32 \<Rightarrow> u32" where
  "hex_le_to_u32_loop 0 i buf p v = v"
| "hex_le_to_u32_loop (Suc n) i buf p v =
     (let hi = hex_to_nib (buf (p + i * 2)); lo = hex_to_nib (buf (p + (i * 2 + 1)))
      in hex_le_to_u32_loop n (i + 1) buf p (v OR push_bit (i * 8) (push_bit 4 hi OR lo)))"

definition hex_le_to_u32 :: "bytes_from \<Rightarrow> nat \<Rightarrow> u32" where
  "hex_le_to_u32 buf p = hex_le_to_u32_loop 4 0 buf p 0"

section \<open>Memory\<close>

text \<open>\<open>mem\<close> is not volatile but may alias \<open>buf\<close>, so each byte is read twice, as the C text
  does.\<close>

fun mem_to_hex_loop :: "nat \<Rightarrow> soc \<Rightarrow> u32 \<Rightarrow> bytes_from \<Rightarrow> nat \<Rightarrow> bytes_from \<times> soc" where
  "mem_to_hex_loop 0 s mem buf p = (buf, s)"
| "mem_to_hex_loop (Suc n) s mem buf p =
     (let (b, s1) = load Byte s mem;
          buf1 = buf(p := nib_to_hex (drop_bit 4 b));
          (b', s2) = load Byte s1 mem;
          buf2 = buf1(p + 1 := nib_to_hex b')
      in mem_to_hex_loop n s2 (mem + 1) buf2 (p + 2))"

definition mem_to_hex :: "soc \<Rightarrow> u32 \<Rightarrow> bytes_from \<Rightarrow> nat \<Rightarrow> u32 \<Rightarrow> u32 \<times> bytes_from \<times> soc" where
  "mem_to_hex s mem buf p len = (len * 2, mem_to_hex_loop (nat (sint len)) s mem buf p)"

fun hex_to_mem_loop :: "nat \<Rightarrow> bytes_from \<Rightarrow> nat \<Rightarrow> u32 \<Rightarrow> u32 \<Rightarrow> soc \<Rightarrow> u32 \<times> soc" where
  "hex_to_mem_loop 0 buf p mem i s = (i, s)"
| "hex_to_mem_loop (Suc n) buf p mem i s =
     (let hi = hex_to_nib (buf p); lo = hex_to_nib (buf (p + 1))
      in if sint hi < 0 \<or> sint lo < 0 then (i, s)
         else hex_to_mem_loop n buf (p + 2) mem (i + 1)
                (store Byte s (mem + i) (ucast (ucast (push_bit 4 hi OR lo) :: u8))))"

definition hex_to_mem :: "bytes_from \<Rightarrow> nat \<Rightarrow> u32 \<Rightarrow> u32 \<Rightarrow> soc \<Rightarrow> u32 \<times> soc" where
  "hex_to_mem buf p mem len s = hex_to_mem_loop (nat (sint len)) buf p mem 0 s"

section \<open>Lemmas\<close>

lemma hex_digit_table:
  assumes "n < 16"
  shows "hex_to_nib (hex_digits ! n) = word_of_nat n"
proof -
  have "list_all (\<lambda>n. hex_to_nib (hex_digits ! n) = word_of_nat n) [0..<16]" by code_simp
  with assms show ?thesis by (simp add: list_all_iff)
qed

lemma unat_and_15: "unat ((v::u32) AND 15) < 16"
proof -
  have "v AND 15 \<le> 15" by (rule word_and_le1)
  then show ?thesis by (simp add: word_le_nat_alt)
qed

lemma hex_to_nib_nib_to_hex [simp]: "hex_to_nib (nib_to_hex v) = v AND 15"
  by (simp add: nib_to_hex_def hex_digit_table unat_and_15)

lemma nib_cases: "hex_to_nib c = - 1 \<or> unat (hex_to_nib c) < 16"
  by (auto simp: hex_to_nib_def word_le_nat_alt unat_sub_if' unat_word_ariths unsigned_ucast_eq
      take_bit_nat_eq_self)

lemma sint_nonneg:
  assumes "unat (v::u32) < 2 ^ 31"
  shows "sint v = int (unat v)"
proof -
  have "int (unat v) < int (2 ^ 31)" using assms by (simp only: of_nat_less_iff)
  then have "uint v < 2 ^ 31" by simp
  moreover have "- (2 ^ 31) \<le> uint v" by (rule order_trans [of _ 0]) simp_all
  ultimately have "signed_take_bit 31 (uint v) = uint v"
    by (intro signed_take_bit_int_eq_self) simp_all
  then have "sint v = uint v" by (simp add: sint_uint)
  then show ?thesis by simp
qed

lemma sint_small: "unat (v::u32) < 16 \<Longrightarrow> sint v = int (unat v)"
  by (simp add: sint_nonneg)

lemma is_hex_iff: "is_hex c \<longleftrightarrow> hex_to_nib c \<noteq> - 1"
  using nib_cases [of c] by (auto simp: is_hex_def sint_small)

lemma is_hex_nib: "is_hex c \<Longrightarrow> unat (hex_to_nib c) < 16"
  using nib_cases [of c] by (auto simp: is_hex_iff)

lemma is_hex_sint: "sint (hex_to_nib c) < 0 \<longleftrightarrow> \<not> is_hex c"
  by (auto simp: is_hex_def)

lemma is_hex_nib_to_hex [simp]: "is_hex (nib_to_hex v)"
  by (simp add: is_hex_def sint_small unat_and_15)

lemma is_hex_0 [simp]: "\<not> is_hex 0"
  by (simp add: is_hex_iff hex_to_nib_def)

text \<open>The number a digit string denotes.\<close>

definition hex_value :: "u8 list \<Rightarrow> nat" where
  "hex_value ds = foldl (\<lambda>n c. 16 * n + unat (hex_to_nib c)) 0 ds"

lemma shift_in_digit:
  assumes "unat (n::u32) < 16"
  shows "push_bit 4 v OR n = word_of_nat (16 * unat v + unat n)"
proof -
  have n: "take_bit 4 n = n"
    using assms by (simp add: word_unat_eq_iff unsigned_take_bit_eq take_bit_nat_eq_self)
  have "push_bit 4 v OR n = push_bit 4 v + n"
    by (rule disjunctive_add [symmetric]) (metis bit_push_bit_iff bit_take_bit_iff n linorder_not_less)
  also have "\<dots> = word_of_nat (16 * unat v + unat n)"
    by (simp add: push_bit_eq_mult)
  finally show ?thesis .
qed

lemma digits_foldl:
  "list_all is_hex ds \<Longrightarrow>
   foldl (\<lambda>v c. push_bit 4 v OR hex_to_nib c) (word_of_nat k) ds =
     word_of_nat (foldl (\<lambda>n c. 16 * n + unat (hex_to_nib c)) k ds)"
proof (induction ds arbitrary: k)
  case (Cons c ds)
  have "push_bit 4 (word_of_nat k) OR hex_to_nib c =
      (word_of_nat (16 * k + unat (hex_to_nib c)) :: u32)"
    using Cons.prems by (simp add: shift_in_digit is_hex_nib del: of_nat_add of_nat_mult) simp
  with Cons show ?case by (simp del: of_nat_add of_nat_mult)
qed simp

lemma parse_hex_loop_digits:
  "chars_at buf p ds \<Longrightarrow> list_all is_hex ds \<Longrightarrow> \<not> is_hex (buf (p + length ds)) \<Longrightarrow>
   parse_hex_loop buf p v =
     Some (foldl (\<lambda>v c. push_bit 4 v OR hex_to_nib c) v ds, p + length ds)"
proof (induction ds arbitrary: p v)
  case Nil
  then show ?case by (subst parse_hex_loop.simps) (simp add: is_hex_def Let_def)
next
  case (Cons c ds)
  then show ?case by (subst parse_hex_loop.simps) (simp add: is_hex_def Let_def)
qed

lemma parse_hex_digits:
  assumes "chars_at buf p ds" "list_all is_hex ds" "\<not> is_hex (buf (p + length ds))"
  shows "parse_hex buf p = Some (word_of_nat (hex_value ds), p + length ds)"
  using parse_hex_loop_digits [OF assms, of 0] digits_foldl [OF assms(2), of 0]
  by (simp add: parse_hex_def hex_value_def)



lemma nib_lt: "sint (v AND 15 :: u32) = int (unat (v AND 15))"
  by (simp add: sint_small unat_and_15)

lemma u32_hex_roundtrip: "hex_le_to_u32 (u32_to_hex_le v buf p) p = v"
proof -
  have four: "(4::nat) = Suc (Suc (Suc (Suc 0)))" by simp
  show ?thesis
    unfolding hex_le_to_u32_def u32_to_hex_le_def four hex_le_to_u32_loop.simps
      u32_to_hex_le_loop.simps
    by (simp add: Let_def numeral_2_eq_2 [symmetric]) (rule word32_eqI; simp add: vec_simps)
qed

section \<open>Blocks of RAM\<close>

text \<open>The byte that a pair of digits stands for.\<close>

definition hex_byte :: "u8 \<Rightarrow> u8 \<Rightarrow> u32" where
  "hex_byte c d = push_bit 4 (hex_to_nib c) OR hex_to_nib d"

lemma bit_nib: "is_hex c \<Longrightarrow> bit (hex_to_nib c) n \<Longrightarrow> n < 4"
proof -
  assume "is_hex c" and n: "bit (hex_to_nib c) n"
  then have "take_bit 4 (hex_to_nib c) = hex_to_nib c"
    using is_hex_nib [of c]
    by (simp add: word_unat_eq_iff unsigned_take_bit_eq take_bit_nat_eq_self)
  with n show ?thesis by (metis bit_take_bit_iff)
qed

lemma hex_byte_stored:
  "is_hex c \<Longrightarrow> is_hex d \<Longrightarrow>
   bits 7 0 (ucast (ucast (push_bit 4 (hex_to_nib c) OR hex_to_nib d) :: u8)) = hex_byte c d"
  by (rule bit_word_eqI) (auto simp: hex_byte_def bit_simps dest: bit_nib)

lemma byte_at_bits: "bits 7 0 (byte_at s a) = byte_at s a"
  by (simp add: byte_at_def LOAD_byte_def LOAD_halfword_def bits_bits Let_def)

lemma hex_byte_of_nibbles:
  "hex_byte (nib_to_hex (drop_bit 4 (byte_at s a))) (nib_to_hex (byte_at s a)) = byte_at s a"
proof -
  have "hex_byte (nib_to_hex (drop_bit 4 b)) (nib_to_hex b) = bits 7 0 b" for b :: u32
    unfolding hex_byte_def hex_to_nib_nib_to_hex by (rule word32_eqI; simp add: vec_simps)
  then show ?thesis by (simp add: byte_at_bits)
qed

lemma ram_offset:
  assumes "unat mem + n \<le> 4096" and "i < n"
  shows "in_ram (mem + word_of_nat i)" and "unat (mem + word_of_nat i) = unat mem + i"
proof -
  show u: "unat (mem + word_of_nat i) = unat mem + i"
    using assms by (simp add: unat_word_ariths unat_of_nat)
  then show "in_ram (mem + word_of_nat i)"
    using assms by (simp add: in_ram_def word_less_nat_alt)
qed

lemma in_ram_unat: "in_ram a \<longleftrightarrow> unat a < 4096"
  by (simp add: in_ram_def word_less_nat_alt)

text \<open>Reading a block of RAM: two digits a byte, nothing else in the buffer and nothing in the
  system changes.\<close>

fun block_hex :: "soc \<Rightarrow> u32 \<Rightarrow> nat \<Rightarrow> u8 list" where
  "block_hex s a 0 = []"
| "block_hex s a (Suc n) =
     nib_to_hex (drop_bit 4 (byte_at s a)) # nib_to_hex (byte_at s a) # block_hex s (a + 1) n"

lemma ram_block_Suc:
  assumes "unat mem + Suc n \<le> 4096"
  shows "in_ram mem" and "n = 0 \<or> unat (mem + 1) + n \<le> 4096"
  using assms ram_offset(2) [OF assms, of 1] by (auto simp: in_ram_unat) (cases n; simp)

lemma mem_to_hex_loop_ram:
  "unat mem + n \<le> 4096 \<Longrightarrow>
   mem_to_hex_loop n s mem buf p = (put_chars buf p (block_hex s mem n), s)"
proof (induction n arbitrary: mem buf p)
  case (Suc n)
  from ram_block_Suc [OF Suc.prems] Suc.IH [of "mem + 1"] show ?case
    by (cases n) (auto simp: load_byte_ram)
qed simp

lemma length_block_hex [simp]: "length (block_hex s a n) = 2 * n"
  by (induction n arbitrary: a) simp_all

lemma block_hex_nth:
  "i < n \<Longrightarrow> block_hex s a n ! (2 * i) = nib_to_hex (drop_bit 4 (byte_at s (a + word_of_nat i)))"
  "i < n \<Longrightarrow> block_hex s a n ! Suc (2 * i) = nib_to_hex (byte_at s (a + word_of_nat i))"
proof -
  have "i < n \<Longrightarrow> block_hex s a n ! (2 * i) = nib_to_hex (drop_bit 4 (byte_at s (a + word_of_nat i))) \<and>
      block_hex s a n ! Suc (2 * i) = nib_to_hex (byte_at s (a + word_of_nat i))"
  proof (induction n arbitrary: a i)
    case (Suc n)
    then show ?case by (cases i) (simp_all add: add.assoc)
  qed simp
  then show "i < n \<Longrightarrow> block_hex s a n ! (2 * i) = nib_to_hex (drop_bit 4 (byte_at s (a + word_of_nat i)))"
    "i < n \<Longrightarrow> block_hex s a n ! Suc (2 * i) = nib_to_hex (byte_at s (a + word_of_nat i))" by blast+
qed

lemma nib_to_hex_nonzero [simp]: "nib_to_hex v \<noteq> 0"
  using is_hex_nib_to_hex [of v] is_hex_0 by metis

lemma block_hex_digits: "c \<in> set (block_hex s a n) \<Longrightarrow> is_hex c \<and> c \<noteq> 0"
  by (induction n arbitrary: a) auto

text \<open>Writing a block: every byte of the range takes the value of its two digits, every other
  byte of RAM keeps its own.\<close>

lemma hex_to_mem_loop_ram:
  "\<forall>k < 2 * n. is_hex (buf (p + k)) \<Longrightarrow> unat (mem + i) + n \<le> 4096 \<Longrightarrow>
   \<exists>s'. hex_to_mem_loop n buf p mem i s = (i + word_of_nat n, s') \<and>
     uart s' = uart s \<and> bkpt s' = bkpt s \<and> rom s' = rom s \<and>
     (\<forall>a. in_ram a \<longrightarrow> byte_at s' a =
        (if unat (mem + i) \<le> unat a \<and> unat a < unat (mem + i) + n
         then hex_byte (buf (p + 2 * (unat a - unat (mem + i)))) (buf (p + 2 * (unat a - unat (mem + i)) + 1))
         else byte_at s a))"
proof (induction n arbitrary: p i s)
  case (Suc n)
  let ?s1 = "store Byte s (mem + i) (ucast (ucast (push_bit 4 (hex_to_nib (buf p)) OR hex_to_nib (buf (p + 1))) :: u8))"
  have h: "is_hex (buf p)" "is_hex (buf (p + 1))"
    using Suc.prems(1) [rule_format, of 0] Suc.prems(1) [rule_format, of 1] by simp_all
  have m: "in_ram (mem + i)" using Suc.prems by (simp add: in_ram_unat)
  have step: "hex_to_mem_loop (Suc n) buf p mem i s = hex_to_mem_loop n buf (p + 2) mem (i + 1) ?s1"
    using h by (simp add: is_hex_sint Let_def)
  show ?case
  proof (cases "n = 0")
    case True
    with m h show ?thesis unfolding step
      by (auto simp: bus_simps byte_at_store_byte hex_byte_stored in_ram_unat word_unat_eq_iff)
  next
    case False
    have u: "unat (mem + (i + 1)) = unat (mem + i) + 1"
      using ram_offset(2) [of "mem + i" "Suc n" 1] Suc.prems False by (simp add: add.assoc)
    have "\<forall>k<2 * n. is_hex (buf (p + 2 + k))"
      using Suc.prems(1) by (metis add.assoc add_less_cancel_left mult_Suc_right)
    moreover have "unat (mem + (i + 1)) + n \<le> 4096" using Suc.prems u by simp
    ultimately obtain s' where s': "hex_to_mem_loop n buf (p + 2) mem (i + 1) ?s1 = (i + 1 + word_of_nat n, s')"
      "uart s' = uart ?s1" "bkpt s' = bkpt ?s1" "rom s' = rom ?s1"
      "\<forall>a. in_ram a \<longrightarrow> byte_at s' a =
        (if unat (mem + (i + 1)) \<le> unat a \<and> unat a < unat (mem + (i + 1)) + n
         then hex_byte (buf (p + 2 + 2 * (unat a - unat (mem + (i + 1))))) (buf (p + 2 + 2 * (unat a - unat (mem + (i + 1))) + 1))
         else byte_at ?s1 a)"
      using Suc.IH by blast
    show ?thesis unfolding step
    proof (intro exI conjI allI impI)
      show "hex_to_mem_loop n buf (p + 2) mem (i + 1) ?s1 = (i + word_of_nat (Suc n), s')"
        using s'(1) by (simp add: add.assoc add.commute add.left_commute)
      fix a assume a: "in_ram a"
      show "byte_at s' a =
        (if unat (mem + i) \<le> unat a \<and> unat a < unat (mem + i) + Suc n
         then hex_byte (buf (p + 2 * (unat a - unat (mem + i)))) (buf (p + 2 * (unat a - unat (mem + i)) + 1))
         else byte_at s a)"
      proof (cases "unat a = unat (mem + i)")
        case True
        then have "a = mem + i" by (simp add: word_unat_eq_iff)
        then show ?thesis using s'(5) a m u h by (simp add: byte_at_store_byte hex_byte_stored)
      next
        case False
        then have "a \<noteq> mem + i" by auto
        moreover have "\<exists>k. unat a = unat (mem + i) + Suc k" if "unat (mem + i) < unat a"
          using that by (metis add_Suc_right less_iff_Suc_add)
        ultimately show ?thesis using s'(5) a m u h False
          by (cases "unat (mem + i) < unat a") (auto simp: byte_at_store_byte)
      qed
    qed (use s' m in \<open>simp_all add: bus_simps\<close>)
  qed
qed auto

section \<open>What the conversions guarantee\<close>

theorem parse_hex_reads:
  assumes "chars_at buf p (ds @ [c])" and "list_all is_hex ds" and "\<not> is_hex c"
  shows "\<exists>v. parse_hex buf p = Some (v, p + length ds) \<and> unat v = hex_value ds mod 2 ^ 32"
  using parse_hex_digits [of buf p ds] assms by (auto simp: unat_of_nat)

lemma parse_hex_reads_witness:
  "\<exists>v. parse_hex ((\<lambda>_. 0)(0 := 50, 1 := 65, 2 := 102)) 0 = Some (v, 3) \<and> unat v = 0x2af"
  using parse_hex_reads [of "(\<lambda>_. 0)(0 := 50, 1 := 65, 2 := 102)" 0 "[50, 65, 102]" 0]
  by (simp add: is_hex_def hex_to_nib_def hex_value_def numeral_3_eq_3)

theorem hex_word_round_trip:
  "hex_le_to_u32 (u32_to_hex_le v buf p) p = v \<and>
   (\<forall>i. i < p \<or> p + 8 \<le> i \<longrightarrow> u32_to_hex_le v buf p i = buf i)"
  using u32_hex_roundtrip [of v buf p] by (simp add: u32_to_hex_le_def numeral_eq_Suc)

lemma hex_word_round_trip_witness:
  "hex_le_to_u32 (u32_to_hex_le 0xdeadbeef (\<lambda>_. 7) 2) 2 = 0xdeadbeef \<and> u32_to_hex_le 0xdeadbeef (\<lambda>_. 7) 2 10 = 7"
  using hex_word_round_trip [of "0xdeadbeef" "\<lambda>_. 7" 2] by simp

end
