(* ===== verification/Stub_State.thy ===== *)
theory Stub_State
  imports Soc_Bus
begin

text \<open>
  The state of the debug stub of sw/gdb_stub.c: the system it runs on, the register frame
  \<open>g_regs\<close> that crt0_stub.S fills and reloads (\<open>x0..x31\<close> then the pc, the RV32I layout of
  sw/gdb_stub.h), the table of software breakpoints, the packet buffer of the replies and the
  \<open>stepping\<close> flag. The stub's own variables live in a part of RAM that the user program and the
  debugger leave alone (docs/debug.md, 8.9), so they are fields of their own and not bytes of
  \<open>ram\<close>.
\<close>

definition NGDB_REGS :: nat where "NGDB_REGS = 33"
definition NBP :: nat where "NBP = 10"
definition NBP_STEP :: nat where "NBP_STEP = 2"

record bp =
  addr :: u32
  orig :: u32
  blen :: u8
  used :: bool

record stub =
  soc :: soc
  g_regs :: "nat \<Rightarrow> u32"
  bps :: "bp list"
  pkt_buf :: bytes_from
  stepping :: bool

end
