(* ===== verification/Sample_States.thy ===== *)
theory Sample_States
  imports Uart_Io Stub_State
begin

text \<open>
  One concrete board, at which the properties with hypotheses are applied. Its RAM holds four
  instructions at 0x100: a branch (\<open>beq x0, x0, 8\<close>), a 32-bit no-operation, a compressed
  no-operation in front of a 32-bit one that straddles two words, and a jump. The receiver is fed
  \<open>bs\<close>, two polls apart, and the transmitter stays busy for three polls after every byte.
\<close>

definition sample_ram :: "u32 \<Rightarrow> u32" where
  "sample_ram = (\<lambda>_. 0)(0x40 := 0x00000463, 0x41 := 0x00000013, 0x42 := 0x00130001, 0x43 := 0xA0010000)"

definition sample_uart :: "u8 list \<Rightarrow> uart" where
  "sample_uart bs = \<lparr>rx_valid = False, rx_data = 0, rx_queue = map (Pair 2) bs, tx_wait = 1, tx_time = 3, tx_log = []\<rparr>"

definition sample_bkpt :: hw_bkpt where
  "sample_bkpt = \<lparr>bp_addr = (\<lambda>_. 0)(1 := 0x108), bp_en = 2, bp_hit = 2, halt_req = False\<rparr>"

definition sample_soc :: "u8 list \<Rightarrow> soc" where
  "sample_soc bs = \<lparr>ram = sample_ram, rom = (\<lambda>_. 0), bkpt = sample_bkpt, uart = sample_uart bs\<rparr>"

text \<open>The stub with no breakpoint set, halted at 0x100.\<close>

definition free_bp :: bp where
  "free_bp = \<lparr>addr = 0, orig = 0, blen = 0, used = False\<rparr>"

definition sample_stub :: "u8 list \<Rightarrow> stub" where
  "sample_stub bs = \<lparr>soc = sample_soc bs, g_regs = (\<lambda>i. word_of_nat i)(32 := 0x100),
     bps = replicate NBP free_bp, pkt_buf = (\<lambda>_. 0), stepping = False\<rparr>"

lemma sample_stub_simps [simp]:
  "soc (sample_stub bs) = sample_soc bs" "bps (sample_stub bs) = replicate NBP free_bp"
  "stepping (sample_stub bs) = False" "used free_bp = False" "g_regs (sample_stub bs) 32 = 0x100"
  "uart (sample_soc bs) = sample_uart bs" "ram (sample_soc bs) = sample_ram"
  "bkpt (sample_soc bs) = sample_bkpt" "tx_log (sample_uart bs) = []"
  by (simp_all add: sample_stub_def sample_soc_def free_bp_def sample_uart_def)

lemma sample_channel [simp]: "uart_pending (sample_soc bs) = bs" "uart_sent (sample_soc bs) = []"
  by (simp_all add: uart_pending_def uart_sent_def sample_uart_def o_def)

end
