(* ===== verification/Rsp_Framing.thy ===== *)
theory Rsp_Framing
  imports Uart_Io Hex_Codec Sample_States
begin

text \<open>
  The RSP packet layer of sw/gdb_stub.c: \<open>get_packet\<close> and \<open>put_packet\<close> with their checksums,
  acknowledgements and retries, written over the platform's byte I/O and then used with the
  UART routines. The lemmas, proved once for any byte channel, say what is read and answered for
  every input (good frames, bad checksums, frames longer than the buffer, three failures in a
  row) and that a reply is sent again until it is acknowledged, at most three times.
\<close>

definition PKT_BUF_SIZE :: int where "PKT_BUF_SIZE = 280"

section \<open>Receiving\<close>

text \<open>\<open>do { c = getc(); } while (c != '$')\<close>.\<close>

partial_function (option) wait_dollar :: "('s \<Rightarrow> (u8 \<times> 's) option) \<Rightarrow> 's \<Rightarrow> 's option" where
  "wait_dollar getc s =
     do { (c, s1) \<leftarrow> getc s;
          if c \<noteq> 36 then wait_dollar getc s1 else Some s1 }"

text \<open>The payload loop: up to \<open>max - 1\<close> characters are stored and summed, the rest is read and
  dropped, \<open>#\<close> ends it.\<close>

partial_function (option) read_payload ::
  "('s \<Rightarrow> (u8 \<times> 's) option) \<Rightarrow> int \<Rightarrow> bytes_from \<Rightarrow> nat \<Rightarrow> u8 \<Rightarrow> 's \<Rightarrow>
   (bytes_from \<times> nat \<times> u8 \<times> 's) option" where
  "read_payload getc max_len buf len cksum s =
     do { (c, s1) \<leftarrow> getc s;
          if c = 35 then Some (buf, len, cksum, s1)
          else if int len < max_len - 1
               then read_payload getc max_len (buf(len := c)) (len + 1) (cksum + c) s1
               else read_payload getc max_len buf len cksum s1 }"

text \<open>The loop over \<open>tries\<close>; the result is the length, or \<open>-1\<close> when no try is left.\<close>

fun get_packet_tries ::
  "nat \<Rightarrow> ('s \<Rightarrow> (u8 \<times> 's) option) \<Rightarrow> (u8 \<Rightarrow> 's \<Rightarrow> 's option) \<Rightarrow> bytes_from \<Rightarrow> int \<Rightarrow> 's \<Rightarrow>
   (int \<times> bytes_from \<times> 's) option" where
  "get_packet_tries 0 getc putc buf max_len s = Some (- 1, buf, s)"
| "get_packet_tries (Suc tries) getc putc buf max_len s =
     do { s1 \<leftarrow> wait_dollar getc s;
          (buf1, len, cksum, s2) \<leftarrow> read_payload getc max_len buf 0 0 s1;
          let buf2 = buf1(len := 0);
          (h, s3) \<leftarrow> getc s2;
          (l, s4) \<leftarrow> getc s3;
          let hi = hex_to_nib h;
          let lo = hex_to_nib l;
          let rx_ck = (ucast (push_bit 4 hi OR lo) :: u8);
          if rx_ck = cksum
          then do { s5 \<leftarrow> putc 43 s4; Some (int len, buf2, s5) }
          else do { s5 \<leftarrow> putc 45 s4; get_packet_tries tries getc putc buf2 max_len s5 } }"

definition get_packet_on ::
  "('s \<Rightarrow> (u8 \<times> 's) option) \<Rightarrow> (u8 \<Rightarrow> 's \<Rightarrow> 's option) \<Rightarrow> bytes_from \<Rightarrow> int \<Rightarrow> 's \<Rightarrow>
   (int \<times> bytes_from \<times> 's) option" where
  "get_packet_on getc putc buf max_len s = get_packet_tries 3 getc putc buf max_len s"

definition get_packet :: "bytes_from \<Rightarrow> int \<Rightarrow> soc \<Rightarrow> (int \<times> bytes_from \<times> soc) option" where
  "get_packet = get_packet_on gdb_uart_getc gdb_uart_putc"

section \<open>Sending\<close>

partial_function (option) send_chars ::
  "(u8 \<Rightarrow> 's \<Rightarrow> 's option) \<Rightarrow> bytes_from \<Rightarrow> nat \<Rightarrow> u8 \<Rightarrow> 's \<Rightarrow> (u8 \<times> 's) option" where
  "send_chars putc data p cksum s =
     (if data p = 0 then Some (cksum, s)
      else do { s1 \<leftarrow> putc (data p) s;
                send_chars putc data (p + 1) (cksum + data p) s1 })"

fun put_packet_tries ::
  "nat \<Rightarrow> ('s \<Rightarrow> (u8 \<times> 's) option) \<Rightarrow> (u8 \<Rightarrow> 's \<Rightarrow> 's option) \<Rightarrow> bytes_from \<Rightarrow> 's \<Rightarrow> 's option" where
  "put_packet_tries 0 getc putc data s = Some s"
| "put_packet_tries (Suc retry) getc putc data s =
     do { s1 \<leftarrow> putc 36 s;
          (cksum, s2) \<leftarrow> send_chars putc data 0 0 s1;
          s3 \<leftarrow> putc 35 s2;
          s4 \<leftarrow> putc (nib_to_hex (ucast (drop_bit 4 cksum))) s3;
          s5 \<leftarrow> putc (nib_to_hex (ucast cksum)) s4;
          (c, s6) \<leftarrow> getc s5;
          if c = 43 then Some s6 else put_packet_tries retry getc putc data s6 }"

definition put_packet_on ::
  "('s \<Rightarrow> (u8 \<times> 's) option) \<Rightarrow> (u8 \<Rightarrow> 's \<Rightarrow> 's option) \<Rightarrow> bytes_from \<Rightarrow> 's \<Rightarrow> 's option" where
  "put_packet_on getc putc data s = put_packet_tries 3 getc putc data s"

definition put_packet :: "bytes_from \<Rightarrow> soc \<Rightarrow> soc option" where
  "put_packet = put_packet_on gdb_uart_getc gdb_uart_putc"

text \<open>A string literal, with its terminating NUL.\<close>

definition lit :: "string \<Rightarrow> bytes_from" where
  "lit cs i = (if i < length cs then of_char (cs ! i) else 0)"

section \<open>The frame format\<close>

definition rsp_frame :: "u8 list \<Rightarrow> u8 list" where
  "rsp_frame cs = 36 # cs @
     [35, nib_to_hex (ucast (drop_bit 4 (sum_list cs))), nib_to_hex (ucast (sum_list cs))]"

text \<open>The two checksum characters read as the code reads them.\<close>

definition rx_cksum :: "u8 \<Rightarrow> u8 \<Rightarrow> u8" where
  "rx_cksum h l = ucast (push_bit 4 (hex_to_nib h) OR hex_to_nib l)"

lemma rx_cksum_frame:
  "rx_cksum (nib_to_hex (ucast (drop_bit 4 (c::u8)))) (nib_to_hex (ucast c)) = c"
  unfolding rx_cksum_def hex_to_nib_nib_to_hex by (rule word8_eqI; simp add: vec_simps)

text \<open>What the payload loop keeps of the characters that arrive.\<close>

definition kept :: "int \<Rightarrow> nat \<Rightarrow> u8 list \<Rightarrow> u8 list" where
  "kept max_len len cs = take (nat (max_len - 1) - len) cs"

definition c_string :: "bytes_from \<Rightarrow> u8 list \<Rightarrow> bool" where
  "c_string data cs \<longleftrightarrow> chars_at data 0 cs \<and> data (length cs) = 0 \<and> 0 \<notin> set cs"

section \<open>Client lemmas, for any byte channel\<close>

context byte_channel
begin

text \<open>\<open>step s s' bs out\<close>: from \<open>s\<close> the code went to \<open>s'\<close>, where \<open>bs\<close> is left to read, having sent
  \<open>out\<close> and touched nothing else.\<close>

definition step :: "'s \<Rightarrow> 's \<Rightarrow> u8 list \<Rightarrow> u8 list \<Rightarrow> bool" where
  "step s s' bs out \<longleftrightarrow> pending s' = bs \<and> sent s' = sent s @ out \<and> others s' = others s"

lemma step_trans [trans]:
  "step s s1 bs out \<Longrightarrow> step s1 s2 bs' out' \<Longrightarrow> step s s2 bs' (out @ out')"
  by (simp add: step_def)

lemma step_pending: "step s s' bs out \<Longrightarrow> pending s' = bs"
  by (simp add: step_def)

lemma getc_step: "pending s = b # bs \<Longrightarrow> \<exists>s'. getc s = Some (b, s') \<and> step s s' bs []"
  using getc_Cons by (fastforce simp: step_def)

lemma putc_step: "\<exists>s'. putc c s = Some s' \<and> step s s' (pending s) [c]"
  using putc_total by (fastforce simp: step_def)

lemma wait_dollar_step:
  "pending s = noise @ 36 # bs \<Longrightarrow> 36 \<notin> set noise \<Longrightarrow>
   \<exists>s'. wait_dollar getc s = Some s' \<and> step s s' bs []"
proof (induction noise arbitrary: s)
  case Nil
  then obtain s' where "getc s = Some (36, s')" "step s s' bs []"
    using getc_step [of s 36 bs] by auto
  then show ?case by (subst wait_dollar.simps) simp
next
  case (Cons b noise)
  then obtain s1 where s1: "getc s = Some (b, s1)" "step s s1 (noise @ 36 # bs) []"
    using getc_step [of s b "noise @ 36 # bs"] by auto
  with Cons obtain s' where "wait_dollar getc s1 = Some s'" "step s1 s' bs []"
    using step_pending [OF s1(2)] by auto
  with s1 Cons.prems show ?case
    by (subst wait_dollar.simps) (auto dest: step_trans)
qed

lemma read_payload_step:
  "pending s = cs @ 35 # bs \<Longrightarrow> 35 \<notin> set cs \<Longrightarrow>
   \<exists>s'. read_payload getc m buf len ck s =
        Some (put_chars buf len (kept m len cs), len + length (kept m len cs),
              ck + sum_list (kept m len cs), s') \<and> step s s' bs []"
proof (induction cs arbitrary: s buf len ck)
  case Nil
  then obtain s' where "getc s = Some (35, s')" "step s s' bs []"
    using getc_step [of s 35 bs] by auto
  then show ?case by (subst read_payload.simps) (simp add: kept_def)
next
  case (Cons c cs)
  then obtain s1 where s1: "getc s = Some (c, s1)" "step s s1 (cs @ 35 # bs) []"
    using getc_step [of s c "cs @ 35 # bs"] by auto
  note p1 = step_pending [OF s1(2)]
  show ?case
  proof (cases "int len < m - 1")
    case True
    then have k: "kept m len (c # cs) = c # kept m (len + 1) cs"
      by (simp add: kept_def take_Cons' zless_nat_eq_int_zless)
    have "35 \<notin> set cs" using Cons.prems by simp
    from Cons.IH [OF p1 this, of "buf(len := c)" "len + 1" "ck + c"] obtain s' where
      "read_payload getc m (buf(len := c)) (len + 1) (ck + c) s1 =
        Some (put_chars (buf(len := c)) (len + 1) (kept m (len + 1) cs),
          len + 1 + length (kept m (len + 1) cs), ck + c + sum_list (kept m (len + 1) cs), s')"
      "step s1 s' bs []" by blast
    with s1 True Cons.prems k show ?thesis
      by (subst read_payload.simps) (auto simp: add.assoc dest: step_trans)
  next
    case False
    then have k: "kept m len (c # cs) = []" "kept m len cs = []"
      by (simp_all add: kept_def nat_le_iff)
    from Cons.IH [of s1 buf len ck] p1 Cons.prems obtain s' where
      "read_payload getc m buf len ck s1 = Some (buf, len, ck, s')" "step s1 s' bs []"
      by (auto simp: k)
    with s1 False Cons.prems k show ?thesis
      by (subst read_payload.simps) (auto dest: step_trans)
  qed
qed

text \<open>One try of \<open>get_packet\<close> on one frame: acknowledged when the two checksum characters give
  the sum of what was stored, otherwise refused and tried again.\<close>

lemma get_packet_try:
  fixes m :: int and buf :: bytes_from
  assumes p: "pending s = noise @ 36 # cs @ 35 # h # l # bs" and n: "36 \<notin> set noise" "35 \<notin> set cs"
  defines "k \<equiv> kept m 0 cs"
  defines "buf' \<equiv> (put_chars buf 0 k)(length k := 0)"
  shows "rx_cksum h l = sum_list k \<Longrightarrow>
      \<exists>s'. get_packet_tries (Suc t) getc putc buf m s = Some (int (length k), buf', s') \<and>
           step s s' bs [43]"
    and "rx_cksum h l \<noteq> sum_list k \<Longrightarrow>
      \<exists>s'. get_packet_tries (Suc t) getc putc buf m s = get_packet_tries t getc putc buf' m s' \<and>
           step s s' bs [45]"
proof -
  obtain s1 where s1: "wait_dollar getc s = Some s1" "step s s1 (cs @ 35 # h # l # bs) []"
    using wait_dollar_step [OF p n(1)] by blast
  obtain s2 where s2: "read_payload getc m buf 0 0 s1 = Some (put_chars buf 0 k, length k, sum_list k, s2)"
    "step s1 s2 (h # l # bs) []"
    using read_payload_step [OF step_pending [OF s1(2)] n(2), of m buf 0 0] by (auto simp: k_def)
  obtain s3 where s3: "getc s2 = Some (h, s3)" "step s2 s3 (l # bs) []"
    using getc_step [OF step_pending [OF s2(2)]] by blast
  obtain s4 where s4: "getc s3 = Some (l, s4)" "step s3 s4 bs []"
    using getc_step [OF step_pending [OF s3(2)]] by blast
  have s04: "step s s4 bs []"
    using step_trans [OF step_trans [OF step_trans [OF s1(2) s2(2)] s3(2)] s4(2)] by simp
  have run: "get_packet_tries (Suc t) getc putc buf m s =
      (if rx_cksum h l = sum_list k
       then do { s5 \<leftarrow> putc 43 s4; Some (int (length k), buf', s5) }
       else do { s5 \<leftarrow> putc 45 s4; get_packet_tries t getc putc buf' m s5 })"
    using s1 s2 s3 s4 by (simp add: rx_cksum_def buf'_def Let_def)
  obtain s5 where s5: "putc 43 s4 = Some s5" "step s4 s5 bs [43]"
    using putc_step [of 43 s4] step_pending [OF s04] by auto
  obtain s6 where s6: "putc 45 s4 = Some s6" "step s4 s6 bs [45]"
    using putc_step [of 45 s4] step_pending [OF s04] by auto
  show "rx_cksum h l = sum_list k \<Longrightarrow>
      \<exists>s'. get_packet_tries (Suc t) getc putc buf m s = Some (int (length k), buf', s') \<and>
           step s s' bs [43]"
    using step_trans [OF s04 s5(2)] s5(1) run by auto
  show "rx_cksum h l \<noteq> sum_list k \<Longrightarrow>
      \<exists>s'. get_packet_tries (Suc t) getc putc buf m s = get_packet_tries t getc putc buf' m s' \<and>
           step s s' bs [45]"
    using step_trans [OF s04 s6(2)] s6(1) run by auto
qed

lemma get_packet_frame:
  assumes "pending s = noise @ rsp_frame cs @ bs" and "36 \<notin> set noise" "35 \<notin> set cs"
    and "int (length cs) < m"
  shows "\<exists>s'. get_packet_on getc putc buf m s =
       Some (int (length cs), (put_chars buf 0 cs)(length cs := 0), s') \<and> step s s' bs [43]"
proof -
  have k: "kept m 0 cs = cs" using assms(4) by (simp add: kept_def)
  have p: "pending s = noise @ 36 # cs @ 35 # nib_to_hex (ucast (drop_bit 4 (sum_list cs))) #
      nib_to_hex (ucast (sum_list cs)) # bs"
    using assms(1) by (simp add: rsp_frame_def)
  show ?thesis
    using get_packet_try(1) [OF p assms(2,3), where m = m and buf = buf and t = 2] rx_cksum_frame [of "sum_list cs"]
    by (simp add: get_packet_on_def k numeral_3_eq_3 numeral_2_eq_2)
qed

lemma send_chars_step:
  "chars_at data p cs \<Longrightarrow> data (p + length cs) = 0 \<Longrightarrow> 0 \<notin> set cs \<Longrightarrow>
   \<exists>s'. send_chars putc data p ck s = Some (ck + sum_list cs, s') \<and> step s s' (pending s) cs"
proof (induction cs arbitrary: p ck s)
  case Nil
  then show ?case by (subst send_chars.simps) (simp add: step_def)
next
  case (Cons c cs)
  obtain s1 where s1: "putc c s = Some s1" "step s s1 (pending s) [c]"
    using putc_step by blast
  obtain s' where "send_chars putc data (p + 1) (ck + c) s1 = Some (ck + c + sum_list cs, s')"
    "step s1 s' (pending s1) cs"
    using Cons.IH [of "p + 1" "ck + c" s1] Cons.prems by auto
  with s1 Cons.prems step_pending [OF s1(2)] show ?case
    by (subst send_chars.simps) (auto simp: add.assoc dest: step_trans)
qed

lemma put_packet_try:
  assumes d: "c_string data cs" and p: "pending s = a # bs"
  shows "\<exists>s'. step s s' bs (rsp_frame cs) \<and>
     put_packet_tries (Suc t) getc putc data s =
       (if a = 43 then Some s' else put_packet_tries t getc putc data s')"
proof -
  obtain s1 where s1: "putc 36 s = Some s1" "step s s1 (a # bs) [36]"
    using putc_step [of 36 s] p by auto
  obtain s2 where s2: "send_chars putc data 0 0 s1 = Some (sum_list cs, s2)" "step s1 s2 (a # bs) cs"
    using send_chars_step [of data 0 cs 0 s1] d step_pending [OF s1(2)] by (auto simp: c_string_def)
  obtain s3 where s3: "putc 35 s2 = Some s3" "step s2 s3 (a # bs) [35]"
    using putc_step [of 35 s2] step_pending [OF s2(2)] by auto
  let ?h = "nib_to_hex (ucast (drop_bit 4 (sum_list cs)))" and ?l = "nib_to_hex (ucast (sum_list cs))"
  obtain s4 where s4: "putc ?h s3 = Some s4" "step s3 s4 (a # bs) [?h]"
    using putc_step [of ?h s3] step_pending [OF s3(2)] by auto
  obtain s5 where s5: "putc ?l s4 = Some s5" "step s4 s5 (a # bs) [?l]"
    using putc_step [of ?l s4] step_pending [OF s4(2)] by auto
  obtain s6 where s6: "getc s5 = Some (a, s6)" "step s5 s6 bs []"
    using getc_step [OF step_pending [OF s5(2)]] by blast
  have "step s s6 bs (rsp_frame cs)"
    using step_trans [OF step_trans [OF step_trans [OF step_trans [OF step_trans [OF
      s1(2) s2(2)] s3(2)] s4(2)] s5(2)] s6(2)] by (simp add: rsp_frame_def)
  moreover have "put_packet_tries (Suc t) getc putc data s =
      (if a = 43 then Some s6 else put_packet_tries t getc putc data s6)"
    using s1 s2 s3 s4 s5 s6 by simp
  ultimately show ?thesis by blast
qed

text \<open>A reply goes out once per answer until the host answers with \<open>+\<close>.\<close>

lemma put_packet_tries_acked:
  assumes d: "c_string data cs"
  shows "pending s = naks @ 43 # bs \<Longrightarrow> 43 \<notin> set naks \<Longrightarrow> length naks < t \<Longrightarrow>
   \<exists>s'. put_packet_tries t getc putc data s = Some s' \<and>
        step s s' bs (concat (replicate (Suc (length naks)) (rsp_frame cs)))"
proof (induction naks arbitrary: s t)
  case Nil
  then obtain t' where "t = Suc t'" by (cases t) auto
  with Nil put_packet_try [OF d, of s 43 bs t'] show ?case by auto
next
  case (Cons a naks)
  then obtain t' where t: "t = Suc t'" by (cases t) auto
  from Cons.prems put_packet_try [OF d, of s a "naks @ 43 # bs" t'] obtain s1 where
    s1: "step s s1 (naks @ 43 # bs) (rsp_frame cs)"
      "put_packet_tries t getc putc data s = put_packet_tries t' getc putc data s1"
    by (auto simp: t)
  from Cons.IH [of s1 t'] Cons.prems step_pending [OF s1(1)] obtain s' where
    "put_packet_tries t' getc putc data s1 = Some s'"
    "step s1 s' bs (concat (replicate (Suc (length naks)) (rsp_frame cs)))" by (auto simp: t)
  with s1 step_trans show ?case by (fastforce simp del: concat_replicate_trivial)
qed

lemma put_packet_tries_gives_up:
  assumes d: "c_string data cs"
  shows "pending s = naks @ bs \<Longrightarrow> 43 \<notin> set naks \<Longrightarrow> length naks = t \<Longrightarrow>
   \<exists>s'. put_packet_tries t getc putc data s = Some s' \<and>
        step s s' bs (concat (replicate t (rsp_frame cs)))"
proof (induction naks arbitrary: s t)
  case Nil
  then show ?case by (auto simp: step_def)
next
  case (Cons a naks)
  then obtain t' where t: "t = Suc t'" by (cases t) auto
  from Cons.prems put_packet_try [OF d, of s a "naks @ bs" t'] obtain s1 where
    s1: "step s s1 (naks @ bs) (rsp_frame cs)"
      "put_packet_tries t getc putc data s = put_packet_tries t' getc putc data s1"
    by (auto simp: t)
  from Cons.IH [of s1 t'] Cons.prems step_pending [OF s1(1)] obtain s' where
    "put_packet_tries t' getc putc data s1 = Some s'"
    "step s1 s' bs (concat (replicate t' (rsp_frame cs)))" by (auto simp: t)
  with s1 step_trans show ?case by (fastforce simp: t)
qed

end

section \<open>Bounds, refusals and retries\<close>

lemma read_payload_bound:
  assumes "read_payload getc m buf len ck s = Some (buf', len', ck', s')" "int len < m"
  shows "int len' < m \<and> (\<forall>j. m \<le> int j \<longrightarrow> buf' j = buf j)"
proof -
  let ?P = "\<lambda>getc m buf len ck s r.
    int len < m \<longrightarrow> int (fst (snd r)) < m \<and> (\<forall>j. m \<le> int j \<longrightarrow> fst r j = (buf :: bytes_from) j)"
  have "?P getc m buf len ck s r" if "read_payload getc m buf len ck s = Some r" for r
  proof (rule read_payload.raw_induct [where P = ?P, OF _ that])
    fix g getc m buf len ck s r
    assume IH: "\<And>getc m buf len ck s r. g getc m buf len ck s = Some r \<Longrightarrow> ?P getc m buf len ck s r"
      and eq: "do { (c, s1) \<leftarrow> getc s;
          if c = 35 then Some (buf, len, ck, s1)
          else if int len < m - 1 then g getc m (buf(len := c)) (len + 1) (ck + c) s1
          else g getc m buf len ck s1 } = Some r"
    from eq obtain c s1 where "getc s = Some (c, s1)" and
      "(if c = 35 then Some (buf, len, ck, s1)
        else if int len < m - 1 then g getc m (buf(len := c)) (len + 1) (ck + c) s1
        else g getc m buf len ck s1) = Some r"
      by (auto simp: bind_eq_Some_conv)
    then show "?P getc m buf len ck s r"
      using IH [of getc m "buf(len := c)" "len + 1" "ck + c" s1 r] IH [of getc m buf len ck s1 r]
      by (auto split: if_splits)
  qed
  from this [OF assms(1)] assms(2) show ?thesis by simp
qed

lemma get_packet_tries_bound:
  "get_packet_tries t getc putc buf m s = Some (n, buf', s') \<Longrightarrow> 0 < m \<Longrightarrow>
   - 1 \<le> n \<and> n < m \<and> (\<forall>j. m \<le> int j \<longrightarrow> buf' j = buf j) \<and> (0 \<le> n \<longrightarrow> buf' (nat n) = 0)"
proof (induction t arbitrary: buf s)
  case (Suc t)
  from Suc.prems(1) obtain s1 buf1 len ck s2 h s3 l s4 s5 where
    p: "read_payload getc m buf 0 0 s1 = Some (buf1, len, ck, s2)" and
    r: "n = int len \<and> buf' = buf1(len := 0) \<or>
        get_packet_tries t getc putc (buf1(len := 0)) m s5 = Some (n, buf', s')"
    by (auto simp: bind_eq_Some_conv Let_def split: if_splits) blast
  from read_payload_bound [OF p] Suc.prems(2)
  have b: "int len < m" "\<forall>j. m \<le> int j \<longrightarrow> (buf1(len := 0)) j = buf j" by auto
  from r show ?case
  proof
    assume "n = int len \<and> buf' = buf1(len := 0)"
    with b show ?thesis by auto
  next
    assume "get_packet_tries t getc putc (buf1(len := 0)) m s5 = Some (n, buf', s')"
    from Suc.IH [OF this Suc.prems(2)] b(2) show ?thesis by auto
  qed
qed auto

text \<open>Frames that arrive damaged.\<close>

definition raw_frame :: "u8 list \<Rightarrow> u8 \<Rightarrow> u8 \<Rightarrow> u8 list" where
  "raw_frame cs h l = 36 # cs @ [35, h, l]"

definition refused :: "int \<Rightarrow> u8 list \<times> u8 \<times> u8 \<Rightarrow> bool" where
  "refused m = (\<lambda>(cs, h, l). 35 \<notin> set cs \<and> rx_cksum h l \<noteq> sum_list (kept m 0 cs))"

definition raw_frames :: "(u8 list \<times> u8 \<times> u8) list \<Rightarrow> u8 list" where
  "raw_frames fs = concat (map (\<lambda>(cs, h, l). raw_frame cs h l) fs)"

context byte_channel
begin

lemma get_packet_refused:
  "pending s = raw_frames fs @ bs \<Longrightarrow> list_all (refused m) fs \<Longrightarrow> length fs \<le> t \<Longrightarrow>
   \<exists>s' buf'. get_packet_tries t getc putc buf m s = get_packet_tries (t - length fs) getc putc buf' m s' \<and>
     step s s' bs (replicate (length fs) 45)"
proof (induction fs arbitrary: s t buf)
  case Nil
  then show ?case by (auto simp: raw_frames_def step_def)
next
  case (Cons f fs)
  obtain cs h l where f: "f = (cs, h, l)" by (cases f)
  obtain t' where t: "t = Suc t'" using Cons.prems(3) by (cases t) auto
  have p: "pending s = [] @ 36 # cs @ 35 # h # l # raw_frames fs @ bs"
    using Cons.prems(1) by (simp add: raw_frames_def f raw_frame_def)
  have "rx_cksum h l \<noteq> sum_list (kept m 0 cs)" "35 \<notin> set cs"
    using Cons.prems(2) by (simp_all add: refused_def f)
  with get_packet_try(2) [OF p, where m = m and buf = buf and t = t'] obtain s1 buf1 where s1:
    "get_packet_tries t getc putc buf m s = get_packet_tries t' getc putc buf1 m s1"
    "step s s1 (raw_frames fs @ bs) [45]" unfolding t by auto
  from Cons.IH [OF step_pending [OF s1(2)], of t' buf1] Cons.prems(2,3) t obtain s' buf' where s':
    "get_packet_tries t' getc putc buf1 m s1 = get_packet_tries (t' - length fs) getc putc buf' m s'"
    "step s1 s' bs (replicate (length fs) 45)" by auto
  with s1 step_trans [OF s1(2) s'(2)] show ?case by (auto simp: t)
qed

lemma get_packet_after_refused:
  assumes p: "pending s = raw_frames fs @ rsp_frame cs @ bs" and r: "list_all (refused m) fs"
    and f: "length fs < 3" and c: "35 \<notin> set cs" "int (length cs) < m"
  shows "\<exists>s' buf'. get_packet_on getc putc buf m s = Some (int (length cs), (put_chars buf' 0 cs)(length cs := 0), s') \<and>
    step s s' bs (replicate (length fs) 45 @ [43])"
proof -
  obtain s1 buf1 where s1: "get_packet_tries 3 getc putc buf m s =
      get_packet_tries (3 - length fs) getc putc buf1 m s1"
    "step s s1 (rsp_frame cs @ bs) (replicate (length fs) 45)"
    using get_packet_refused [OF p r, of 3 buf] f by auto
  obtain t where t: "3 - length fs = Suc t" using f by (cases "3 - length fs") auto
  have k: "kept m 0 cs = cs" using c(2) by (simp add: kept_def)
  have q: "pending s1 = [] @ 36 # cs @ 35 # nib_to_hex (ucast (drop_bit 4 (sum_list cs))) #
      nib_to_hex (ucast (sum_list cs)) # bs"
    using step_pending [OF s1(2)] by (simp add: rsp_frame_def)
  from get_packet_try(1) [OF q _ c(1), where m = m and buf = buf1 and t = t] rx_cksum_frame [of "sum_list cs"] k
  obtain s' where "get_packet_tries (Suc t) getc putc buf1 m s1 =
      Some (int (length cs), (put_chars buf1 0 cs)(length cs := 0), s')" "step s1 s' bs [43]" by auto
  with s1 t step_trans [OF s1(2)] show ?thesis by (fastforce simp: get_packet_on_def)
qed

lemma get_packet_all_refused:
  assumes p: "pending s = raw_frames fs @ bs" and r: "list_all (refused m) fs" and f: "length fs = 3"
  shows "\<exists>s' buf'. get_packet_on getc putc buf m s = Some (- 1, buf', s') \<and> step s s' bs [45, 45, 45]"
  using get_packet_refused [OF p r, of 3 buf] f by (auto simp: get_packet_on_def numeral_3_eq_3)

end

section \<open>What the framing guarantees on the board\<close>

lemma uart_step:
  "uart_channel.step s s' bs out \<longleftrightarrow>
   uart_pending s' = bs \<and> uart_sent s' = uart_sent s @ out \<and> uart_others s' = uart_others s"
  by (rule uart_channel.step_def)

lemmas on_uart = get_packet_def put_packet_def uart_step

theorem gdb_uart_getc_polls:
  "case uart_pending s of
     [] \<Rightarrow> gdb_uart_getc s = None
   | b # bs \<Rightarrow> \<exists>s'. gdb_uart_getc s = Some (b, s') \<and> uart_pending s' = bs \<and>
       uart_sent s' = uart_sent s \<and> uart_others s' = uart_others s"
  by (simp add: getc_returns getc_blocks split: list.split)

theorem gdb_uart_putc_polls:
  "\<exists>s'. gdb_uart_putc c s = Some s' \<and> uart_sent s' = uart_sent s @ [c] \<and>
     uart_pending s' = uart_pending s \<and> uart_others s' = uart_others s"
  using putc_returns [of c s] by blast

lemma c_string_put: "0 \<notin> set cs \<Longrightarrow> c_string ((put_chars buf 0 cs)(length cs := 0)) cs"
  using put_chars_at [of buf 0 cs] by (auto simp: c_string_def chars_at_def)

text \<open>A frame with payload \<open>?\<close> and a checksum that does not belong to it.\<close>

definition bad_frame :: "u8 list \<times> u8 \<times> u8" where
  "bad_frame = ([63], 51, 48)"

lemma bad_refused: "1 < m \<Longrightarrow> refused m bad_frame"
  by (auto simp: bad_frame_def refused_def kept_def rx_cksum_def hex_to_nib_def)

text \<open>C28: get_packet recovers from bad frames: after up to two frames whose checksum does not agree,
  each answered by a NAK, it accepts the correct frame that follows, returns its length and
  NUL-terminated payload and acknowledges it, consuming exactly these bytes.\<close>

theorem get_packet_accepts:
  assumes "uart_pending s = raw_frames fs @ rsp_frame cs @ bs"
    and "list_all (refused m) fs" and "length fs < 3" and "35 \<notin> set cs" and "int (length cs) < m"
  shows "\<exists>s' buf'. get_packet buf m s = Some (int (length cs), (put_chars buf' 0 cs)(length cs := 0), s') \<and>
    uart_pending s' = bs \<and> uart_sent s' = uart_sent s @ replicate (length fs) 45 @ [43] \<and>
    uart_others s' = uart_others s"
  using uart_channel.get_packet_after_refused [OF assms, of buf] by (simp add: on_uart)

lemma get_packet_accepts_witness:
  "\<exists>s' buf'. get_packet (\<lambda>_. 0) 280 (sample_soc (raw_frames [bad_frame] @ rsp_frame [63])) =
      Some (1, (put_chars buf' 0 [63])(1 := 0), s') \<and> uart_sent s' = [45, 43]"
  using get_packet_accepts [of "sample_soc (raw_frames [bad_frame] @ rsp_frame [63])" "[bad_frame]" "[63]" "[]" 280 "\<lambda>_. 0"]
  by (force simp: bad_refused)

theorem get_packet_resynchronises:
  assumes "uart_pending s = noise @ rsp_frame cs @ bs" and "36 \<notin> set noise" and "35 \<notin> set cs"
    and "int (length cs) < m"
  shows "\<exists>s'. get_packet buf m s = Some (int (length cs), (put_chars buf 0 cs)(length cs := 0), s') \<and>
    uart_pending s' = bs \<and> uart_sent s' = uart_sent s @ [43] \<and> uart_others s' = uart_others s"
  using uart_channel.get_packet_frame [OF assms, of buf] by (simp add: on_uart)

lemma get_packet_resynchronises_witness:
  "\<exists>s'. get_packet (\<lambda>_. 0) 280 (sample_soc ([43, 3] @ rsp_frame [103])) =
     Some (1, (\<lambda>_. 0)(0 := 103), s') \<and> uart_sent s' = [43]"
  using get_packet_resynchronises [of "sample_soc ([43, 3] @ rsp_frame [103])" "[43, 3]" "[103]" "[]" 280 "\<lambda>_. 0"]
  by (force simp: fun_eq_iff)

theorem get_packet_gives_up:
  assumes "uart_pending s = raw_frames fs @ bs" and "list_all (refused m) fs" and "length fs = 3"
  shows "\<exists>s' buf'. get_packet buf m s = Some (- 1, buf', s') \<and>
    uart_pending s' = bs \<and> uart_sent s' = uart_sent s @ [45, 45, 45] \<and> uart_others s' = uart_others s"
  using uart_channel.get_packet_all_refused [OF assms, of buf] by (simp add: on_uart)

lemma get_packet_gives_up_witness:
  "\<exists>s' buf'. get_packet (\<lambda>_. 0) 280 (sample_soc (raw_frames [bad_frame, bad_frame, bad_frame])) = Some (- 1, buf', s') \<and>
     uart_sent s' = [45, 45, 45]"
  using get_packet_gives_up [of "sample_soc (raw_frames [bad_frame, bad_frame, bad_frame])" "[bad_frame, bad_frame, bad_frame]" "[]" 280 "\<lambda>_. 0"]
  by (force simp: bad_refused)

text \<open>A correct frame that does not fit is cut, so its checksum no longer agrees.\<close>

lemma sum_take_drop: "sum_list (take k cs) = (sum_list cs :: u8) \<longleftrightarrow> sum_list (drop k cs) = 0"
proof -
  have "sum_list cs = sum_list (take k cs) + sum_list (drop k cs)"
    by (metis append_take_drop_id sum_list_append)
  then show ?thesis by simp
qed

text \<open>C29: A correct frame with 280 payload bytes or more is cut to the buffer, the cut bytes are left
  out of the checksum, so it is refused however often it is sent, unless those bytes sum to
  zero; the announced packet size of 0x200 bytes is more than the stub can receive.\<close>

theorem overlong_frame_refused:
  assumes "uart_pending s = rsp_frame cs @ rsp_frame cs @ rsp_frame cs @ bs" and "35 \<notin> set cs"
    and "280 \<le> length cs" and "sum_list (drop 279 cs) \<noteq> 0"
  shows "\<exists>s' buf'. get_packet buf PKT_BUF_SIZE s = Some (- 1, buf', s') \<and>
    uart_pending s' = bs \<and> uart_sent s' = uart_sent s @ [45, 45, 45]"
proof -
  let ?ck = "sum_list cs"
  let ?f = "(cs, nib_to_hex (ucast (drop_bit 4 ?ck)), nib_to_hex (ucast ?ck))"
  have "refused PKT_BUF_SIZE ?f"
    using assms(2,4) sum_take_drop [of 279 cs]
    by (auto simp: refused_def kept_def PKT_BUF_SIZE_def rx_cksum_frame)
  moreover have "raw_frames [?f, ?f, ?f] = rsp_frame cs @ rsp_frame cs @ rsp_frame cs"
    by (simp add: raw_frames_def raw_frame_def rsp_frame_def)
  ultimately show ?thesis
    using uart_channel.get_packet_all_refused [of s "[?f, ?f, ?f]" bs PKT_BUF_SIZE buf] assms(1)
    by (fastforce simp: on_uart)
qed

lemma overlong_frame_refused_witness:
  "\<exists>s' buf'. get_packet (\<lambda>_. 0) PKT_BUF_SIZE
     (sample_soc (let f = rsp_frame (replicate 280 77) in f @ f @ f)) = Some (- 1, buf', s') \<and>
     uart_sent s' = [45, 45, 45]"
  using overlong_frame_refused [of "sample_soc (let f = rsp_frame (replicate 280 77) in f @ f @ f)" "replicate 280 77" "[]" "\<lambda>_. 0"]
  by (force simp: Let_def)

text \<open>C30: Whatever is received, get_packet returns a length from -1 to max - 1, terminates the
  payload inside the buffer and writes nothing at or beyond index max.\<close>

theorem get_packet_bounds:
  assumes "get_packet buf m s = Some (n, buf', s')" and "0 < m"
  shows "- 1 \<le> n \<and> n < m \<and> (\<forall>j. m \<le> int j \<longrightarrow> buf' j = buf j) \<and> (0 \<le> n \<longrightarrow> buf' (nat n) = 0)"
  using get_packet_tries_bound [OF assms(1) [unfolded get_packet_def get_packet_on_def] assms(2)] .

lemma get_packet_bounds_witness:
  "\<exists>n buf' s'. get_packet (\<lambda>_. 7) 4 (sample_soc (raw_frames [bad_frame, bad_frame, bad_frame])) = Some (n, buf', s') \<and>
     n < 4 \<and> buf' 4 = 7"
proof -
  obtain s' buf' where "get_packet (\<lambda>_. 7) 4 (sample_soc (raw_frames [bad_frame, bad_frame, bad_frame])) = Some (- 1, buf', s')"
    using uart_channel.get_packet_all_refused [of "sample_soc (raw_frames [bad_frame, bad_frame, bad_frame])" "[bad_frame, bad_frame, bad_frame]" "[]" 4 "\<lambda>_. 7"]
    by (force simp: on_uart bad_refused)
  with get_packet_bounds [OF this] show ?thesis by (metis int_eq_iff_numeral of_nat_le_iff order_refl zero_less_numeral)
qed

theorem put_packet_retransmits:
  assumes "c_string data cs" and "uart_pending s = naks @ 43 # bs" and "43 \<notin> set naks" and "length naks < 3"
  shows "\<exists>s'. put_packet data s = Some s' \<and> uart_pending s' = bs \<and>
    uart_sent s' = uart_sent s @ concat (replicate (Suc (length naks)) (rsp_frame cs)) \<and>
    uart_others s' = uart_others s"
  using uart_channel.put_packet_tries_acked [OF assms] by (simp add: on_uart put_packet_on_def)

lemma put_packet_retransmits_witness:
  "\<exists>s'. put_packet (lit ''OK'') (sample_soc [45, 43]) = Some s' \<and>
     uart_sent s' = rsp_frame [79, 75] @ rsp_frame [79, 75]"
  using put_packet_retransmits [of "lit ''OK''" "[79, 75]" "sample_soc [45, 43]" "[45]" "[]"]
  by (force simp: c_string_def lit_def)

theorem put_packet_gives_up:
  assumes "c_string data cs" and "uart_pending s = naks @ bs" and "43 \<notin> set naks" and "length naks = 3"
  shows "\<exists>s'. put_packet data s = Some s' \<and> uart_pending s' = bs \<and>
    uart_sent s' = uart_sent s @ rsp_frame cs @ rsp_frame cs @ rsp_frame cs \<and> uart_others s' = uart_others s"
  using uart_channel.put_packet_tries_gives_up [OF assms] by (simp add: on_uart put_packet_on_def numeral_3_eq_3)

lemma put_packet_gives_up_witness:
  "\<exists>s'. put_packet (lit ''OK'') (sample_soc [45, 45, 45]) = Some s' \<and>
     uart_sent s' = rsp_frame [79, 75] @ rsp_frame [79, 75] @ rsp_frame [79, 75]"
  using put_packet_gives_up [of "lit ''OK''" "[79, 75]" "sample_soc [45, 45, 45]" "[45, 45, 45]" "[]"]
  by (force simp: c_string_def lit_def)

text \<open>C31: What put_packet sends on one board, get_packet on another accepts at the first try: it
  returns the same string, with its length, and acknowledges it.\<close>

theorem put_get_packet:
  assumes "c_string data cs" and "35 \<notin> set cs" and "int (length cs) < m"
    and "uart_pending a = 43 # as" and "put_packet data a = Some a'"
    and "uart_pending b = drop (length (uart_sent a)) (uart_sent a')"
  shows "\<exists>buf' b'. get_packet buf m b = Some (int (length cs), buf', b') \<and> c_string buf' cs \<and>
    uart_pending b' = [] \<and> uart_sent b' = uart_sent b @ [43]"
proof -
  have "uart_sent a' = uart_sent a @ rsp_frame cs"
    using uart_channel.put_packet_tries_acked [OF assms(1), of a "[]" as 3] assms(4,5)
    by (simp add: on_uart put_packet_on_def)
  with assms(6) have "uart_pending b = [] @ rsp_frame cs @ []" by simp
  from uart_channel.get_packet_frame [OF this _ assms(2,3), of buf] c_string_put [of cs buf] assms(1)
  show ?thesis by (auto simp: on_uart c_string_def)
qed

lemma put_get_packet_witness:
  "\<exists>buf' b'. get_packet (\<lambda>_. 0) 280
     (sample_soc (uart_sent (the (put_packet (lit ''OK'') (sample_soc [43]))))) = Some (2, buf', b') \<and>
     c_string buf' [79, 75]"
proof -
  have ok: "c_string (lit ''OK'') [79, 75]" by (simp add: c_string_def lit_def)
  obtain a' where a: "put_packet (lit ''OK'') (sample_soc [43]) = Some a'"
    using uart_channel.put_packet_tries_acked [OF ok, of "sample_soc [43]" "[]" "[]" 3]
    by (auto simp: on_uart put_packet_on_def)
  from put_get_packet [OF ok _ _ _ a, of 280 "[]" "sample_soc (uart_sent a')" "\<lambda>_. 0"] a show ?thesis
    by auto
qed

end
