(* ===== verification/Breakpoint_Unit.thy ===== *)
theory Breakpoint_Unit
  imports Main "HOL-Library.Word"
begin

text \<open>
  The contract that the two breakpoint mechanisms of sw/gdb_stub.c share (\<open>Z0\<close>/\<open>z0\<close> through the
  table of patched instructions, \<open>Z1\<close>/\<open>z1\<close> through the comparators of the hardware unit): a set of
  armed addresses of bounded size, an insertion that is idempotent and fails exactly when the
  unit is full, a removal that fails exactly when the address is not armed. The client lemma is
  about every sequence of requests: the replies and the armed set are those of a bounded set.
\<close>

datatype bp_request = Insert "32 word" | Remove "32 word"

fun request_addr :: "bp_request \<Rightarrow> 32 word" where
  "request_addr (Insert a) = a"
| "request_addr (Remove a) = a"

text \<open>The specification: a set of at most \<open>cap\<close> addresses.\<close>

fun set_request :: "nat \<Rightarrow> bp_request \<Rightarrow> 32 word set \<Rightarrow> int \<times> 32 word set" where
  "set_request cap (Insert a) A =
     (if a \<in> A \<or> card A < cap then (0, insert a A) else (- 1, A))"
| "set_request cap (Remove a) A = (if a \<in> A then (0, A - {a}) else (- 1, A))"

fun set_requests :: "nat \<Rightarrow> bp_request list \<Rightarrow> 32 word set \<Rightarrow> int list \<times> 32 word set" where
  "set_requests cap [] A = ([], A)"
| "set_requests cap (r # rs) A =
     (let (c, A1) = set_request cap r A; (cs, A2) = set_requests cap rs A1 in (c # cs, A2))"

text \<open>Requests to a unit given by its two operations.\<close>

fun unit_request ::
  "(32 word \<Rightarrow> 's \<Rightarrow> int \<times> 's) \<Rightarrow> (32 word \<Rightarrow> 's \<Rightarrow> int \<times> 's) \<Rightarrow> bp_request \<Rightarrow> 's \<Rightarrow> int \<times> 's" where
  "unit_request ins rmv (Insert a) s = ins a s"
| "unit_request ins rmv (Remove a) s = rmv a s"

fun unit_requests ::
  "(32 word \<Rightarrow> 's \<Rightarrow> int \<times> 's) \<Rightarrow> (32 word \<Rightarrow> 's \<Rightarrow> int \<times> 's) \<Rightarrow> bp_request list \<Rightarrow> 's \<Rightarrow>
   int list \<times> 's" where
  "unit_requests ins rmv [] s = ([], s)"
| "unit_requests ins rmv (r # rs) s =
     (let (c, s1) = unit_request ins rmv r s; (cs, s2) = unit_requests ins rmv rs s1
      in (c # cs, s2))"

locale breakpoint_unit =
  fixes ins :: "32 word \<Rightarrow> 's \<Rightarrow> int \<times> 's"
    and rmv :: "32 word \<Rightarrow> 's \<Rightarrow> int \<times> 's"
    and armed :: "'s \<Rightarrow> 32 word set"
    and cap :: nat
    and valid :: "32 word \<Rightarrow> bool"
    and inv :: "'s \<Rightarrow> bool"
  assumes armed_bound: "inv s \<Longrightarrow> finite (armed s) \<and> card (armed s) \<le> cap"
    and ins_inv: "inv s \<Longrightarrow> valid a \<Longrightarrow> inv (snd (ins a s))"
    and rmv_inv: "inv s \<Longrightarrow> valid a \<Longrightarrow> inv (snd (rmv a s))"
    and ins_room: "inv s \<Longrightarrow> valid a \<Longrightarrow> a \<in> armed s \<or> card (armed s) < cap \<Longrightarrow>
      fst (ins a s) = 0 \<and> armed (snd (ins a s)) = insert a (armed s)"
    and ins_full: "inv s \<Longrightarrow> valid a \<Longrightarrow> a \<notin> armed s \<Longrightarrow> card (armed s) = cap \<Longrightarrow>
      fst (ins a s) = - 1 \<and> armed (snd (ins a s)) = armed s"
    and rmv_armed: "inv s \<Longrightarrow> valid a \<Longrightarrow> a \<in> armed s \<Longrightarrow>
      fst (rmv a s) = 0 \<and> armed (snd (rmv a s)) = armed s - {a}"
    and rmv_absent: "inv s \<Longrightarrow> valid a \<Longrightarrow> a \<notin> armed s \<Longrightarrow>
      fst (rmv a s) = - 1 \<and> armed (snd (rmv a s)) = armed s"
begin

lemma request_refines:
  assumes "inv s" and "valid (request_addr r)"
  shows "fst (unit_request ins rmv r s) = fst (set_request cap r (armed s))"
    and "armed (snd (unit_request ins rmv r s)) = snd (set_request cap r (armed s))"
    and "inv (snd (unit_request ins rmv r s))"
  using assms armed_bound [of s] ins_room [of s] ins_full [of s] rmv_armed [of s]
    rmv_absent [of s] ins_inv [of s] rmv_inv [of s]
  by (cases r; auto simp: le_less)+

lemma requests_refine:
  "inv s \<Longrightarrow> list_all (valid \<circ> request_addr) rs \<Longrightarrow>
   fst (unit_requests ins rmv rs s) = fst (set_requests cap rs (armed s)) \<and>
   armed (snd (unit_requests ins rmv rs s)) = snd (set_requests cap rs (armed s)) \<and>
   inv (snd (unit_requests ins rmv rs s))"
proof (induction rs arbitrary: s)
  case (Cons r rs)
  then show ?case
    using request_refines [of s r] Cons.IH [of "snd (unit_request ins rmv r s)"]
    by (simp add: case_prod_unfold Let_def)
qed simp

lemma requests_bounded:
  assumes "inv s" and "list_all (valid \<circ> request_addr) rs"
  shows "card (armed (snd (unit_requests ins rmv rs s))) \<le> cap"
  using requests_refine [OF assms] armed_bound by blast

end

end
