(* ===== verification/Sw_Breakpoints.thy ===== *)
theory Sw_Breakpoints
  imports Sample_States Breakpoint_Unit
begin

text \<open>
  The breakpoint table of sw/gdb_stub.c: \<open>bp_insert\<close>, \<open>bp_remove\<close> and \<open>remove_step_bps\<close>. The first
  eight slots are the user's, the last two are the scratch slots of the single step.
\<close>

section \<open>Operations\<close>

text \<open>\<open>for (i = start; i < end; i++) if (P bps[i]) ...\<close>: the first slot that the test selects.\<close>

definition first_slot :: "(bp \<Rightarrow> bool) \<Rightarrow> bp list \<Rightarrow> nat \<Rightarrow> nat \<Rightarrow> nat option" where
  "first_slot P t start end = List.find (\<lambda>i. P (t ! i)) [start..<end]"

definition slots_start :: "bool \<Rightarrow> nat" where
  "slots_start scratch = (if scratch then NBP - NBP_STEP else 0)"

definition slots_end :: "bool \<Rightarrow> nat" where
  "slots_end scratch = (if scratch then NBP else NBP - NBP_STEP)"

definition bp_insert :: "u32 \<Rightarrow> bool \<Rightarrow> stub \<Rightarrow> int \<times> stub" where
  "bp_insert a scratch st =
     (let start = slots_start scratch; end = slots_end scratch
      in case first_slot (\<lambda>b. used b \<and> addr b = a) (bps st) start end of
           Some _ \<Rightarrow> (0, st)
         | None \<Rightarrow>
             (let (hw, s1) = load Half (soc st) a;
                  n = (if hw AND 0x3 = 0x3 then 4 else 2)
              in case first_slot (\<lambda>b. \<not> used b) (bps st) start end of
                   Some i \<Rightarrow>
                     (if n = 2
                      then (0, st\<lparr>soc := store Half s1 a 0x9002,
                                  bps := (bps st)[i := \<lparr>addr = a, orig = hw, blen = n, used = True\<rparr>]\<rparr>)
                      else (let (w, s2) = load Word s1 a
                            in (0, st\<lparr>soc := store Word s2 a 0x00100073,
                                  bps := (bps st)[i := \<lparr>addr = a, orig = w, blen = n, used = True\<rparr>]\<rparr>)))
                 | None \<Rightarrow> (- 1, st\<lparr>soc := s1\<rparr>)))"

text \<open>Putting back the saved bytes of a slot.\<close>

definition restore_bp :: "bp \<Rightarrow> soc \<Rightarrow> soc" where
  "restore_bp b s =
     (if blen b = 2 then store Half s (addr b) (orig b) else store Word s (addr b) (orig b))"

definition bp_release :: "nat \<Rightarrow> stub \<Rightarrow> stub" where
  "bp_release i st =
     st\<lparr>soc := restore_bp (bps st ! i) (soc st), bps := (bps st)[i := (bps st ! i)\<lparr>used := False\<rparr>]\<rparr>"

definition bp_remove :: "u32 \<Rightarrow> bool \<Rightarrow> stub \<Rightarrow> int \<times> stub" where
  "bp_remove a scratch st =
     (case first_slot (\<lambda>b. used b \<and> addr b = a) (bps st) (slots_start scratch) (slots_end scratch) of
        Some i \<Rightarrow> (0, bp_release i st)
      | None \<Rightarrow> (- 1, st))"

definition remove_step_bps :: "stub \<Rightarrow> stub" where
  "remove_step_bps st =
     fold (\<lambda>i st. if used (bps st ! i) then bp_release i st else st) [NBP - NBP_STEP..<NBP] st"

section \<open>The table as a bounded set of addresses\<close>

definition slot_range :: "bool \<Rightarrow> stub \<Rightarrow> bp list" where
  "slot_range scratch st = (if scratch then drop 8 (bps st) else take 8 (bps st))"

definition sw_armed :: "bool \<Rightarrow> stub \<Rightarrow> u32 set" where
  "sw_armed scratch st = set (map addr (filter used (slot_range scratch st)))"

definition sw_cap :: "bool \<Rightarrow> nat" where
  "sw_cap scratch = (if scratch then 2 else 8)"

definition table_wf :: "stub \<Rightarrow> bool" where
  "table_wf st \<longleftrightarrow> length (bps st) = NBP \<and>
     distinct (map addr (filter used (slot_range False st))) \<and>
     distinct (map addr (filter used (slot_range True st)))"

lemma table_frame [simp]:
  "table_wf (st\<lparr>g_regs := g\<rparr>) = table_wf st" "sw_armed sc (st\<lparr>g_regs := g\<rparr>) = sw_armed sc st"
  "table_wf (st\<lparr>pkt_buf := b\<rparr>) = table_wf st" "sw_armed sc (st\<lparr>pkt_buf := b\<rparr>) = sw_armed sc st"
  "table_wf (st\<lparr>stepping := x\<rparr>) = table_wf st" "sw_armed sc (st\<lparr>stepping := x\<rparr>) = sw_armed sc st"
  by (simp_all add: table_wf_def sw_armed_def slot_range_def)

lemma split_at: "k < length xs \<Longrightarrow> xs = take k xs @ xs ! k # drop (Suc k) xs"
  by (rule id_take_nth_drop)

abbreviation live_addrs :: "bp list \<Rightarrow> u32 list" where
  "live_addrs t \<equiv> map addr (filter used t)"

lemma live_addrs_arm:
  assumes "k < length t" and "\<not> used (t ! k)" and "used b" and "addr b \<notin> set (live_addrs t)"
  shows "set (live_addrs (t[k := b])) = insert (addr b) (set (live_addrs t))"
    and "distinct (live_addrs (t[k := b])) = distinct (live_addrs t)"
proof -
  obtain xs x ys where t: "t = xs @ x # ys" "length xs = k" "x = t ! k"
    using split_at [OF assms(1)] assms(1) by (metis length_take less_imp_le_nat min.absorb2)
  then have u: "t[k := b] = xs @ b # ys" by (metis list_update_length)
  have x: "\<not> used x" using assms(2) t(3) by simp
  show "set (live_addrs (t[k := b])) = insert (addr b) (set (live_addrs t))"
    unfolding u using x assms(3) by (auto simp: t(1))
  show "distinct (live_addrs (t[k := b])) = distinct (live_addrs t)"
    unfolding u using x assms(3,4) by (auto simp: t(1))
qed

lemma live_addrs_disarm:
  assumes "k < length t" and "used (t ! k)" and "\<not> used b" and "distinct (live_addrs t)"
  shows "set (live_addrs (t[k := b])) = set (live_addrs t) - {addr (t ! k)}"
    and "distinct (live_addrs (t[k := b]))"
proof -
  obtain xs x ys where t: "t = xs @ x # ys" "length xs = k" "x = t ! k"
    using split_at [OF assms(1)] assms(1) by (metis length_take less_imp_le_nat min.absorb2)
  then have u: "t[k := b] = xs @ b # ys" by (metis list_update_length)
  have x: "used x" using assms(2) t(3) by simp
  show "set (live_addrs (t[k := b])) = set (live_addrs t) - {addr (t ! k)}"
    unfolding u t(3) [symmetric] using x assms(3,4) by (auto simp: t(1))
  show "distinct (live_addrs (t[k := b]))"
    unfolding u using x assms(3,4) by (auto simp: t(1))
qed

lemma live_full: "length (live_addrs t) = length t \<longleftrightarrow> (\<forall>k < length t. used (t ! k))"
  by (simp add: filter_id_conv length_filter_less all_set_conv_all_nth)
   (metis filter_id_conv length_filter_less nat_less_le all_set_conv_all_nth)

section \<open>Slots found by the loops\<close>

lemma first_slot_Some:
  "first_slot P t i j = Some k \<Longrightarrow> i \<le> k \<and> k < j \<and> P (t ! k)"
  by (auto simp: first_slot_def find_Some_iff)

lemma first_slot_None:
  "first_slot P t i j = None \<longleftrightarrow> (\<forall>k. i \<le> k \<longrightarrow> k < j \<longrightarrow> \<not> P (t ! k))"
  by (auto simp: first_slot_def find_None_iff)

lemma slot_range_nth:
  "table_wf st \<Longrightarrow> slots_start sc \<le> k \<Longrightarrow> k < slots_end sc \<Longrightarrow>
   k - slots_start sc < length (slot_range sc st) \<and>
   slot_range sc st ! (k - slots_start sc) = bps st ! k"
  by (auto simp: table_wf_def slot_range_def slots_start_def slots_end_def NBP_def NBP_STEP_def)

lemma slot_range_length: "table_wf st \<Longrightarrow> length (slot_range sc st) = sw_cap sc"
  by (simp add: table_wf_def slot_range_def sw_cap_def NBP_def)

lemma slot_of_range:
  "table_wf st \<Longrightarrow> j < sw_cap sc \<Longrightarrow>
   slots_start sc \<le> slots_start sc + j \<and> slots_start sc + j < slots_end sc \<and>
   slot_range sc st ! j = bps st ! (slots_start sc + j)"
  by (auto simp: table_wf_def slot_range_def slots_start_def slots_end_def sw_cap_def NBP_def
      NBP_STEP_def)

lemma slot_range_update:
  "table_wf st \<Longrightarrow> slots_start sc \<le> k \<Longrightarrow> k < slots_end sc \<Longrightarrow>
   slot_range sc (st\<lparr>bps := (bps st)[k := b]\<rparr>) = (slot_range sc st)[k - slots_start sc := b] \<and>
   slot_range (\<not> sc) (st\<lparr>bps := (bps st)[k := b]\<rparr>) = slot_range (\<not> sc) st"
  by (auto simp: table_wf_def slot_range_def slots_start_def slots_end_def NBP_def NBP_STEP_def
      take_update_swap drop_update_swap list_update_beyond)

lemma slot_range_soc [simp]: "slot_range sc (st\<lparr>soc := s\<rparr>) = slot_range sc st"
  by (simp add: slot_range_def)

lemma slot_range_bps: "slot_range sc (st\<lparr>soc := s, bps := t\<rparr>) = slot_range sc (st\<lparr>bps := t\<rparr>)"
  by (simp add: slot_range_def)

lemma armed_slot:
  assumes "table_wf st"
  shows "a \<in> sw_armed sc st \<longleftrightarrow>
    first_slot (\<lambda>b. used b \<and> addr b = a) (bps st) (slots_start sc) (slots_end sc) \<noteq> None"
proof
  assume "a \<in> sw_armed sc st"
  then obtain b where "b \<in> set (slot_range sc st)" "used b" "addr b = a"
    by (auto simp: sw_armed_def)
  then obtain j where "j < sw_cap sc" "slot_range sc st ! j = b"
    using slot_range_length [OF assms] by (metis in_set_conv_nth)
  with slot_of_range [OF assms, of j sc] \<open>used b\<close> \<open>addr b = a\<close>
  show "first_slot (\<lambda>b. used b \<and> addr b = a) (bps st) (slots_start sc) (slots_end sc) \<noteq> None"
    unfolding first_slot_None by (auto intro!: exI [of _ "slots_start sc + j"])
next
  assume "first_slot (\<lambda>b. used b \<and> addr b = a) (bps st) (slots_start sc) (slots_end sc) \<noteq> None"
  then obtain k where k: "slots_start sc \<le> k" "k < slots_end sc" "used (bps st ! k)" "addr (bps st ! k) = a"
    by (auto dest: first_slot_Some)
  with slot_range_nth [OF assms k(1,2)] show "a \<in> sw_armed sc st"
    unfolding sw_armed_def by (force intro!: image_eqI [of _ _ "bps st ! k"] simp: in_set_conv_nth)
qed

lemma armed_card: "table_wf st \<Longrightarrow> card (sw_armed sc st) = length (live_addrs (slot_range sc st))"
  unfolding sw_armed_def by (rule distinct_card) (cases sc; simp add: table_wf_def)

lemma free_slot:
  assumes "table_wf st"
  shows "first_slot (\<lambda>b. \<not> used b) (bps st) (slots_start sc) (slots_end sc) = None \<longleftrightarrow>
    card (sw_armed sc st) = sw_cap sc"
  using slot_of_range [OF assms, of _ sc] slot_range_nth [OF assms, of sc]
  unfolding armed_card [OF assms] slot_range_length [OF assms, of sc, symmetric] live_full first_slot_None
  by (metis slot_range_length [OF assms])

section \<open>The operations keep the table well-formed and act on the armed set\<close>

lemma table_wf_soc [simp]: "table_wf (st\<lparr>soc := s\<rparr>) = table_wf st"
  by (simp add: table_wf_def)

lemma sw_armed_soc [simp]: "sw_armed sc (st\<lparr>soc := s\<rparr>) = sw_armed sc st"
  by (simp add: sw_armed_def)

lemma sw_armed_bps: "sw_armed sc (st\<lparr>soc := s, bps := t\<rparr>) = sw_armed sc (st\<lparr>bps := t\<rparr>)"
  by (simp add: sw_armed_def slot_range_def)

lemma table_wf_bps: "table_wf (st\<lparr>soc := s, bps := t\<rparr>) = table_wf (st\<lparr>bps := t\<rparr>)"
  by (simp add: table_wf_def slot_range_def)

lemma table_wf_alt:
  "table_wf st \<longleftrightarrow> length (bps st) = NBP \<and> distinct (live_addrs (slot_range sc st)) \<and>
     distinct (live_addrs (slot_range (\<not> sc) st))"
  by (cases sc) (auto simp: table_wf_def)

lemma arm_slot:
  assumes wf: "table_wf st" and k: "slots_start sc \<le> k" "k < slots_end sc" "\<not> used (bps st ! k)"
    and b: "used b" "addr b \<notin> sw_armed sc st"
  shows "table_wf (st\<lparr>bps := (bps st)[k := b]\<rparr>)"
    and "sw_armed sc (st\<lparr>bps := (bps st)[k := b]\<rparr>) = insert (addr b) (sw_armed sc st)"
    and "sw_armed (\<not> sc) (st\<lparr>bps := (bps st)[k := b]\<rparr>) = sw_armed (\<not> sc) st"
  using live_addrs_arm [of "k - slots_start sc" "slot_range sc st" b] slot_range_nth [OF wf k(1,2)]
    slot_range_update [OF wf k(1,2), of b] k(3) b wf
  by (auto simp: sw_armed_def table_wf_alt [of _ sc])

lemma release_slot:
  assumes wf: "table_wf st" and k: "slots_start sc \<le> k" "k < slots_end sc" "used (bps st ! k)"
  shows "table_wf (bp_release k st)"
    and "sw_armed sc (bp_release k st) = sw_armed sc st - {addr (bps st ! k)}"
    and "sw_armed (\<not> sc) (bp_release k st) = sw_armed (\<not> sc) st"
  using live_addrs_disarm [of "k - slots_start sc" "slot_range sc st" "(bps st ! k)\<lparr>used := False\<rparr>"]
    slot_range_nth [OF wf k(1,2)] k(3) wf
    slot_range_update [OF wf k(1,2), of "(bps st ! k)\<lparr>used := False\<rparr>"]
  by (auto simp: sw_armed_bps table_wf_bps bp_release_def sw_armed_def table_wf_alt [of _ sc] slot_range_bps)

text \<open>The three outcomes of \<open>bp_insert\<close>.\<close>

lemma bp_insert_armed:
  "table_wf st \<Longrightarrow> a \<in> sw_armed sc st \<Longrightarrow> bp_insert a sc st = (0, st)"
  by (auto simp: bp_insert_def armed_slot Let_def)

lemma bp_insert_room:
  assumes wf: "table_wf st" and a: "a \<notin> sw_armed sc st" and room: "card (sw_armed sc st) < sw_cap sc"
  obtains k b s' where "slots_start sc \<le> k" "k < slots_end sc" "\<not> used (bps st ! k)"
    "used b" "addr b = a" "bp_insert a sc st = (0, st\<lparr>soc := s', bps := (bps st)[k := b]\<rparr>)"
proof -
  obtain k where k: "first_slot (\<lambda>b. \<not> used b) (bps st) (slots_start sc) (slots_end sc) = Some k"
    using free_slot [OF wf, of sc] room by fastforce
  have d: "first_slot (\<lambda>b. used b \<and> addr b = a) (bps st) (slots_start sc) (slots_end sc) = None"
    using a armed_slot [OF wf] by auto
  obtain hw s1 where h: "load Half (soc st) a = (hw, s1)" by force
  obtain w s2 where w: "load Word s1 a = (w, s2)" by force
  note slot = first_slot_Some [OF k]
  show thesis
  proof (cases "hw AND 3 = 3")
    case True
    show thesis
      by (rule that [of k "\<lparr>addr = a, orig = w, blen = 4, used = True\<rparr>" "store Word s2 a 0x00100073"])
         (use True slot d k h w in \<open>simp_all add: bp_insert_def\<close>)
  next
    case False
    show thesis
      by (rule that [of k "\<lparr>addr = a, orig = hw, blen = 2, used = True\<rparr>" "store Half s1 a 0x9002"])
         (use False slot d k h in \<open>simp_all add: bp_insert_def\<close>)
  qed
qed

lemma bp_insert_full:
  assumes wf: "table_wf st" and a: "a \<notin> sw_armed sc st" and full: "card (sw_armed sc st) = sw_cap sc"
  shows "\<exists>s'. bp_insert a sc st = (- 1, st\<lparr>soc := s'\<rparr>)"
proof -
  have "first_slot (\<lambda>b. \<not> used b) (bps st) (slots_start sc) (slots_end sc) = None"
    using free_slot [OF wf, of sc] full by simp
  moreover have "first_slot (\<lambda>b. used b \<and> addr b = a) (bps st) (slots_start sc) (slots_end sc) = None"
    using a armed_slot [OF wf] by auto
  ultimately show ?thesis by (auto simp: bp_insert_def Let_def split: prod.splits)
qed

lemma bp_remove_armed:
  assumes wf: "table_wf st" and a: "a \<in> sw_armed sc st"
  obtains k where "slots_start sc \<le> k" "k < slots_end sc" "used (bps st ! k)" "addr (bps st ! k) = a"
    "bp_remove a sc st = (0, bp_release k st)"
proof -
  obtain k where k: "first_slot (\<lambda>b. used b \<and> addr b = a) (bps st) (slots_start sc) (slots_end sc) = Some k"
    using a armed_slot [OF wf] by auto
  show thesis
    using that [of k] first_slot_Some [OF k] k by (auto simp: bp_remove_def)
qed

lemma bp_remove_absent:
  "table_wf st \<Longrightarrow> a \<notin> sw_armed sc st \<Longrightarrow> bp_remove a sc st = (- 1, st)"
  by (auto simp: bp_remove_def armed_slot)

lemma sw_armed_bound: "table_wf st \<Longrightarrow> finite (sw_armed sc st) \<and> card (sw_armed sc st) \<le> sw_cap sc"
  using armed_card [of st sc] slot_range_length [of st sc]
  by (metis length_filter_le length_map sw_armed_def finite_set)

lemma bp_insert_table:
  assumes "table_wf st"
  shows "table_wf (snd (bp_insert a sc st))"
    and "a \<in> sw_armed sc st \<or> card (sw_armed sc st) < sw_cap sc \<Longrightarrow>
      fst (bp_insert a sc st) = 0 \<and> sw_armed sc (snd (bp_insert a sc st)) = insert a (sw_armed sc st)"
    and "sw_armed (\<not> sc) (snd (bp_insert a sc st)) = sw_armed (\<not> sc) st"
proof -
  consider "a \<in> sw_armed sc st" | "a \<notin> sw_armed sc st" "card (sw_armed sc st) < sw_cap sc"
    | "a \<notin> sw_armed sc st" "card (sw_armed sc st) = sw_cap sc"
    using sw_armed_bound [OF assms, of sc] by linarith
  then have "table_wf (snd (bp_insert a sc st)) \<and>
    (a \<in> sw_armed sc st \<or> card (sw_armed sc st) < sw_cap sc \<longrightarrow>
      fst (bp_insert a sc st) = 0 \<and> sw_armed sc (snd (bp_insert a sc st)) = insert a (sw_armed sc st)) \<and>
    sw_armed (\<not> sc) (snd (bp_insert a sc st)) = sw_armed (\<not> sc) st"
  proof cases
    case 1
    then show ?thesis using assms by (auto simp: bp_insert_armed)
  next
    case 2
    obtain k b s' where "slots_start sc \<le> k" "k < slots_end sc" "\<not> used (bps st ! k)"
      "used b" "addr b = a" "bp_insert a sc st = (0, st\<lparr>soc := s', bps := (bps st)[k := b]\<rparr>)"
      using bp_insert_room [OF assms 2] .
    with arm_slot [OF assms, of sc k b] 2 show ?thesis
      by (simp add: sw_armed_bps table_wf_bps)
  next
    case 3
    then show ?thesis using bp_insert_full [OF assms 3] assms by auto
  qed
  then show "table_wf (snd (bp_insert a sc st))"
    and "a \<in> sw_armed sc st \<or> card (sw_armed sc st) < sw_cap sc \<Longrightarrow>
      fst (bp_insert a sc st) = 0 \<and> sw_armed sc (snd (bp_insert a sc st)) = insert a (sw_armed sc st)"
    and "sw_armed (\<not> sc) (snd (bp_insert a sc st)) = sw_armed (\<not> sc) st" by blast+
qed

lemma bp_remove_table:
  assumes "table_wf st"
  shows "table_wf (snd (bp_remove a sc st))"
    and "sw_armed sc (snd (bp_remove a sc st)) = sw_armed sc st - {a}"
    and "fst (bp_remove a sc st) = (if a \<in> sw_armed sc st then 0 else - 1)"
    and "sw_armed (\<not> sc) (snd (bp_remove a sc st)) = sw_armed (\<not> sc) st"
proof -
  have "table_wf (snd (bp_remove a sc st)) \<and> sw_armed sc (snd (bp_remove a sc st)) = sw_armed sc st - {a} \<and>
    fst (bp_remove a sc st) = (if a \<in> sw_armed sc st then 0 else - 1) \<and>
    sw_armed (\<not> sc) (snd (bp_remove a sc st)) = sw_armed (\<not> sc) st"
  proof (cases "a \<in> sw_armed sc st")
    case True
    obtain k where "slots_start sc \<le> k" "k < slots_end sc" "used (bps st ! k)" "addr (bps st ! k) = a"
      "bp_remove a sc st = (0, bp_release k st)"
      using bp_remove_armed [OF assms True] .
    with release_slot [OF assms, of sc k] True show ?thesis by simp
  next
    case False
    with assms show ?thesis by (simp add: bp_remove_absent)
  qed
  then show "table_wf (snd (bp_remove a sc st))"
    and "sw_armed sc (snd (bp_remove a sc st)) = sw_armed sc st - {a}"
    and "fst (bp_remove a sc st) = (if a \<in> sw_armed sc st then 0 else - 1)"
    and "sw_armed (\<not> sc) (snd (bp_remove a sc st)) = sw_armed (\<not> sc) st" by blast+
qed

interpretation sw_table:
  breakpoint_unit "\<lambda>a. bp_insert a sc" "\<lambda>a. bp_remove a sc" "sw_armed sc" "sw_cap sc" "\<lambda>_. True" table_wf
  for sc
proof unfold_locales
  fix st a
  assume wf: "table_wf st"
  show "a \<notin> sw_armed sc st \<Longrightarrow> card (sw_armed sc st) = sw_cap sc \<Longrightarrow>
      fst (bp_insert a sc st) = - 1 \<and> sw_armed sc (snd (bp_insert a sc st)) = sw_armed sc st"
    using bp_insert_full [OF wf] by force
qed (simp_all add: sw_armed_bound bp_insert_table bp_remove_table)

section \<open>The table implements the set of breakpoints\<close>

lemma sample_table [simp]: "table_wf (sample_stub bs)" "sw_armed sc (sample_stub bs) = {}"
  by (simp_all add: table_wf_def sw_armed_def slot_range_def NBP_def)

text \<open>C21: The software breakpoint table refines a bounded set of addresses: for any sequence of
  insertions and removals, in the user slots (at most eight) or the scratch slots (at most two),
  the return codes are those of the set, the armed addresses are the set, and the table stays
  well formed.\<close>

theorem sw_requests_refine:
  assumes "table_wf st"
  shows "fst (unit_requests (\<lambda>a. bp_insert a sc) (\<lambda>a. bp_remove a sc) rs st) =
      fst (set_requests (sw_cap sc) rs (sw_armed sc st)) \<and>
    sw_armed sc (snd (unit_requests (\<lambda>a. bp_insert a sc) (\<lambda>a. bp_remove a sc) rs st)) =
      snd (set_requests (sw_cap sc) rs (sw_armed sc st)) \<and>
    table_wf (snd (unit_requests (\<lambda>a. bp_insert a sc) (\<lambda>a. bp_remove a sc) rs st))"
  using sw_table.requests_refine [OF assms, of rs sc] by (simp add: list_all_iff)

lemma sw_requests_refine_witness:
  "fst (unit_requests (\<lambda>a. bp_insert a True) (\<lambda>a. bp_remove a True)
     [Insert 0x100, Insert 0x104, Insert 0x108, Remove 0x100, Remove 0x100] (sample_stub [])) = [0, 0, - 1, 0, - 1]"
  using sw_requests_refine [of "sample_stub []" True "[Insert 0x100, Insert 0x104, Insert 0x108, Remove 0x100, Remove 0x100]"]
  by (simp add: sw_cap_def)

end
