(* ===== verification/Patched_Code.thy ===== *)
theory Patched_Code
  imports Sw_Breakpoints
begin

text \<open>
  The program memory under the breakpoint table of sw/gdb_stub.c. A planted \<open>ebreak\<close> or
  \<open>c.ebreak\<close> hides the bytes that its slot saved; \<open>unpatched\<close> is the memory with every live slot
  put back. The operations of the table leave it alone as long as every breakpoint is on an
  instruction that the core can rewrite (\<open>code_addr\<close>) and that does not overlap another one
  (\<open>clear_of\<close>). The last section is the case the code does not handle: a 32-bit instruction on
  a halfword boundary, which the core's word store cannot reach.
\<close>

section \<open>Memory under the table\<close>

text \<open>The encoding length that the stub reads off the first halfword, and the addresses at which
  the core's memory accesses can patch the instruction: even RAM addresses, and word-aligned ones
  where the instruction is 32 bits long.\<close>

definition long_at :: "soc \<Rightarrow> u32 \<Rightarrow> bool" where
  "long_at s a \<longleftrightarrow> half_at s a AND 3 = 3"

definition code_addr :: "soc \<Rightarrow> u32 \<Rightarrow> bool" where
  "code_addr s a \<longleftrightarrow> in_ram a \<and> \<not> bit a 0 \<and> (long_at s a \<longrightarrow> \<not> bit a 1)"

definition saved_slot :: "soc \<Rightarrow> u32 \<Rightarrow> bp" where
  "saved_slot s a =
     (if long_at s a then \<lparr>addr = a, orig = ram s (ram_waddr a), blen = 4, used = True\<rparr>
      else \<lparr>addr = a, orig = half_at s a, blen = 2, used = True\<rparr>)"

definition patched :: "soc \<Rightarrow> u32 \<Rightarrow> soc" where
  "patched s a = (if long_at s a then store Word s a 0x00100073 else store Half s a 0x9002)"

lemma bp_insert_code:
  assumes wf: "table_wf st" and a: "a \<notin> sw_armed sc st" and room: "card (sw_armed sc st) < sw_cap sc"
    and code: "code_addr (soc st) a"
  obtains k where "slots_start sc \<le> k" "k < slots_end sc" "\<not> used (bps st ! k)"
    "bp_insert a sc st =
       (0, st\<lparr>soc := patched (soc st) a, bps := (bps st)[k := saved_slot (soc st) a]\<rparr>)"
proof -
  obtain k where k: "first_slot (\<lambda>b. \<not> used b) (bps st) (slots_start sc) (slots_end sc) = Some k"
    using free_slot [OF wf, of sc] room by fastforce
  have d: "first_slot (\<lambda>b. used b \<and> addr b = a) (bps st) (slots_start sc) (slots_end sc) = None"
    using a armed_slot [OF wf] by auto
  show thesis
    by (rule that [of k])
       (use first_slot_Some [OF k] k d code in \<open>simp_all add: bp_insert_def code_addr_def
         load_half_ram load_word_ram patched_def saved_slot_def long_at_def\<close>)
qed

lemma bp_insert_full_ram:
  assumes "table_wf st" "a \<notin> sw_armed sc st" "card (sw_armed sc st) = sw_cap sc" "in_ram a"
  shows "bp_insert a sc st = (- 1, st)"
proof -
  have "first_slot (\<lambda>b. \<not> used b) (bps st) (slots_start sc) (slots_end sc) = None"
    using free_slot [OF assms(1), of sc] assms(3) by simp
  moreover have "first_slot (\<lambda>b. used b \<and> addr b = a) (bps st) (slots_start sc) (slots_end sc) = None"
    using assms(2) armed_slot [OF assms(1)] by auto
  ultimately show ?thesis using assms(4) by (simp add: bp_insert_def load_half_ram)
qed

lemma restore_patched: "code_addr s a \<Longrightarrow> restore_bp (saved_slot s a) (patched s a) = s"
  by (simp add: restore_bp_def saved_slot_def patched_def code_addr_def store_word_undo store_half_undo)

text \<open>The halfwords a slot owns, and stores to halfwords of their own.\<close>

definition slot_wf :: "bp \<Rightarrow> bool" where
  "slot_wf b \<longleftrightarrow> in_ram (addr b) \<and> \<not> bit (addr b) 0 \<and> (blen b \<noteq> 2 \<longrightarrow> \<not> bit (addr b) 1)"

definition footprint :: "bp \<Rightarrow> u32 set" where
  "footprint b = (if blen b = 2 then {addr b} else {addr b, addr b + 2})"

lemma merge_half_commute:
  assumes "\<not> bit a 0" "\<not> bit b 0" "bit a 1 \<noteq> bit b 1"
  shows "ram_merge (ram_merge old (mem_wdata a v) (STORE_wmask Half a)) (mem_wdata b w) (STORE_wmask Half b) =
    ram_merge (ram_merge old (mem_wdata b w) (STORE_wmask Half b)) (mem_wdata a v) (STORE_wmask Half a)"
  using assms by (cases "bit a 1"; simp add: lane_simps del: vcat.simps)

lemma store_other_word:
  "in_ram a \<Longrightarrow> in_ram b \<Longrightarrow> ram_waddr a \<noteq> ram_waddr b \<Longrightarrow>
   store v (store w s a x) b y = store w (store v s b y) a x"
  by (simp add: store_ram fun_upd_twist del: STORE_wmask.simps)

lemma store_half_half:
  assumes "in_ram a" "in_ram b" "\<not> bit a 0" "\<not> bit b 0" "a \<noteq> b"
  shows "store Half (store Half s a x) b y = store Half (store Half s b y) a x"
proof (cases "ram_waddr a = ram_waddr b")
  case True
  then have "bit a 1 \<noteq> bit b 1" using assms ram_addr_eqI by blast
  from merge_half_commute [OF assms(3,4) this] True assms show ?thesis
    by (simp add: store_ram del: STORE_wmask.simps)
qed (use assms store_other_word in auto)

lemma word_owner:
  assumes "in_ram a" "\<not> bit a 0" "\<not> bit a 1" "in_ram b" "\<not> bit b 0" "b \<noteq> a" "b \<noteq> a + 2"
  shows "ram_waddr a \<noteq> ram_waddr b"
proof
  assume w: "ram_waddr a = ram_waddr b"
  have "ram_waddr (a OR 2) = ram_waddr a"
    by (rule word32_eqI) (simp_all add: ram_waddr_def vec_simps)
  moreover have "bit (a OR 2) 1" "\<not> bit (a OR 2) 0" using assms by (simp_all add: bit_or_iff)
  ultimately have "bit b 1 \<Longrightarrow> b = a OR 2" "\<not> bit b 1 \<Longrightarrow> b = a"
    using assms w by (simp_all add: ram_addr_eqI in_ram_or2)
  with assms plus2_or [OF assms(3)] show False by metis
qed

lemma restore_commute:
  assumes "slot_wf b" "slot_wf c" "footprint b \<inter> footprint c = {}"
  shows "restore_bp b (restore_bp c s) = restore_bp c (restore_bp b s)"
  using assms word_owner [of "addr b" "addr c"] word_owner [of "addr c" "addr b"]
  by (auto simp: restore_bp_def slot_wf_def footprint_def store_half_half store_other_word split: if_splits)


text \<open>The memory the program had before any breakpoint was planted: every live slot put back.\<close>

definition unpatched :: "stub \<Rightarrow> soc" where
  "unpatched st = fold restore_bp (filter used (bps st)) (soc st)"

definition code_table :: "stub \<Rightarrow> bool" where
  "code_table st \<longleftrightarrow> table_wf st \<and> (\<forall>b \<in> set (filter used (bps st)). slot_wf b) \<and>
     pairwise (\<lambda>b c. footprint b \<inter> footprint c = {}) (set (filter used (bps st))) \<and>
     distinct (filter used (bps st))"

definition clear_of :: "u32 \<Rightarrow> stub \<Rightarrow> bool" where
  "clear_of a st \<longleftrightarrow>
     (\<forall>b \<in> set (filter used (bps st)). footprint (saved_slot (soc st) a) \<inter> footprint b = {})"

lemma saved_slot_wf: "code_addr s a \<Longrightarrow> slot_wf (saved_slot s a)"
  by (simp add: saved_slot_def slot_wf_def code_addr_def)

lemma saved_slot_simps [simp]: "used (saved_slot s a)" "addr (saved_slot s a) = a"
  by (simp_all add: saved_slot_def)

lemma fold_restore_pull:
  "slot_wf b \<Longrightarrow> \<forall>c \<in> set xs. slot_wf c \<and> footprint b \<inter> footprint c = {} \<Longrightarrow>
   fold restore_bp xs (restore_bp b s) = restore_bp b (fold restore_bp xs s)"
proof (induction xs arbitrary: s)
  case (Cons c xs)
  then have "restore_bp c (restore_bp b s) = restore_bp b (restore_bp c s)"
    by (intro restore_commute) auto
  with Cons show ?case by simp
qed simp

lemma fold_restore_middle:
  assumes "slot_wf b" "\<forall>c \<in> set xs. slot_wf c \<and> footprint b \<inter> footprint c = {}"
  shows "fold restore_bp (xs @ b # ys) s = fold restore_bp (xs @ ys) (restore_bp b s)"
  using fold_restore_pull [OF assms] by simp

lemma filter_used_update:
  assumes "k < length t"
  shows "\<exists>xs ys. filter used t = xs @ (if used (t ! k) then [t ! k] else []) @ ys \<and>
    (\<forall>b. filter used (t[k := b]) = xs @ (if used b then [b] else []) @ ys)"
proof -
  obtain xs x ys where t: "t = xs @ x # ys" "length xs = k" "x = t ! k"
    using split_at [OF assms] assms by (metis length_take less_imp_le_nat min.absorb2)
  then have u: "t[k := b] = xs @ b # ys" for b by (metis list_update_length)
  show ?thesis
    by (rule exI [of _ "filter used xs"], rule exI [of _ "filter used ys"])
       (simp only: u, subst t(1), simp add: t(3) [symmetric])
qed

text \<open>Planting a breakpoint clear of the others leaves the program under the table alone.\<close>

lemma arm_unpatched:
  assumes ct: "code_table st" and code: "code_addr (soc st) a" and clr: "clear_of a st"
    and k: "k < length (bps st)" "\<not> used (bps st ! k)"
    and wf: "table_wf (st\<lparr>soc := patched (soc st) a, bps := (bps st)[k := saved_slot (soc st) a]\<rparr>)"
      (is "table_wf ?st")
  shows "unpatched ?st = unpatched st" and "code_table ?st"
proof -
  let ?b = "saved_slot (soc st) a"
  obtain xs ys where f0: "filter used (bps st) = xs @ (if used (bps st ! k) then [bps st ! k] else []) @ ys"
    and f1: "\<And>b. filter used ((bps st)[k := b]) = xs @ (if used b then [b] else []) @ ys"
    using filter_used_update [OF k(1)] by blast
  have f: "filter used (bps st) = xs @ ys" "filter used (bps ?st) = xs @ ?b # ys"
    using f0 f1 [of ?b] k(2) by simp_all
  have d: "\<forall>c \<in> set (xs @ ys). slot_wf c \<and> footprint ?b \<inter> footprint c = {}"
    using ct clr f by (auto simp: code_table_def clear_of_def)
  then show "unpatched ?st = unpatched st"
    unfolding unpatched_def f
    by (subst fold_restore_middle) (use code in \<open>auto simp: saved_slot_wf restore_patched\<close>)
  have ne: "footprint ?b \<noteq> {}" by (simp add: footprint_def)
  with d have "?b \<notin> set (xs @ ys)" by blast
  then show "code_table ?st"
    using ct wf d f saved_slot_wf [OF code]
    by (auto simp: code_table_def pairwise_insert Int_commute)
qed

lemma release_unpatched:
  assumes ct: "code_table st" and k: "k < length (bps st)" "used (bps st ! k)"
    and wf: "table_wf (bp_release k st)"
  shows "unpatched (bp_release k st) = unpatched st" and "code_table (bp_release k st)"
proof -
  let ?b = "bps st ! k" and ?st = "bp_release k st"
  obtain xs ys where f0: "filter used (bps st) = xs @ (if used (bps st ! k) then [bps st ! k] else []) @ ys"
    and f1: "\<And>b. filter used ((bps st)[k := b]) = xs @ (if used b then [b] else []) @ ys"
    using filter_used_update [OF k(1)] by blast
  have f: "filter used (bps st) = xs @ ?b # ys" "filter used (bps ?st) = xs @ ys"
    using f0 f1 k(2) by (simp_all add: bp_release_def)
  have s: "soc ?st = restore_bp ?b (soc st)" by (simp add: bp_release_def)
  have wfs: "\<forall>c \<in> set (xs @ ?b # ys). slot_wf c" and dis: "distinct (xs @ ?b # ys)"
    and pw: "pairwise (\<lambda>b c. footprint b \<inter> footprint c = {}) (set (xs @ ?b # ys))"
    using ct f by (auto simp: code_table_def)
  have "\<forall>c \<in> set xs. slot_wf c \<and> footprint ?b \<inter> footprint c = {}"
  proof
    fix c assume c: "c \<in> set xs"
    then have "?b \<noteq> c" using dis by auto
    then show "slot_wf c \<and> footprint ?b \<inter> footprint c = {}"
      using c wfs pairwiseD [OF pw, of ?b c] by auto
  qed
  then show "unpatched ?st = unpatched st"
    unfolding unpatched_def f s using wfs by (subst fold_restore_middle) auto
  show "code_table ?st"
    using wf wfs dis pw f by (auto simp: code_table_def pairwise_def)
qed

lemma saved_slot_footprint: "footprint (saved_slot s a) = (if long_at s a then {a, a + 2} else {a})"
  by (simp add: footprint_def saved_slot_def)

lemma bp_insert_unpatched:
  assumes ct: "code_table st" and code: "code_addr (soc st) a"
    and clr: "a \<notin> sw_armed sc st \<Longrightarrow> clear_of a st"
  shows "unpatched (snd (bp_insert a sc st)) = unpatched st"
    and "code_table (snd (bp_insert a sc st))"
proof -
  have wf: "table_wf st" using ct by (simp add: code_table_def)
  consider "a \<in> sw_armed sc st" | "a \<notin> sw_armed sc st" "card (sw_armed sc st) < sw_cap sc"
    | "a \<notin> sw_armed sc st" "card (sw_armed sc st) = sw_cap sc"
    using sw_armed_bound [OF wf, of sc] by linarith
  then have "unpatched (snd (bp_insert a sc st)) = unpatched st \<and> code_table (snd (bp_insert a sc st))"
  proof cases
    case 2
    then obtain k where k: "slots_start sc \<le> k" "k < slots_end sc" "\<not> used (bps st ! k)"
      and i: "bp_insert a sc st =
        (0, st\<lparr>soc := patched (soc st) a, bps := (bps st)[k := saved_slot (soc st) a]\<rparr>)"
      using bp_insert_code [OF wf _ _ code, of sc] by blast
    have "k < length (bps st)"
      using k wf by (cases sc) (auto simp: table_wf_def slots_end_def NBP_def NBP_STEP_def)
    then show ?thesis
      using arm_unpatched [OF ct code clr] k(3) i 2 bp_insert_table(1) [OF wf, of a sc] by simp
  qed (use ct wf code in \<open>simp_all add: bp_insert_armed bp_insert_full_ram code_addr_def\<close>)
  then show "unpatched (snd (bp_insert a sc st)) = unpatched st"
    and "code_table (snd (bp_insert a sc st))" by blast+
qed

lemma slot_in_table: "table_wf st \<Longrightarrow> k < slots_end sc \<Longrightarrow> k < length (bps st)"
  by (cases sc) (auto simp: table_wf_def slots_end_def NBP_def NBP_STEP_def)

lemma bp_remove_unpatched:
  assumes ct: "code_table st"
  shows "unpatched (snd (bp_remove a sc st)) = unpatched st"
    and "code_table (snd (bp_remove a sc st))"
proof -
  have wf: "table_wf st" using ct by (simp add: code_table_def)
  have "unpatched (snd (bp_remove a sc st)) = unpatched st \<and> code_table (snd (bp_remove a sc st))"
  proof (cases "a \<in> sw_armed sc st")
    case True
    then obtain k where k: "slots_start sc \<le> k" "k < slots_end sc" "used (bps st ! k)"
      "bp_remove a sc st = (0, bp_release k st)"
      using bp_remove_armed [OF wf] by metis
    with release_unpatched [OF ct slot_in_table [OF wf k(2)] k(3)] release_slot(1) [OF wf k(1,2,3)]
    show ?thesis by simp
  qed (use ct wf in \<open>simp add: bp_remove_absent\<close>)
  then show "unpatched (snd (bp_remove a sc st)) = unpatched st"
    and "code_table (snd (bp_remove a sc st))" by blast+
qed

lemma remove_step_bps_eq:
  "remove_step_bps st =
     (let st1 = (if used (bps st ! 8) then bp_release 8 st else st)
      in if used (bps st1 ! 9) then bp_release 9 st1 else st1)"
  by (simp add: remove_step_bps_def NBP_def NBP_STEP_def upt_rec numeral_eq_Suc Let_def)

lemma release_at_step:
  assumes ct: "code_table st" and k: "k = 8 \<or> k = 9" "used (bps st ! k)"
  shows "unpatched (bp_release k st) = unpatched st" "code_table (bp_release k st)"
proof -
  have wf: "table_wf st" using ct by (simp add: code_table_def)
  have r: "slots_start True \<le> k" "k < slots_end True"
    using k(1) by (auto simp: slots_start_def slots_end_def NBP_def NBP_STEP_def)
  from release_unpatched [OF ct slot_in_table [OF wf r(2)] k(2) release_slot(1) [OF wf r k(2)]]
  show "unpatched (bp_release k st) = unpatched st" "code_table (bp_release k st)" by blast+
qed

lemma remove_step_bps_unpatched:
  assumes "code_table st"
  shows "unpatched (remove_step_bps st) = unpatched st" "code_table (remove_step_bps st)"
  unfolding remove_step_bps_eq Let_def using assms
  by (auto simp: release_at_step)

lemma remove_step_bps_wf:
  assumes wf: "table_wf st"
  shows "table_wf (remove_step_bps st)" "sw_armed True (remove_step_bps st) = {}"
    "sw_armed False (remove_step_bps st) = sw_armed False st"
proof -
  have r: "slots_start True \<le> 8" "8 < slots_end True" "slots_start True \<le> 9" "9 < slots_end True"
    by (auto simp: slots_start_def slots_end_def NBP_def NBP_STEP_def)
  define st1 where "st1 = (if used (bps st ! 8) then bp_release 8 st else st)"
  have w1: "table_wf st1" "sw_armed False st1 = sw_armed False st"
    using wf release_slot [OF wf r(1,2)] by (auto simp: st1_def)
  have l: "length (bps st) = 10" using wf by (simp add: table_wf_def NBP_def)
  have u1: "\<not> used (bps st1 ! 8)" using l by (simp add: st1_def bp_release_def)
  have w2: "table_wf (remove_step_bps st)" "sw_armed False (remove_step_bps st) = sw_armed False st"
    using w1 release_slot [OF w1(1) r(3,4)] unfolding remove_step_bps_eq Let_def st1_def [symmetric]
    by auto
  have l1: "length (bps st1) = 10" using w1(1) by (simp add: table_wf_def NBP_def)
  have u: "\<not> used (bps (remove_step_bps st) ! 8)" "\<not> used (bps (remove_step_bps st) ! 9)"
    using u1 l1 unfolding remove_step_bps_eq Let_def st1_def [symmetric]
    by (auto simp: bp_release_def)
  have l2: "length (bps (remove_step_bps st)) = 10" using w2(1) by (simp add: table_wf_def NBP_def)
  have "drop 8 (bps (remove_step_bps st)) = [bps (remove_step_bps st) ! 8, bps (remove_step_bps st) ! 9]"
    using l2 by (simp add: Cons_nth_drop_Suc [symmetric])
  then show "table_wf (remove_step_bps st)" "sw_armed True (remove_step_bps st) = {}"
    "sw_armed False (remove_step_bps st) = sw_armed False st"
    using w2 u by (simp_all add: sw_armed_def [of True] slot_range_def)
qed

text \<open>What an armed slot shows in memory, and what it leaves alone.\<close>

lemma patched_half_at:
  assumes "code_addr s a" "in_ram b" "\<not> bit b 0"
  shows "half_at (patched s a) b =
    (if b = a then (if long_at s a then 0x0073 else 0x9002)
     else if long_at s a \<and> b = a + 2 then 0x0010 else half_at s b)"
  using assms
  by (auto simp: patched_def code_addr_def half_at_store_word half_at_store_half bits_def take_bit_eq_mod)

lemma bp_remove_new:
  assumes wf: "table_wf st" and k: "slots_start sc \<le> k" "k < slots_end sc" "\<not> used (bps st ! k)"
    and b: "used b" "addr b = a" and a: "a \<notin> sw_armed sc st"
  shows "bp_remove a sc (st\<lparr>soc := s, bps := (bps st)[k := b]\<rparr>) =
    (0, st\<lparr>soc := restore_bp b s, bps := (bps st)[k := b\<lparr>used := False\<rparr>]\<rparr>)"
proof -
  let ?st = "st\<lparr>soc := s, bps := (bps st)[k := b]\<rparr>"
  have wf1: "table_wf ?st" and arm: "a \<in> sw_armed sc ?st"
    using arm_slot [OF wf k b(1)] a b(2) by (simp_all add: table_wf_bps sw_armed_bps)
  obtain j where j: "slots_start sc \<le> j" "j < slots_end sc" "used (bps ?st ! j)" "addr (bps ?st ! j) = a"
    "bp_remove a sc ?st = (0, bp_release j ?st)"
    using bp_remove_armed [OF wf1 arm] .
  have "j = k"
  proof (rule ccontr)
    assume "j \<noteq> k"
    then have "used (bps st ! j)" "addr (bps st ! j) = a" using j by auto
    then have "a \<in> sw_armed sc st"
      using slot_range_nth [OF wf j(1,2)] by (force simp: sw_armed_def in_set_conv_nth)
    with a show False by simp
  qed
  with j(5) slot_in_table [OF wf k(2)] show ?thesis by (simp add: bp_release_def)
qed

lemma bp_insert_then_remove:
  assumes wf: "table_wf st" and code: "code_addr (soc st) a" and a: "a \<notin> sw_armed sc st"
    and room: "card (sw_armed sc st) < sw_cap sc"
  shows "\<exists>st'. bp_remove a sc (snd (bp_insert a sc st)) = (0, st') \<and> soc st' = soc st \<and>
    filter used (bps st') = filter used (bps st)"
proof -
  obtain k where k: "slots_start sc \<le> k" "k < slots_end sc" "\<not> used (bps st ! k)"
    and i: "bp_insert a sc st =
      (0, st\<lparr>soc := patched (soc st) a, bps := (bps st)[k := saved_slot (soc st) a]\<rparr>)"
    using bp_insert_code [OF wf a room code] .
  have r: "bp_remove a sc (snd (bp_insert a sc st)) = (0, st\<lparr>soc := soc st,
      bps := (bps st)[k := (saved_slot (soc st) a)\<lparr>used := False\<rparr>]\<rparr>)"
    using bp_remove_new [OF wf k _ _ a, of "saved_slot (soc st) a"] i restore_patched [OF code] by simp
  obtain xs ys where "filter used (bps st) = xs @ (if used (bps st ! k) then [bps st ! k] else []) @ ys"
    "\<And>b. filter used ((bps st)[k := b]) = xs @ (if used b then [b] else []) @ ys"
    using filter_used_update [OF slot_in_table [OF wf k(2)]] by blast
  with r k(3) show ?thesis by simp
qed

section \<open>Debugging leaves the program's memory alone\<close>

text \<open>What happens to memory and table while the program is debugged: the stub arms, disarms and
  sweeps the scratch slots, and code outside the table (the program itself, the \<open>M\<close> packet) stores
  halfwords that no planted breakpoint occupies.\<close>

datatype table_event = Arm bool u32 | Disarm bool u32 | Sweep | Write u32 u32

inductive table_step :: "stub \<Rightarrow> table_event \<Rightarrow> stub \<Rightarrow> bool" where
  arm: "code_addr (soc st) a \<Longrightarrow> a \<in> sw_armed sc st \<or> clear_of a st \<Longrightarrow>
    table_step st (Arm sc a) (snd (bp_insert a sc st))"
| disarm: "table_step st (Disarm sc a) (snd (bp_remove a sc st))"
| sweep: "table_step st Sweep (remove_step_bps st)"
| program: "in_ram a \<Longrightarrow> \<not> bit a 0 \<Longrightarrow> \<forall>b \<in> set (filter used (bps st)). a \<notin> footprint b \<Longrightarrow>
    table_step st (Write a v) (st\<lparr>soc := store Half (soc st) a v\<rparr>)"

inductive table_steps :: "stub \<Rightarrow> table_event list \<Rightarrow> stub \<Rightarrow> bool" where
  none: "table_steps st [] st"
| more: "table_step st e st1 \<Longrightarrow> table_steps st1 es st2 \<Longrightarrow> table_steps st (e # es) st2"

inductive_cases table_steps_NilE: "table_steps st [] st'"
inductive_cases table_steps_ConsE: "table_steps st (e # es) st'"

text \<open>The program's own view: only the stores happen.\<close>

fun view_event :: "table_event \<Rightarrow> soc \<Rightarrow> soc" where
  "view_event (Write a v) s = store Half s a v"
| "view_event _ s = s"

lemma restore_store_commute:
  assumes "slot_wf b" "in_ram a" "\<not> bit a 0" "a \<notin> footprint b"
  shows "restore_bp b (store Half s a v) = store Half (restore_bp b s) a v"
  using assms word_owner [of "addr b" a]
  by (auto simp: restore_bp_def slot_wf_def footprint_def store_half_half store_other_word split: if_splits)

lemma fold_restore_store:
  assumes "in_ram a" "\<not> bit a 0"
  shows "\<forall>b \<in> set xs. slot_wf b \<and> a \<notin> footprint b \<Longrightarrow>
    fold restore_bp xs (store Half s a v) = store Half (fold restore_bp xs s) a v"
  using assms by (induction xs arbitrary: s) (auto simp: restore_store_commute)

lemma code_table_soc [simp]: "code_table (st\<lparr>soc := s\<rparr>) = code_table st"
  by (simp add: code_table_def)

lemma table_step_view:
  "table_step st e st' \<Longrightarrow> code_table st \<Longrightarrow>
   unpatched st' = view_event e (unpatched st) \<and> code_table st'"
proof (induction rule: table_step.induct)
  case (program a st v)
  then show ?case
    using fold_restore_store [of a "filter used (bps st)" "soc st" v]
    by (auto simp: unpatched_def code_table_def)
next
  case (arm st a sc)
  then show ?case using bp_insert_unpatched [of st a sc] by auto
qed (simp_all add: bp_remove_unpatched remove_step_bps_unpatched)

lemma table_steps_view:
  "table_steps st es st' \<Longrightarrow> code_table st \<Longrightarrow>
   unpatched st' = fold view_event es (unpatched st) \<and> code_table st'"
  by (induction rule: table_steps.induct) (auto dest: table_step_view)

lemma unpatched_idle: "\<forall>b \<in> set (bps st). \<not> used b \<Longrightarrow> unpatched st = soc st"
  by (simp add: unpatched_def)

lemma debugged_memory:
  assumes "table_steps st es st'" "code_table st"
    and "\<forall>b \<in> set (bps st). \<not> used b" "\<forall>b \<in> set (bps st'). \<not> used b"
  shows "soc st' = fold view_event es (soc st)"
  using table_steps_view [OF assms(1,2)] assms(3,4) by (simp add: unpatched_idle)

text \<open>A halfword that no live slot owns reads the same with the breakpoints planted.\<close>

lemma half_at_restore:
  "slot_wf b \<Longrightarrow> in_ram a \<Longrightarrow> \<not> bit a 0 \<Longrightarrow> a \<notin> footprint b \<Longrightarrow>
   half_at (restore_bp b s) a = half_at s a"
  by (cases "blen b = 2"; cases "a = addr b")
     (auto simp: restore_bp_def slot_wf_def footprint_def half_at_store_half half_at_store_word)

lemma half_at_unpatched:
  assumes "code_table st" "in_ram a" "\<not> bit a 0" "\<forall>b \<in> set (filter used (bps st)). a \<notin> footprint b"
  shows "half_at (unpatched st) a = half_at (soc st) a"
proof -
  have "half_at (fold restore_bp xs s) a = half_at s a"
    if "\<forall>b \<in> set xs. slot_wf b \<and> a \<notin> footprint b" for xs s
    using that by (induction xs arbitrary: s) (simp_all add: half_at_restore assms)
  with assms show ?thesis by (simp add: unpatched_def code_table_def)
qed

section \<open>A 32-bit instruction on a halfword boundary\<close>

lemma bp_insert_straddle:
  assumes wf: "table_wf st" and a: "a \<notin> sw_armed sc st" and room: "card (sw_armed sc st) < sw_cap sc"
    and s: "in_ram a" "\<not> bit a 0" "bit a 1" "long_at (soc st) a"
  obtains k where "slots_start sc \<le> k" "k < slots_end sc" "\<not> used (bps st ! k)"
    "bp_insert a sc st =
       (0, st\<lparr>soc := store Word (soc st) a 0x00100073,
             bps := (bps st)[k := \<lparr>addr = a, orig = ram (soc st) (ram_waddr a), blen = 4, used = True\<rparr>]\<rparr>)"
proof -
  obtain k where k: "first_slot (\<lambda>b. \<not> used b) (bps st) (slots_start sc) (slots_end sc) = Some k"
    using free_slot [OF wf, of sc] room by fastforce
  have d: "first_slot (\<lambda>b. used b \<and> addr b = a) (bps st) (slots_start sc) (slots_end sc) = None"
    using a armed_slot [OF wf] by auto
  show thesis
    by (rule that [of k])
       (use first_slot_Some [OF k] k d s in \<open>simp_all add: bp_insert_def load_half_ram load_word_ram long_at_def\<close>)
qed

lemma straddle_low:
  assumes "bit (a :: u32) 1"
  shows "half_at s (a - 2) = bits 15 0 (ram s (ram_waddr a))"
proof -
  have w: "ram_waddr (a AND NOT 2) = ram_waddr a"
    by (rule word32_eqI) (simp_all add: ram_waddr_def vec_simps)
  have "(a AND NOT 2) + 2 = (a AND NOT 2) OR 2"
    by (rule plus2_or) (simp add: bit_simps)
  also have "\<dots> = a"
    by (rule bit_word_eqI) (use assms in \<open>auto simp: bit_simps\<close>)
  finally have "a - 2 = a AND NOT 2" by (simp add: algebra_simps)
  with w show ?thesis by (simp add: half_at_def LOAD_halfword_def bit_simps)
qed

lemma straddle_stored:
  assumes "in_ram a" "\<not> bit a 0" "bit a 1"
  shows "half_at (store Word s a v) a = bits 15 0 v" "half_at (store Word s a v) (a - 2) = bits 15 0 v"
proof -
  show "half_at (store Word s a v) a = bits 15 0 v"
    using assms by (simp add: half_at_def store_word_misaligned LOAD_halfword_def bits_half del: vcat.simps)
  show "half_at (store Word s a v) (a - 2) = bits 15 0 v"
    unfolding straddle_low [OF assms(3)]
    using assms by (simp add: store_word_misaligned bits_half del: vcat.simps)
qed

lemma straddle_insert_remove:
  assumes wf: "table_wf st" and a: "a \<notin> sw_armed sc st" and room: "card (sw_armed sc st) < sw_cap sc"
    and s: "in_ram a" "\<not> bit a 0" "bit a 1" "long_at (soc st) a"
  shows "half_at (soc (snd (bp_insert a sc st))) (a - 2) = 0x0073"
    and "half_at (soc (snd (bp_remove a sc (snd (bp_insert a sc st))))) a = half_at (soc st) (a - 2)"
proof -
  obtain k where k: "slots_start sc \<le> k" "k < slots_end sc" "\<not> used (bps st ! k)"
    and i: "bp_insert a sc st =
       (0, st\<lparr>soc := store Word (soc st) a 0x00100073,
             bps := (bps st)[k := \<lparr>addr = a, orig = ram (soc st) (ram_waddr a), blen = 4, used = True\<rparr>]\<rparr>)"
    using bp_insert_straddle [OF wf a room s] .
  show "half_at (soc (snd (bp_insert a sc st))) (a - 2) = 0x0073"
    using straddle_stored [OF s(1-3), of "soc st" "0x00100073"]
    by (simp add: i bits_def take_bit_eq_mod)
  show "half_at (soc (snd (bp_remove a sc (snd (bp_insert a sc st))))) a = half_at (soc st) (a - 2)"
    using bp_remove_new [OF wf k _ _ a, of "\<lparr>addr = a, orig = ram (soc st) (ram_waddr a), blen = 4, used = True\<rparr>"]
      straddle_stored [OF s(1-3)] straddle_low [OF s(3)]
    by (simp add: i restore_bp_def)
qed

section \<open>Breakpoints in code\<close>

text \<open>C7: The program's memory is not disturbed by breakpoints. For any interleaving of insertions of
  both kinds at code addresses that do not overlap, of removals, sweeps and writes of the
  program beside the patched code, that starts and ends with no breakpoint set, the system ends
  as if only the program's writes had happened.\<close>

theorem breakpoints_transparent:
  assumes "table_steps st es st'" and "code_table st"
    and "\<forall>b \<in> set (bps st). \<not> used b" and "\<forall>b \<in> set (bps st'). \<not> used b"
  shows "soc st' = fold view_event es (soc st)"
  using assms by (rule debugged_memory)

theorem insert_then_remove:
  assumes "table_wf st" and "code_addr (soc st) a" and "a \<notin> sw_armed sc st"
    and "card (sw_armed sc st) < sw_cap sc"
  shows "\<exists>st'. bp_remove a sc (snd (bp_insert a sc st)) = (0, st') \<and> soc st' = soc st \<and>
    filter used (bps st') = filter used (bps st)"
  using assms by (rule bp_insert_then_remove)

theorem insert_plants:
  assumes "table_wf st" and "code_addr (soc st) a" and "a \<notin> sw_armed sc st"
    and "card (sw_armed sc st) < sw_cap sc" and "in_ram b" and "\<not> bit b 0"
  shows "fst (bp_insert a sc st) = 0 \<and> half_at (soc (snd (bp_insert a sc st))) b =
    (if b = a then (if long_at (soc st) a then 0x0073 else 0x9002)
     else if long_at (soc st) a \<and> b = a + 2 then 0x0010 else half_at (soc st) b)"
  by (rule bp_insert_code [OF assms(1,3,4,2)]) (simp add: patched_half_at [OF assms(2,5,6)])

lemma insert_plants_witness:
  "half_at (soc (snd (bp_insert 0x108 False (sample_stub [])))) 0x108 = 0x9002 \<and>
   half_at (soc (snd (bp_insert 0x108 False (sample_stub [])))) 0x10a = 0x0013"
proof -
  have "code_addr (sample_soc []) 0x108" "\<not> long_at (sample_soc []) 0x108" "half_at (sample_soc []) 0x10a = 0x0013"
    by code_simp+
  then show ?thesis
    using insert_plants [of "sample_stub []" "0x108" False "0x108"] insert_plants [of "sample_stub []" "0x108" False "0x10a"]
    by (simp add: sw_cap_def in_ram_def)
qed

lemma insert_then_remove_witness:
  "\<exists>st'. bp_remove 0x104 False (snd (bp_insert 0x104 False (sample_stub []))) = (0, st') \<and> soc st' = sample_soc []"
proof -
  have "code_addr (sample_soc []) 0x104" by code_simp
  then show ?thesis using insert_then_remove [of "sample_stub []" "0x104" False] by (auto simp: sw_cap_def)
qed

lemma breakpoints_transparent_witness:
  "soc (remove_step_bps ((snd (bp_insert 0x100 True (sample_stub [])))
     \<lparr>soc := store Half (soc (snd (bp_insert 0x100 True (sample_stub [])))) 0x108 0x4501\<rparr>)) =
   store Half (sample_soc []) 0x108 0x4501"
proof -
  let ?st = "sample_stub []"
  let ?st1 = "snd (bp_insert 0x100 True ?st)"
  let ?st2 = "?st1\<lparr>soc := store Half (soc ?st1) 0x108 0x4501\<rparr>"
  have c: "code_addr (soc ?st) 0x100" by code_simp
  have ct: "code_table ?st" by (simp add: code_table_def NBP_def pairwise_def)
  have "list_all (\<lambda>b. 0x108 \<notin> footprint b) (filter used (bps ?st1)) \<and> list_all (\<lambda>b. \<not> used b) (bps (remove_step_bps ?st2))"
    by code_simp
  then have f: "\<forall>b \<in> set (filter used (bps ?st1)). 0x108 \<notin> footprint b"
    and e: "\<forall>b \<in> set (bps (remove_step_bps ?st2)). \<not> used b" by (simp_all add: list_all_iff)
  have a: "table_step ?st (Arm True 0x100) ?st1" and w: "table_step ?st1 (Write 0x108 0x4501) ?st2"
    using table_step.arm [OF c, of True] table_step.program [OF _ _ f] by (simp_all add: clear_of_def NBP_def in_ram_def)
  from table_steps.more [OF a table_steps.more [OF w table_steps.more [OF table_step.sweep table_steps.none]]]
  have "table_steps ?st [Arm True 0x100, Write 0x108 0x4501, Sweep] (remove_step_bps ?st2)" .
  from breakpoints_transparent [OF this ct _ e] show ?thesis by (simp add: NBP_def)
qed

text \<open>C38: A breakpoint on a 32-bit instruction that is not word aligned corrupts the program: the
  32-bit store goes to the containing word, so the halfword before the instruction becomes the
  low half of ebreak, and removing the breakpoint leaves a copy of that halfword in place of the
  instruction's first half.\<close>

theorem straddling_breakpoint:
  assumes "table_wf st" and "a \<notin> sw_armed sc st" and "card (sw_armed sc st) < sw_cap sc"
    and "in_ram a" and "\<not> bit a 0" and "bit a 1" and "long_at (soc st) a"
  shows "half_at (soc (snd (bp_insert a sc st))) (a - 2) = 0x0073 \<and>
    half_at (soc (snd (bp_remove a sc (snd (bp_insert a sc st))))) a = half_at (soc st) (a - 2)"
  using straddle_insert_remove [OF assms] by simp

lemma straddling_breakpoint_witness:
  "half_at (sample_soc []) 0x10a = 0x0013 \<and> half_at (sample_soc []) 0x108 = 0x0001 \<and>
   half_at (soc (snd (bp_insert 0x10a False (sample_stub [])))) 0x108 = 0x0073 \<and>
   half_at (soc (snd (bp_remove 0x10a False (snd (bp_insert 0x10a False (sample_stub [])))))) 0x10a = 0x0001"
proof -
  have h: "half_at (sample_soc []) 0x10a = 0x0013" "half_at (sample_soc []) 0x108 = 0x0001" "long_at (sample_soc []) 0x10a"
    by code_simp+
  moreover have "bit (0x10a :: u32) 1" "\<not> bit (0x10a :: u32) 0" by (simp_all add: bit_simps)
  ultimately show ?thesis
    using straddling_breakpoint [of "sample_stub []" "0x10a" False] by (simp add: sw_cap_def in_ram_def)
qed

end
