(* ===== verification/Hw_Breakpoints.thy ===== *)
theory Hw_Breakpoints
  imports Sample_States Breakpoint_Unit
begin

text \<open>
  The hardware breakpoint commands of sw/gdb_stub.c: \<open>hw_bp_insert\<close>, \<open>hw_bp_remove\<close> and
  \<open>hw_bp_clear_hits\<close>, which drive the registers of rtl/hw_bkpt.v through the bus. The core's loads of
  these registers read zero, \<open>BP_COUNT\<close> too, so the driver sees a unit without places: it implements
  the bounded set of theory Breakpoint_Unit of size zero.
\<close>

section \<open>Operations\<close>

definition BP_BASE :: u32 where "BP_BASE = IO_BASE + 0x20"
definition BP_CTRL :: u32 where "BP_CTRL = BP_BASE + 0x00"
definition BP_HIT :: u32 where "BP_HIT = BP_BASE + 0x04"
definition BP_COUNT :: u32 where "BP_COUNT = BP_BASE + 0x08"
definition BP_ADDR :: "nat \<Rightarrow> u32" where "BP_ADDR i = BP_BASE + 0x10 + word_of_nat i * 4"

text \<open>The loop \<open>for (i = 0; i < n; i++) if ((ctrl & (1u << i)) && BP_ADDR(i) == addr) ...\<close>: the
  index it stops at. The first argument counts the iterations left.\<close>

fun hw_find :: "nat \<Rightarrow> nat \<Rightarrow> u32 \<Rightarrow> u32 \<Rightarrow> soc \<Rightarrow> nat option \<times> soc" where
  "hw_find 0 i ctrl a s = (None, s)"
| "hw_find (Suc n) i ctrl a s =
     (if ctrl AND push_bit i 1 \<noteq> 0
      then (let (v, s1) = load Word s (BP_ADDR i)
            in if v = a then (Some i, s1) else hw_find n (i + 1) ctrl a s1)
      else hw_find n (i + 1) ctrl a s)"

definition hw_bp_insert :: "u32 \<Rightarrow> soc \<Rightarrow> int \<times> soc" where
  "hw_bp_insert a s =
     (let (n, s1) = load Word s BP_COUNT;
          (ctrl, s2) = load Word s1 BP_CTRL
      in case hw_find (unat n) 0 ctrl a s2 of
           (Some _, s3) \<Rightarrow> (0, s3)
         | (None, s3) \<Rightarrow>
             (case List.find (\<lambda>i. ctrl AND push_bit i 1 = 0) [0..<unat n] of
                Some i \<Rightarrow>
                  (0, store Word (store Word s3 (BP_ADDR i) a) BP_CTRL (ctrl OR push_bit i 1))
              | None \<Rightarrow> (- 1, s3)))"

definition hw_bp_remove :: "u32 \<Rightarrow> soc \<Rightarrow> int \<times> soc" where
  "hw_bp_remove a s =
     (let (n, s1) = load Word s BP_COUNT;
          (ctrl, s2) = load Word s1 BP_CTRL
      in case hw_find (unat n) 0 ctrl a s2 of
           (Some i, s3) \<Rightarrow>
             (0, store Word (store Word s3 BP_CTRL (ctrl AND NOT (push_bit i 1))) BP_HIT (push_bit i 1))
         | (None, s3) \<Rightarrow> (- 1, s3))"

definition hw_bp_clear_hits :: "soc \<Rightarrow> soc" where
  "hw_bp_clear_hits s = (let (h, s1) = load Word s BP_HIT in store Word s1 BP_HIT h)"

section \<open>The registers behind the addresses\<close>

lemma less4: "i < (4::nat) \<longleftrightarrow> i = 0 \<or> i = 1 \<or> i = 2 \<or> i = 3"
  by arith

lemmas bp_regs = BP_CTRL_def BP_HIT_def BP_COUNT_def BP_ADDR_def BP_BASE_def IO_BASE_def

lemma load_bp:
  "load Word s BP_CTRL = (0, s)" "load Word s BP_HIT = (0, s)" "load Word s BP_COUNT = (0, s)"
  by (simp_all add: io_decode bp_regs hw_bkpt_rd_def Let_def)

lemma mem_wdata_word:
  assumes "\<not> bit a 0" "\<not> bit a 1"
  shows "mem_wdata a v = v"
  using assms by (simp add: mem_wdata_def four_bytes del: vcat.simps)

lemma store_bp:
  "store Word s BP_CTRL v = s\<lparr>bkpt := (bkpt s)\<lparr>bp_en := ucast v\<rparr>\<rparr>"
  "store Word s BP_HIT v = s\<lparr>bkpt := (bkpt s)\<lparr>bp_hit := bp_hit (bkpt s) AND NOT (ucast v)\<rparr>\<rparr>"
  by (simp_all add: io_decode bp_regs hw_bkpt_wr_def mem_wdata_word Let_def)

section \<open>The driver on this SoC\<close>

lemma hw_insert_refused: "hw_bp_insert a s = (- 1, s)"
  by (simp add: hw_bp_insert_def load_bp)

lemma hw_remove_refused: "hw_bp_remove a s = (- 1, s)"
  by (simp add: hw_bp_remove_def load_bp)

lemma clear_hits [bus_simps]: "hw_bp_clear_hits s = s"
  by (simp add: hw_bp_clear_hits_def load_bp store_bp)

interpretation hw_unit: breakpoint_unit hw_bp_insert hw_bp_remove "\<lambda>s. {}" 0 "\<lambda>a. True" "\<lambda>s. True"
  by unfold_locales (simp_all add: hw_insert_refused hw_remove_refused)

lemma hw_request_refused: "unit_request hw_bp_insert hw_bp_remove r s = (- 1, s)"
  by (cases r) (simp_all add: hw_insert_refused hw_remove_refused)

theorem hw_requests_refused:
  "unit_requests hw_bp_insert hw_bp_remove rs s = (replicate (length rs) (- 1), s)"
  by (induction rs) (simp_all add: hw_request_refused)

section \<open>The comparators\<close>

definition hw_armed :: "soc \<Rightarrow> u32 set" where
  "hw_armed s = {ucast (bp_addr (bkpt s) i) | i. i < 4 \<and> bit (bp_en (bkpt s)) i}"

lemma ucast14_back: "ucast (ucast (x::14 word) :: u32) = x"
  by (rule bit_word_eqI) (simp add: bit_simps)

lemma ucast14_eq: "ucast (x::14 word) = (ucast y :: u32) \<longleftrightarrow> x = y"
  by (metis ucast14_back)

lemma sample_hw: "hw_armed (sample_soc bs) = {0x108}"
  by (auto simp: hw_armed_def sample_bkpt_def less4)

lemma bit_bp_match: "bit (bp_match b pc) i \<longleftrightarrow> i < 4 \<and> bit (bp_en b) i \<and> pc = bp_addr b i"
  by (auto simp: bp_match_def bit_simps less4)

lemma bp_match_nonzero: "bp_match b pc \<noteq> 0 \<longleftrightarrow> (\<exists>i < 4. bit (bp_en b) i \<and> pc = bp_addr b i)"
  using bit_bp_match [of b pc] by (auto simp: bit_eq_iff)

lemma hw_bkpt_wr_halt: "halt_req (hw_bkpt_wr b r w) = halt_req b"
  by (simp add: hw_bkpt_wr_def)

theorem hw_halts:
  "(halt_req (hw_bkpt_clk (bkpt s) True pc sel reg_addr wdata wmask) \<longleftrightarrow> ucast pc \<in> hw_armed s) \<and>
   (\<forall>i < 4. bit (bp_hit (hw_bkpt_clk (bkpt s) True pc False reg_addr wdata wmask)) i \<longleftrightarrow>
      bit (bp_hit (bkpt s)) i \<or> bit (bp_en (bkpt s)) i \<and> pc = bp_addr (bkpt s) i)"
  by (auto simp: hw_bkpt_clk_def hw_bkpt_wr_halt bp_match_nonzero hw_armed_def ucast14_eq bit_simps bit_bp_match Let_def)

lemma hw_halts_witness:
  "halt_req (hw_bkpt_clk sample_bkpt True 0x108 False 0 0 0) \<and>
   \<not> halt_req (hw_bkpt_clk sample_bkpt True 0x10a False 0 0 0) \<and>
   bit (bp_hit (hw_bkpt_clk sample_bkpt True 0x108 False 0 0 0)) 1"
  using hw_halts [of "sample_soc []" "0x108" False 0 0 0] hw_halts [of "sample_soc []" "0x10a" False 0 0 0]
  by (auto simp: sample_hw sample_bkpt_def)

end
