(* ===== verification/Core_Decode.thy ===== *)
theory Core_Decode
  imports Soc_Bus
begin

text \<open>
  The part of the core (rtl/attorv32.v, \<open>ADDR_WIDTH = 14\<close>) that decides where execution goes
  next: the unaligned fetch, the RVC decompressor, the immediate decoder, the branch predicate
  and the \<open>PC_new\<close> multiplexer. This is the reference against which the stub's prediction of
  the successor addresses is proved (theory Next_Pc).
\<close>

section \<open>Fetch\<close>

text \<open>What the decompressor sees once the fetch is complete: the word around \<open>PC\<close>, or its upper
  half under the lower half of the next word.\<close>

definition decomp_input :: "soc \<Rightarrow> u32 \<Rightarrow> u32" where
  "decomp_input s pc =
     (if bit pc 1 then vcat [(16, bits 15 0 (ram s (ram_waddr (pc + 4)))),
                             (16, bits 31 16 (ram s (ram_waddr pc)))]
      else ram s (ram_waddr pc))"

definition long_instr :: "u32 \<Rightarrow> bool" where
  "long_instr c \<longleftrightarrow> bits 1 0 c = 3"

section \<open>RVC decompressor\<close>

definition rcl :: "u32 \<Rightarrow> u32" where "rcl c = vcat [(2, 1), (3, bits 4 2 c)]"
definition rch :: "u32 \<Rightarrow> u32" where "rch c = vcat [(2, 1), (3, bits 9 7 c)]"
definition rwl :: "u32 \<Rightarrow> u32" where "rwl c = bits 6 2 c"
definition rwh :: "u32 \<Rightarrow> u32" where "rwh c = bits 11 7 c"
definition shiftImm :: "u32 \<Rightarrow> u32" where "shiftImm c = bits 6 2 c"

definition addi4spnImm :: "u32 \<Rightarrow> u32" where
  "addi4spnImm c =
     vcat [(2, 0), (4, bits 10 7 c), (2, bits 12 11 c), (1, bits 5 5 c), (1, bits 6 6 c), (2, 0)]"

definition lwswImm :: "u32 \<Rightarrow> u32" where
  "lwswImm c = vcat [(5, 0), (1, bits 5 5 c), (3, bits 12 10 c), (1, bits 6 6 c), (2, 0)]"

definition lwspImm :: "u32 \<Rightarrow> u32" where
  "lwspImm c = vcat [(4, 0), (2, bits 3 2 c), (1, bits 12 12 c), (3, bits 6 4 c), (2, 0)]"

definition swspImm :: "u32 \<Rightarrow> u32" where
  "swspImm c = vcat [(4, 0), (2, bits 8 7 c), (4, bits 12 9 c), (2, 0)]"

definition addi16spImm :: "u32 \<Rightarrow> u32" where
  "addi16spImm c =
     vcat [(3, rep 3 (bit c 12)), (2, bits 4 3 c), (1, bits 5 5 c), (1, bits 2 2 c), (1, bits 6 6 c), (4, 0)]"

definition addImm :: "u32 \<Rightarrow> u32" where
  "addImm c = vcat [(7, rep 7 (bit c 12)), (5, bits 6 2 c)]"

definition bImm :: "u32 \<Rightarrow> u32" where
  "bImm c =
     vcat [(5, rep 5 (bit c 12)), (2, bits 6 5 c), (1, bits 2 2 c), (2, bits 11 10 c), (2, bits 4 3 c), (1, 0)]"

definition jalImm :: "u32 \<Rightarrow> u32" where
  "jalImm c =
     vcat [(10, rep 10 (bit c 12)), (1, bits 8 8 c), (2, bits 10 9 c), (1, bits 6 6 c), (1, bits 7 7 c),
           (1, bits 2 2 c), (1, bits 11 11 c), (3, bits 5 3 c), (1, 0)]"

definition luiImm :: "u32 \<Rightarrow> u32" where
  "luiImm c = vcat [(15, rep 15 (bit c 12)), (5, bits 6 2 c), (12, 0)]"

text \<open>The fields the case patterns test.\<close>

definition c_op :: "u32 \<Rightarrow> u32" where "c_op c = bits 1 0 c"
definition c_f3 :: "u32 \<Rightarrow> u32" where "c_f3 c = bits 15 13 c"

definition c_jal :: "u32 \<Rightarrow> u32 \<Rightarrow> u32" where
  "c_jal c rd = vcat [(1, bits 20 20 (jalImm c)), (10, bits 10 1 (jalImm c)), (1, bits 11 11 (jalImm c)),
     (8, bits 19 12 (jalImm c)), (5, rd), (7, 0x6F)]"

definition c_branch :: "u32 \<Rightarrow> u32 \<Rightarrow> u32" where
  "c_branch c f3 = vcat [(1, bits 12 12 (bImm c)), (6, bits 10 5 (bImm c)), (5, 0), (5, rch c), (3, f3),
     (4, bits 4 1 (bImm c)), (1, bits 11 11 (bImm c)), (7, 0x63)]"

definition decompress_q0 :: "u32 \<Rightarrow> u32" where
  "decompress_q0 c =
     (if c_f3 c = 0 \<and> bits 12 2 c = 0 then 0
      else if c_f3 c = 0 then vcat [(12, addi4spnImm c), (5, 2), (3, 0), (5, rcl c), (7, 0x13)]
      else if c_f3 c = 2 then vcat [(12, lwswImm c), (5, rch c), (3, 2), (5, rcl c), (7, 0x03)]
      else if c_f3 c = 6
        then vcat [(7, bits 11 5 (lwswImm c)), (5, rcl c), (5, rch c), (3, 2), (5, bits 4 0 (lwswImm c)), (7, 0x23)]
      else 0)"

definition decompress_q1_alu :: "u32 \<Rightarrow> u32" where
  "decompress_q1_alu c =
     (if bits 11 10 c = 0 then vcat [(7, 0), (5, shiftImm c), (5, rch c), (3, 5), (5, rch c), (7, 0x13)]
      else if bits 11 10 c = 1 then vcat [(7, 0x20), (5, shiftImm c), (5, rch c), (3, 5), (5, rch c), (7, 0x13)]
      else if bits 11 10 c = 2 then vcat [(12, addImm c), (5, rch c), (3, 7), (5, rch c), (7, 0x13)]
      else if bits 12 10 c = 3 \<and> bits 6 5 c = 0
        then vcat [(7, 0x20), (5, rcl c), (5, rch c), (3, 0), (5, rch c), (7, 0x33)]
      else if bits 12 10 c = 3 \<and> bits 6 5 c = 1
        then vcat [(7, 0), (5, rcl c), (5, rch c), (3, 4), (5, rch c), (7, 0x33)]
      else if bits 12 10 c = 3 \<and> bits 6 5 c = 2
        then vcat [(7, 0), (5, rcl c), (5, rch c), (3, 6), (5, rch c), (7, 0x33)]
      else if bits 12 10 c = 3 \<and> bits 6 5 c = 3
        then vcat [(7, 0), (5, rcl c), (5, rch c), (3, 7), (5, rch c), (7, 0x33)]
      else 0)"

definition decompress_q1 :: "u32 \<Rightarrow> u32" where
  "decompress_q1 c =
     (if c_f3 c = 0 then vcat [(12, addImm c), (5, rwh c), (3, 0), (5, rwh c), (7, 0x13)]
      else if c_f3 c = 1 then c_jal c 1
      else if c_f3 c = 2 then vcat [(12, addImm c), (5, 0), (3, 0), (5, rwh c), (7, 0x13)]
      else if c_f3 c = 3 \<and> rwh c = 2
        then vcat [(12, addi16spImm c), (5, rwh c), (3, 0), (5, rwh c), (7, 0x13)]
      else if c_f3 c = 3 then vcat [(20, bits 31 12 (luiImm c)), (5, rwh c), (7, 0x37)]
      else if c_f3 c = 4 then decompress_q1_alu c
      else if c_f3 c = 5 then c_jal c 0
      else if c_f3 c = 6 then c_branch c 0
      else c_branch c 1)"

definition decompress_q2 :: "u32 \<Rightarrow> u32" where
  "decompress_q2 c =
     (if c_f3 c = 0 then vcat [(7, 0), (5, shiftImm c), (5, rwh c), (3, 1), (5, rwh c), (7, 0x13)]
      else if c_f3 c = 2 then vcat [(12, lwspImm c), (5, 2), (3, 2), (5, rwh c), (7, 0x03)]
      else if c_f3 c = 4 \<and> \<not> bit c 12 \<and> rwl c = 0 then vcat [(12, 0), (5, rwh c), (3, 0), (5, 0), (7, 0x67)]
      else if c_f3 c = 4 \<and> \<not> bit c 12 then vcat [(7, 0), (5, rwl c), (5, 0), (3, 0), (5, rwh c), (7, 0x33)]
      else if c_f3 c = 4 \<and> rwh c = 0 \<and> rwl c = 0 then 0x00100073
      else if c_f3 c = 4 \<and> rwl c = 0 then vcat [(12, 0), (5, rwh c), (3, 0), (5, 1), (7, 0x67)]
      else if c_f3 c = 4 then vcat [(7, 0), (5, rwl c), (5, rwh c), (3, 0), (5, rwh c), (7, 0x33)]
      else if c_f3 c = 6
        then vcat [(7, bits 11 5 (swspImm c)), (5, rwl c), (5, 2), (3, 2), (5, bits 4 0 (swspImm c)), (7, 0x23)]
      else 0)"

definition decompressor :: "u32 \<Rightarrow> u32" where
  "decompressor c =
     (if c_op c = 3 then c
      else if c_op c = 0 then decompress_q0 c
      else if c_op c = 1 then decompress_q1 c
      else decompress_q2 c)"

section \<open>Decode\<close>

definition Uimm :: "u32 \<Rightarrow> u32" where
  "Uimm instr = vcat [(1, bits 31 31 instr), (19, bits 30 12 instr), (12, 0)]"

definition Iimm :: "u32 \<Rightarrow> u32" where
  "Iimm instr = vcat [(21, rep 21 (bit instr 31)), (11, bits 30 20 instr)]"

definition Bimm :: "u32 \<Rightarrow> u32" where
  "Bimm instr = vcat [(20, rep 20 (bit instr 31)), (1, bits 7 7 instr), (6, bits 30 25 instr),
     (4, bits 11 8 instr), (1, 0)]"

definition Jimm :: "u32 \<Rightarrow> u32" where
  "Jimm instr = vcat [(12, rep 12 (bit instr 31)), (8, bits 19 12 instr), (1, bits 20 20 instr),
     (10, bits 30 21 instr), (1, 0)]"

definition opcode5 :: "u32 \<Rightarrow> u32" where "opcode5 instr = bits 6 2 instr"
definition isBranch :: "u32 \<Rightarrow> bool" where "isBranch instr \<longleftrightarrow> opcode5 instr = 24"
definition isJALR :: "u32 \<Rightarrow> bool" where "isJALR instr \<longleftrightarrow> opcode5 instr = 25"
definition isJAL :: "u32 \<Rightarrow> bool" where "isJAL instr \<longleftrightarrow> opcode5 instr = 27"
definition isALUreg :: "u32 \<Rightarrow> bool" where "isALUreg instr \<longleftrightarrow> opcode5 instr = 12"
definition isSYSTEM :: "u32 \<Rightarrow> bool" where "isSYSTEM instr \<longleftrightarrow> opcode5 instr = 28"

definition funct3 :: "u32 \<Rightarrow> u32" where "funct3 instr = bits 14 12 instr"
definition rs1Id :: "u32 \<Rightarrow> nat" where "rs1Id d = unat (bits 19 15 d)"
definition rs2Id :: "u32 \<Rightarrow> nat" where "rs2Id d = unat (bits 24 20 d)"

definition is_mret :: "u32 \<Rightarrow> bool" where
  "is_mret instr \<longleftrightarrow> isSYSTEM instr \<and> funct3 instr = 0 \<and> bits 31 20 instr = 0x302"

definition is_wfi :: "u32 \<Rightarrow> bool" where
  "is_wfi instr \<longleftrightarrow> isSYSTEM instr \<and> funct3 instr = 0 \<and> bits 31 20 instr = 0x105"

definition is_env_trap :: "u32 \<Rightarrow> bool" where
  "is_env_trap instr \<longleftrightarrow> isSYSTEM instr \<and> funct3 instr = 0 \<and> \<not> is_mret instr \<and> \<not> is_wfi instr"

definition is_ecall :: "u32 \<Rightarrow> bool" where
  "is_ecall instr \<longleftrightarrow> is_env_trap instr \<and> \<not> bit instr 20"

definition aluIn2 :: "u32 \<Rightarrow> u32 \<Rightarrow> u32" where
  "aluIn2 instr rs2 = (if isALUreg instr \<or> isBranch instr then rs2 else Iimm instr)"

definition aluPlus :: "u32 \<Rightarrow> u32 \<Rightarrow> u32 \<Rightarrow> u32" where
  "aluPlus instr rs1 rs2 = rs1 + aluIn2 instr rs2"

definition aluMinus :: "u32 \<Rightarrow> u32 \<Rightarrow> 33 word" where
  "aluMinus a b = (2 ^ 32 OR ucast (NOT b)) + ucast a + 1"

definition LTU :: "u32 \<Rightarrow> u32 \<Rightarrow> bool" where "LTU a b \<longleftrightarrow> bit (aluMinus a b) 32"

definition LT :: "u32 \<Rightarrow> u32 \<Rightarrow> bool" where
  "LT a b = (if bit a 31 \<noteq> bit b 31 then bit a 31 else bit (aluMinus a b) 32)"

definition EQ :: "u32 \<Rightarrow> u32 \<Rightarrow> bool" where
  "EQ a b \<longleftrightarrow> (ucast (aluMinus a b) :: u32) = 0"

definition predicate :: "u32 \<Rightarrow> u32 \<Rightarrow> u32 \<Rightarrow> bool" where
  "predicate instr rs1 rs2 =
     (let b = aluIn2 instr rs2; f = funct3 instr
      in f = 0 \<and> EQ rs1 b \<or> f = 1 \<and> \<not> EQ rs1 b \<or> f = 4 \<and> LT rs1 b \<or> f = 5 \<and> \<not> LT rs1 b
         \<or> f = 6 \<and> LTU rs1 b \<or> f = 7 \<and> \<not> LTU rs1 b)"

section \<open>The next program counter\<close>

definition PCinc :: "14 word \<Rightarrow> bool \<Rightarrow> 14 word" where
  "PCinc PC long = (if long then PC + 4 else PC + 2)"

definition PCplusImm :: "14 word \<Rightarrow> u32 \<Rightarrow> 14 word" where
  "PCplusImm PC instr =
     PC + ucast (if bit instr 3 then Jimm instr else if bit instr 4 then Uimm instr else Bimm instr)"

definition PC_new :: "14 word \<Rightarrow> bool \<Rightarrow> u32 \<Rightarrow> u32 \<Rightarrow> u32 \<Rightarrow> 14 word \<Rightarrow> 14 word" where
  "PC_new PC long instr rs1 rs2 mepc =
     (if isJALR instr then ucast (aluPlus instr rs1 rs2 AND NOT 1)
      else if isJAL instr \<or> isBranch instr \<and> predicate instr rs1 rs2 then PCplusImm PC instr
      else if is_mret instr then mepc
      else PCinc PC long)"

text \<open>One instruction of the core with the given registers: what the multiplexer gives, and where the core
  goes outside a handler, an ecall or ebreak to the trap vector.\<close>

definition pc_new_at :: "soc \<Rightarrow> (nat \<Rightarrow> u32) \<Rightarrow> 14 word \<Rightarrow> 14 word \<Rightarrow> 14 word" where
  "pc_new_at s registerFile mepc PC =
     (let c = decomp_input s (ucast PC); d = decompressor c
      in PC_new PC (long_instr c) d (registerFile (rs1Id d)) (registerFile (rs2Id d)) mepc)"

definition core_next :: "14 word \<Rightarrow> soc \<Rightarrow> (nat \<Rightarrow> u32) \<Rightarrow> 14 word \<Rightarrow> 14 word \<Rightarrow> 14 word" where
  "core_next mtvec s registerFile mepc PC =
     (if is_env_trap (decompressor (decomp_input s (ucast PC))) then mtvec else pc_new_at s registerFile mepc PC)"

section \<open>The comparator\<close>

text \<open>The 33-bit subtraction gives the comparisons that the branch instructions are defined by.\<close>

lemma ucast33_diff: "b \<le> a \<Longrightarrow> (ucast (a - b :: u32) :: 33 word) = ucast a - ucast b"
proof -
  assume "b \<le> a"
  then have "unat (a - b) = unat a - unat b" "unat b \<le> unat a"
    by (simp_all add: unat_sub word_le_nat_alt)
  then have "(word_of_nat (unat (a - b)) :: 33 word) = word_of_nat (unat a) - word_of_nat (unat b)"
    by (simp only: of_nat_diff)
  then show ?thesis by simp
qed

lemma aluMinus_diff: "aluMinus a b = ucast a - ucast b"
proof -
  have "(2 ^ 32 OR ucast (NOT b) :: 33 word) = 2 ^ 32 + ucast (NOT b)"
    by (rule disjunctive_add [symmetric]) (auto simp: bit_simps simp del: power_numeral)
  moreover have "(ucast (NOT b) :: 33 word) = ucast (- 1 :: u32) - ucast b"
  proof -
    have "NOT b = - 1 - b" by (simp add: not_eq_complement)
    then show ?thesis by (simp only: ucast33_diff word_order.extremum)
  qed
  moreover have "(ucast (- 1 :: u32) :: 33 word) = 2 ^ 32 - 1" by code_simp
  ultimately show ?thesis by (simp add: aluMinus_def)
qed

lemma aluMinus_cases:
  "aluMinus a b = (if b \<le> a then ucast (a - b) else NOT (ucast (b - a - 1)))"
proof (cases "b \<le> a")
  case False
  then have ab: "a \<le> b" "1 \<le> b - a" by (simp_all add: word_le_nat_alt unat_sub)
  then have "(ucast (b - a - 1) :: 33 word) = ucast b - ucast a - 1"
    by (simp add: ucast33_diff)
  then show ?thesis using False by (simp add: aluMinus_diff not_eq_complement)
qed (simp add: aluMinus_diff ucast33_diff)

lemma LTU_less: "LTU a b \<longleftrightarrow> a < b"
proof -
  have "\<not> bit (w::u32) 32" for w using impossible_bit [of 32 w] by simp
  then show ?thesis by (auto simp: LTU_def aluMinus_cases bit_simps)
qed

lemma EQ_eq: "EQ a b \<longleftrightarrow> a = b"
proof -
  have "(ucast (ucast x :: 33 word) :: u32) = x" "(ucast (NOT (ucast x :: 33 word)) :: u32) = NOT x"
    for x :: u32
    by (rule bit_word_eqI; simp add: bit_simps)+
  then have "(ucast (aluMinus a b) :: u32) = a - b"
    by (simp add: aluMinus_cases not_eq_complement)
  then show ?thesis by (simp add: EQ_def)
qed

lemma sint_top: "sint (a::u32) = uint a - 2 ^ 32 * of_bool (bit a 31)"
proof -
  have "take_bit 32 (uint a) = uint a"
    using unsigned_less [of a, where ?'a = int] by (simp add: take_bit_int_eq_self)
  then show ?thesis by (simp add: sint_uint signed_take_bit_eq_take_bit_minus bit_uint_iff)
qed

lemma LT_less: "LT a b \<longleftrightarrow> sint a < sint b"
proof -
  have "0 \<le> uint a" "0 \<le> uint b" "uint a < 2 ^ 32" "uint b < 2 ^ 32"
    using unsigned_less [of a, where ?'a = int] unsigned_less [of b, where ?'a = int] by simp_all
  then show ?thesis using LTU_less [of a b] unfolding LT_def LTU_def [symmetric] sint_top word_less_def
    by (cases "bit a 31"; cases "bit b 31"; simp; linarith)
qed

theorem branch_comparator:
  assumes "isBranch instr"
  shows "predicate instr rs1 rs2 \<longleftrightarrow>
    (if funct3 instr = 0 then rs1 = rs2 else if funct3 instr = 1 then rs1 \<noteq> rs2
     else if funct3 instr = 4 then sint rs1 < sint rs2 else if funct3 instr = 5 then sint rs2 \<le> sint rs1
     else if funct3 instr = 6 then rs1 < rs2 else if funct3 instr = 7 then rs2 \<le> rs1 else False)"
  using assms by (simp add: predicate_def aluIn2_def EQ_eq LT_less LTU_less Let_def not_less)

lemma branch_comparator_witness:
  "predicate 0x00a5c463 (- 1) 0 \<and> \<not> predicate 0x00a5e463 (- 1) 0"
proof -
  have "isBranch 0x00a5c463" "funct3 0x00a5c463 = 4" "isBranch 0x00a5e463" "funct3 0x00a5e463 = 6" by code_simp+
  then show ?thesis
    using branch_comparator [of "0x00a5c463" "- 1" 0] branch_comparator [of "0x00a5e463" "- 1" 0] by simp
qed

end
