(* ===== verification/Next_Pc.thy ===== *)
theory Next_Pc
  imports Core_Decode Stub_State
begin

text \<open>
  \<open>sext\<close> and \<open>next_pcs\<close> of sw/gdb_stub.c: the successor addresses that the single step plants
  its breakpoints on. The C code decodes the compressed and the full encodings by itself; the
  lemmas compare it field by field with the core's own path (decompressor, immediates, \<open>PC_new\<close>,
  theory Core_Decode), down to the theorem that the address the core goes to is one of those
  predicted.
\<close>

section \<open>Operations\<close>

definition sext :: "u32 \<Rightarrow> nat \<Rightarrow> u32" where
  "sext val b = (let m = push_bit b 1 in (val XOR m) - m)"

definition jal_imm :: "u32 \<Rightarrow> u32" where
  "jal_imm instr =
     sext (push_bit 20 (drop_bit 31 instr) OR push_bit 1 (drop_bit 21 instr AND 0x3FF) OR
           push_bit 11 (drop_bit 20 instr AND 1) OR push_bit 12 (drop_bit 12 instr AND 0xFF)) 20"

definition branch_imm :: "u32 \<Rightarrow> u32" where
  "branch_imm instr =
     sext (push_bit 12 (drop_bit 31 instr) OR push_bit 5 (drop_bit 25 instr AND 0x3F) OR
           push_bit 1 (drop_bit 8 instr AND 0xF) OR push_bit 11 (drop_bit 7 instr AND 1)) 12"

definition cj_imm :: "u32 \<Rightarrow> u32" where
  "cj_imm hw =
     sext (push_bit 11 (drop_bit 12 hw AND 1) OR push_bit 4 (drop_bit 11 hw AND 1) OR
           push_bit 8 (drop_bit 9 hw AND 3) OR push_bit 10 (drop_bit 8 hw AND 1) OR
           push_bit 6 (drop_bit 7 hw AND 1) OR push_bit 7 (drop_bit 6 hw AND 1) OR
           push_bit 1 (drop_bit 3 hw AND 7) OR push_bit 5 (drop_bit 2 hw AND 1)) 11"

definition cb_imm :: "u32 \<Rightarrow> u32" where
  "cb_imm hw =
     sext (push_bit 8 (drop_bit 12 hw AND 1) OR push_bit 3 (drop_bit 10 hw AND 3) OR
           push_bit 6 (drop_bit 5 hw AND 3) OR push_bit 1 (drop_bit 3 hw AND 3) OR
           push_bit 5 (drop_bit 2 hw AND 1)) 8"

text \<open>The successor addresses that the code puts into \<open>out\<close>.\<close>

definition next_pcs :: "u32 \<Rightarrow> stub \<Rightarrow> u32 list \<times> stub" where
  "next_pcs pc st =
     (let (hw, s1) = load Half (soc st) pc
      in if hw AND 0x3 = 0x3
         then (let (instr, s2) = load Word s1 pc;
                   opcode = instr AND 0x7F;
                   st2 = st\<lparr>soc := s2\<rparr>
               in if opcode = 0x6F then ([pc + jal_imm instr], st2)
                  else if opcode = 0x67
                    then (let imm = sext (drop_bit 20 instr) 11;
                              rs1 = drop_bit 15 instr AND 0x1F
                          in ([(g_regs st (unat rs1) + imm) AND NOT 1], st2))
                  else if opcode = 0x63 then ([pc + 4, pc + branch_imm instr], st2)
                  else ([pc + 4], st2))
         else (let op = hw AND 0x3;
                   func = drop_bit 13 hw AND 0x7;
                   st1 = st\<lparr>soc := s1\<rparr>
               in if op = 1 \<and> func = 5 then ([pc + cj_imm hw], st1)
                  else if op = 1 \<and> func = 1 then ([pc + cj_imm hw], st1)
                  else if op = 1 \<and> (func = 6 \<or> func = 7) then ([pc + 2, pc + cb_imm hw], st1)
                  else if op = 2 \<and> hw AND 0x007F = 0x0002
                    then (let rs1 = drop_bit 7 hw AND 0x1F; funct4 = drop_bit 12 hw AND 0xF
                          in if (funct4 = 8 \<or> funct4 = 9) \<and> rs1 \<noteq> 0
                             then ([g_regs st (unat rs1) AND NOT 1], st1)
                             else ([pc + 2], st1))
                  else ([pc + 2], st1)))"

section \<open>Sign extension and the immediates\<close>

lemma sext_eq:
  assumes b: "b < 31" and fits: "take_bit (Suc b) v = v"
  shows "sext v b = signed_take_bit b v"
proof -
  have hi: "\<And>k. b < k \<Longrightarrow> \<not> bit v k"
    by (metis bit_take_bit_iff fits not_less_eq)
  show ?thesis
  proof (cases "bit v b")
    case True
    have v: "v = take_bit b v + 2 ^ b"
    proof -
      have "v = take_bit b v OR 2 ^ b" 
        by (rule bit_word_eqI) (use True hi in \<open>auto simp: bit_simps\<close>, metis linorder_less_linear)
      also have "\<dots> = take_bit b v + 2 ^ b"
        by (rule disjunctive_add [symmetric]) (auto simp: bit_simps)
      finally show ?thesis .
    qed
    have x: "v XOR 2 ^ b = take_bit b v"
      by (rule bit_word_eqI) (use True hi in \<open>auto simp: bit_simps\<close>, metis linorder_less_linear)
    have "signed_take_bit b v = take_bit b v OR NOT (mask b)"
      using True by (simp add: signed_take_bit_def)
    also have "\<dots> = take_bit b v + NOT (mask b)"
      by (rule disjunctive_add [symmetric]) (auto simp: bit_simps)
    also have "\<dots> = take_bit b v - 2 ^ b" by (simp add: minus_exp_eq_not_mask [symmetric])
    finally show ?thesis using x by (simp add: sext_def push_bit_eq_mult)
  next
    case False
    have x: "v XOR 2 ^ b = v OR 2 ^ b"
      by (rule bit_word_eqI) (use False in \<open>auto simp: bit_simps\<close>)
    also have "\<dots> = v + 2 ^ b" 
      by (rule disjunctive_add [symmetric]) (use False in \<open>auto simp: bit_simps\<close>)
    finally have "sext v b = v" by (simp add: sext_def push_bit_eq_mult)
    also have "v = take_bit b v"
      by (rule bit_word_eqI) (use False hi in \<open>auto simp: bit_simps\<close>, metis linorder_less_linear)
    also have "\<dots> = signed_take_bit b v" using False by (simp add: signed_take_bit_def)
    finally show ?thesis .
  qed
qed

lemma sext_imm:
  "b < 31 \<Longrightarrow> take_bit (Suc b) v = v \<Longrightarrow> signed_take_bit b v = w \<Longrightarrow> sext v b = w"
  by (simp add: sext_eq)

lemma jal_imm_eq: "jal_imm i = Jimm i"
  unfolding jal_imm_def Jimm_def
  by (rule sext_imm; (rule word32_eqI)?; simp add: vec_simps)

lemma branch_imm_eq: "branch_imm i = Bimm i"
  unfolding branch_imm_def Bimm_def
  by (rule sext_imm; (rule word32_eqI)?; simp add: vec_simps)

lemma jalr_imm_eq: "sext (drop_bit 20 i) 11 = Iimm i"
  unfolding Iimm_def
  by (rule sext_imm; (rule word32_eqI)?; simp add: vec_simps)

lemma cj_imm_eq: "cj_imm (bits 15 0 c) = Jimm (c_jal c rd)"
  unfolding cj_imm_def Jimm_def c_jal_def jalImm_def
  by (rule sext_imm; (rule word32_eqI)?; simp add: vec_simps)

lemma cb_imm_eq: "cb_imm (bits 15 0 c) = Bimm (c_branch c f)"
  unfolding cb_imm_def Bimm_def c_branch_def bImm_def
  by (rule sext_imm; (rule word32_eqI)?; simp add: vec_simps)

section \<open>The fields that the two decoders test\<close>

lemma low7: "c AND 0x7F = push_bit 2 (opcode5 c) OR bits 1 0 c"
  unfolding opcode5_def by (rule word32_eqI; simp add: vec_simps)

lemma low7_inv: "opcode5 (c AND 0x7F) = opcode5 c" "bits 1 0 (c AND 0x7F) = bits 1 0 c"
  unfolding opcode5_def by (rule word32_eqI; simp add: vec_simps)+

lemma opcode_long:
  assumes "long_instr c"
  shows "c AND 0x7F = 0x6F \<longleftrightarrow> isJAL c" "c AND 0x7F = 0x67 \<longleftrightarrow> isJALR c" "c AND 0x7F = 0x63 \<longleftrightarrow> isBranch c"
proof -
  have e: "c AND 0x7F = push_bit 2 (opcode5 c) OR 3"
    using assms by (simp only: low7 long_instr_def)
  have o: "opcode5 0x6F = 27" "opcode5 0x67 = 25" "opcode5 0x63 = 24" by code_simp+
  have p: "push_bit 2 27 OR 3 = (0x6F :: u32)" "push_bit 2 25 OR 3 = (0x67 :: u32)"
    "push_bit 2 24 OR 3 = (0x63 :: u32)" by code_simp+
  show "c AND 0x7F = 0x6F \<longleftrightarrow> isJAL c"
    unfolding isJAL_def using e o(1) p(1) low7_inv(1) [of c] by metis
  show "c AND 0x7F = 0x67 \<longleftrightarrow> isJALR c"
    unfolding isJALR_def using e o(2) p(2) low7_inv(1) [of c] by metis
  show "c AND 0x7F = 0x63 \<longleftrightarrow> isBranch c"
    unfolding isBranch_def using e o(3) p(3) low7_inv(1) [of c] by metis
qed

lemma half_fields:
  "bits 15 0 c AND 3 = c_op c" "drop_bit 13 (bits 15 0 c) AND 7 = c_f3 c"
  "bits 15 0 c AND 0x7F = push_bit 2 (rwl c) OR c_op c" "drop_bit 7 (bits 15 0 c) AND 0x1F = rwh c"
  "drop_bit 12 (bits 15 0 c) AND 0xF = push_bit 1 (c_f3 c) OR of_bool (bit c 12)"
  unfolding c_op_def c_f3_def rwl_def rwh_def
  by (rule word32_eqI; simp add: vec_simps)+

lemma half_decomp: "half_at s pc = bits 15 0 (decomp_input s pc)"
  unfolding half_at_def decomp_input_def LOAD_halfword_def
  by (simp del: vcat.simps, intro impI)
     (rule word32_eqI; simp add: vec_simps)

lemma field_eqs:
  "push_bit 2 (rwl c) OR c_op c = 2 \<longleftrightarrow> rwl c = 0 \<and> c_op c = 2"
  "push_bit 1 (c_f3 c) OR of_bool (bit c 12) = 8 \<longleftrightarrow> c_f3 c = 4 \<and> \<not> bit c 12"
  "push_bit 1 (c_f3 c) OR of_bool (bit c 12) = 9 \<longleftrightarrow> c_f3 c = 4 \<and> bit c 12"
proof -
  let ?x = "push_bit 2 (rwl c) OR c_op c" and ?y = "push_bit 1 (c_f3 c) OR of_bool (bit c 12)"
  have x: "bits 6 2 ?x = rwl c" "bits 1 0 ?x = c_op c" and y: "bits 3 1 ?y = c_f3 c" "bits 0 0 ?y = of_bool (bit c 12)"
    unfolding c_op_def c_f3_def rwl_def
    by (rule word32_eqI; simp add: vec_simps)+
  show "?x = 2 \<longleftrightarrow> rwl c = 0 \<and> c_op c = 2"
    using x by (auto simp: bits_def take_bit_eq_mod drop_bit_eq_div)
  show "?y = 8 \<longleftrightarrow> c_f3 c = 4 \<and> \<not> bit c 12"
    using y by (auto simp: bits_def take_bit_eq_mod drop_bit_eq_div)
  show "?y = 9 \<longleftrightarrow> c_f3 c = 4 \<and> bit c 12"
    using y by (auto simp: bits_def take_bit_eq_mod drop_bit_eq_div)
qed

lemma opcode5_vcat:
  "opcode5 (a OR b) = opcode5 a OR opcode5 b"
  "7 \<le> n \<Longrightarrow> opcode5 (push_bit n a) = 0"
  by (rule bit_word_eqI; auto simp: opcode5_def bit_simps)+

lemma unat_bits: "unat (bits hi lo c) < 2 ^ (Suc hi - lo)"
  unfolding bits_def unsigned_take_bit_eq by (rule take_bit_nat_less_exp)

lemma c_op_cases: "c_op c = 0 \<or> c_op c = 1 \<or> c_op c = 2 \<or> c_op c = 3"
proof -
  have "unat (c_op c) < 4" using unat_bits [of 1 0 c] by (simp add: c_op_def)
  then have "unat (c_op c) = 0 \<or> unat (c_op c) = 1 \<or> unat (c_op c) = 2 \<or> unat (c_op c) = 3" by arith
  then show ?thesis by (auto simp: word_unat_eq_iff)
qed

lemma c_f3_cases:
  "c_f3 c = 0 \<or> c_f3 c = 1 \<or> c_f3 c = 2 \<or> c_f3 c = 3 \<or> c_f3 c = 4 \<or> c_f3 c = 5 \<or> c_f3 c = 6 \<or> c_f3 c = 7"
proof -
  have "unat (c_f3 c) < 8" using unat_bits [of 15 13 c] by (simp add: c_f3_def)
  then have "unat (c_f3 c) = 0 \<or> unat (c_f3 c) = 1 \<or> unat (c_f3 c) = 2 \<or> unat (c_f3 c) = 3 \<or>
    unat (c_f3 c) = 4 \<or> unat (c_f3 c) = 5 \<or> unat (c_f3 c) = 6 \<or> unat (c_f3 c) = 7" by arith
  then show ?thesis by (auto simp: word_unat_eq_iff)
qed

text \<open>The major opcode of everything the decompressor makes.\<close>

lemma opcode5_q0: "opcode5 (decompress_q0 c) \<in> {0, 4, 8}"
  by (simp add: decompress_q0_def opcode5_vcat) (simp add: opcode5_def bits_def drop_bit_eq_div take_bit_eq_mod)

lemma opcode5_q1_alu: "opcode5 (decompress_q1_alu c) \<in> {0, 4, 12}"
  by (simp add: decompress_q1_alu_def opcode5_vcat) (simp add: opcode5_def bits_def drop_bit_eq_div take_bit_eq_mod)

lemma opcode5_jumps: "opcode5 (c_jal c rd) = 27" "opcode5 (c_branch c f) = 24"
  by (simp_all add: c_jal_def c_branch_def opcode5_vcat)
     (simp_all add: opcode5_def bits_def drop_bit_eq_div take_bit_eq_mod)

lemma opcode5_q1:
  "c_f3 c = 0 \<or> c_f3 c = 2 \<or> c_f3 c = 3 \<Longrightarrow> opcode5 (decompress_q1 c) \<in> {4, 13}"
  by (elim disjE; simp add: decompress_q1_def opcode5_vcat; simp add: opcode5_def bits_def drop_bit_eq_div take_bit_eq_mod)

lemma opcode5_q2:
  "\<not> (c_f3 c = 4 \<and> rwl c = 0) \<Longrightarrow> opcode5 (decompress_q2 c) \<in> {0, 4, 8, 12}"
  by (simp add: decompress_q2_def opcode5_vcat) (simp add: opcode5_def bits_def drop_bit_eq_div take_bit_eq_mod)

section \<open>The prediction against the core\<close>

lemma ucast14_add: "(ucast (a + b :: u32) :: 14 word) = ucast a + ucast b"
proof -
  have "take_bit 14 (take_bit 32 (a + b)) = take_bit 14 (take_bit 32 a + take_bit 32 b)" for a b :: int
  proof -
    have "take_bit 14 (take_bit 32 a + take_bit 32 b) =
        take_bit 14 (take_bit 14 (take_bit 32 a) + take_bit 14 (take_bit 32 b))"
      by (simp only: take_bit_add)
    also have "\<dots> = take_bit 14 (a + b)" by (simp add: take_bit_add)
    finally show ?thesis by simp
  qed
  then show ?thesis by transfer simp
qed

lemma ucast14_in_ram: "in_ram pc \<Longrightarrow> ucast (ucast pc :: 14 word) = pc"
  by (rule bit_word_eqI) (use in_ram_bit in \<open>auto simp: bit_simps not_less intro: ccontr\<close>)

lemma next_pcs_fields:
  assumes pc: "in_ram pc" and c: "c = decomp_input (soc st) pc"
  shows "next_pcs pc st =
    (if long_instr c
     then (let i = ram (soc st) (ram_waddr pc)
           in if i AND 0x7F = 0x6F then [pc + Jimm i]
              else if i AND 0x7F = 0x67 then [(g_regs st (unat (drop_bit 15 i AND 0x1F)) + Iimm i) AND NOT 1]
              else if i AND 0x7F = 0x63 then [pc + 4, pc + Bimm i]
              else [pc + 4])
     else if c_op c = 1 \<and> (c_f3 c = 5 \<or> c_f3 c = 1) then [pc + Jimm (c_jal c 0)]
     else if c_op c = 1 \<and> (c_f3 c = 6 \<or> c_f3 c = 7) then [pc + 2, pc + Bimm (c_branch c 0)]
     else if c_op c = 2 \<and> rwl c = 0 \<and> c_f3 c = 4 \<and> rwh c \<noteq> 0 then [g_regs st (unat (rwh c)) AND NOT 1]
     else [pc + 2], st)"
  unfolding next_pcs_def load_half_ram [OF pc] load_word_ram [OF pc] half_decomp c [symmetric]
    half_fields field_eqs long_instr_def c_op_def [symmetric] jal_imm_eq branch_imm_eq jalr_imm_eq
    cj_imm_eq [of _ 0] cb_imm_eq [of _ 0] Let_def prod.case
  by auto

text \<open>\<open>c.jr\<close> with register \<open>x0\<close> is a reserved encoding: the core jumps to 0 on it.\<close>

definition reserved_jr :: "u32 \<Rightarrow> bool" where
  "reserved_jr c \<longleftrightarrow> c_op c = 2 \<and> c_f3 c = 4 \<and> \<not> bit c 12 \<and> rwh c = 0 \<and> rwl c = 0"

lemma PC_new_cases:
  assumes "\<not> is_mret i"
  shows "PC_new (ucast pc) long i r1 r2 mepc =
    ucast (if isJALR i then (r1 + Iimm i) AND NOT 1
           else if isJAL i then pc + Jimm i
           else if isBranch i \<and> predicate i r1 r2 then pc + Bimm i
           else if long then pc + 4 else pc + 2)"
proof -
  have b: "bit i 3 = bit (opcode5 i) 1" "bit i 4 = bit (opcode5 i) 2"
    by (simp_all add: opcode5_def bit_simps)
  have "isBranch i \<Longrightarrow> \<not> bit i 3 \<and> \<not> bit i 4" "isJAL i \<Longrightarrow> bit i 3"
    unfolding isBranch_def isJAL_def b by simp_all
  moreover have "isJALR i \<Longrightarrow> \<not> isALUreg i \<and> \<not> isBranch i" "isJAL i \<Longrightarrow> \<not> isBranch i"
    by (simp_all add: isJALR_def isALUreg_def isBranch_def isJAL_def)
  ultimately show ?thesis
    using assms by (cases "isJALR i"; cases "isJAL i"; cases "isBranch i")
      (simp_all add: PC_new_def aluPlus_def aluIn2_def PCinc_def PCplusImm_def ucast14_add)
qed

definition predicted :: "u32 \<Rightarrow> stub \<Rightarrow> 14 word set" where
  "predicted pc st = ucast ` set (fst (next_pcs pc st))"

lemma pc_new_at_predicted_long:
  assumes pc: "in_ram pc" "\<not> bit pc 1" and long: "long_instr (decomp_input (soc st) pc)"
    and m: "\<not> is_mret (decompressor (decomp_input (soc st) pc))"
  shows "pc_new_at (soc st) (g_regs st) mepc (ucast pc) \<in> predicted pc st"
proof -
  let ?i = "ram (soc st) (ram_waddr pc)"
  have c: "decomp_input (soc st) pc = ?i" using pc by (simp add: decomp_input_def)
  have i: "long_instr ?i" and d: "decompressor ?i = ?i"
    using long by (simp_all add: c decompressor_def long_instr_def c_op_def)
  have r: "unat (drop_bit 15 ?i AND 0x1F) = rs1Id ?i"
    unfolding rs1Id_def by (rule arg_cong [of _ _ unat]) (rule word32_eqI; simp add: vec_simps)
  note n = next_pcs_fields [OF pc(1) c [symmetric]]
  show ?thesis
    unfolding pc_new_at_def ucast14_in_ram [OF pc(1)] c Let_def d PC_new_cases [OF m [unfolded c d]] predicted_def n
    using i opcode_long [OF i]
    by (auto simp: r Let_def)
qed

lemma opcode5_plain:
  "opcode5 d \<in> {0, 4, 8, 12, 13} \<Longrightarrow>
   \<not> isJALR d \<and> \<not> isJAL d \<and> \<not> isBranch d \<and> \<not> is_mret d"
  by (auto simp: isJALR_def isJAL_def isBranch_def is_mret_def isSYSTEM_def)

text \<open>What the decompressed instruction is, by the cases of the stub's dispatch.\<close>

lemma decompressor_cases:
  assumes short: "\<not> long_instr c" and r: "\<not> reserved_jr c"
  obtains (jump) rd where "c_op c = 1" "c_f3 c = 5 \<or> c_f3 c = 1" "decompressor c = c_jal c rd"
  | (branch) f where "c_op c = 1" "c_f3 c = 6 \<or> c_f3 c = 7" "decompressor c = c_branch c f"
  | (jr) rd where "c_op c = 2" "c_f3 c = 4" "rwl c = 0" "rwh c \<noteq> 0"
      "decompressor c = vcat [(12, 0), (5, rwh c), (3, 0), (5, rd), (7, 0x67)]"
  | (plain) "\<not> (c_op c = 1 \<and> (c_f3 c = 5 \<or> c_f3 c = 1))" "\<not> (c_op c = 1 \<and> (c_f3 c = 6 \<or> c_f3 c = 7))"
      "\<not> (c_op c = 2 \<and> rwl c = 0 \<and> c_f3 c = 4 \<and> rwh c \<noteq> 0)"
      "\<not> isJALR (decompressor c)" "\<not> isJAL (decompressor c)" "\<not> isBranch (decompressor c)"
      "\<not> is_mret (decompressor c)"
proof -
  have op3: "c_op c \<noteq> 3" using short by (simp add: long_instr_def c_op_def)
  consider "c_op c = 0" | "c_op c = 1" | "c_op c = 2" using c_op_cases [of c] op3 by blast
  then show thesis
  proof cases
    case 1
    then have "decompressor c = decompress_q0 c" by (simp add: decompressor_def)
    with opcode5_q0 [of c] opcode5_plain [of "decompressor c"] 1 show thesis by (intro plain) auto
  next
    case 2
    then have d: "decompressor c = decompress_q1 c" by (simp add: decompressor_def)
    consider "c_f3 c = 5" | "c_f3 c = 1" | "c_f3 c = 6" | "c_f3 c = 7" | "c_f3 c = 4"
      | "c_f3 c = 0 \<or> c_f3 c = 2 \<or> c_f3 c = 3"
      using c_f3_cases [of c] by blast
    then show thesis
    proof cases
      case 1 with 2 d show thesis by (intro jump [of 0]) (simp_all add: decompress_q1_def)
    next
      case 2 with \<open>c_op c = 1\<close> d show thesis by (intro jump [of 1]) (simp_all add: decompress_q1_def)
    next
      case 3 with \<open>c_op c = 1\<close> d show thesis by (intro branch [of 0]) (simp_all add: decompress_q1_def)
    next
      case 4 with \<open>c_op c = 1\<close> d show thesis by (intro branch [of 1]) (simp_all add: decompress_q1_def)
    next
      case 5
      then have "decompressor c = decompress_q1_alu c" by (simp add: d decompress_q1_def)
      with opcode5_q1_alu [of c] opcode5_plain [of "decompressor c"] 5 \<open>c_op c = 1\<close> show thesis
        by (intro plain) auto
    next
      case 6
      with opcode5_q1 [OF 6] opcode5_plain [of "decompressor c"] d \<open>c_op c = 1\<close> show thesis
        by (intro plain) auto
    qed
  next
    case 3
    then have d: "decompressor c = decompress_q2 c" by (simp add: decompressor_def)
    show thesis
    proof (cases "c_f3 c = 4 \<and> rwl c = 0")
      case True
      show thesis
      proof (cases "rwh c = 0")
        case False
        with True 3 d show thesis
          by (intro jr [of "if bit c 12 then 1 else 0"]) (auto simp: decompress_q2_def simp del: vcat.simps)
      next
        case r0: True
        then have "decompressor c = 0x00100073"
          using True 3 r by (simp add: d decompress_q2_def reserved_jr_def)
        moreover have "opcode5 0x00100073 = 28" "bits 31 20 0x00100073 = 1" by code_simp+
        ultimately show thesis
          using True 3 r0 by (intro plain) (auto simp: isJALR_def isJAL_def isBranch_def is_mret_def)
      qed
    next
      case False
      with opcode5_q2 [OF False] opcode5_plain [of "decompressor c"] d 3 show thesis
        by (intro plain) auto
    qed
  qed
qed

lemma jr_fields:
  assumes "d = vcat [(12, 0), (5, rwh c), (3, 0), (5, rd), (7, 0x67)]"
  shows "opcode5 d = 25" "Iimm d = 0" "rs1Id d = unat (rwh c)"
proof -
  show "opcode5 d = 25"
    by (simp add: assms opcode5_vcat) (simp add: opcode5_def bits_def drop_bit_eq_div take_bit_eq_mod)
  show "Iimm d = 0"
    unfolding assms Iimm_def
    by (rule word32_eqI; simp add: vec_simps)
  show "rs1Id d = unat (rwh c)"
    unfolding assms rs1Id_def rwh_def
    by (rule arg_cong [of _ _ unat], rule word32_eqI; simp add: vec_simps)
qed

lemma Jimm_rd: "Jimm (c_jal c rd) = Jimm (c_jal c 0)"
  by (metis cj_imm_eq)

lemma Bimm_f: "Bimm (c_branch c f) = Bimm (c_branch c 0)"
  by (metis cb_imm_eq)

lemma pc_new_at_predicted_short:
  assumes pc: "in_ram pc" and short: "\<not> long_instr (decomp_input (soc st) pc)"
    and r: "\<not> reserved_jr (decomp_input (soc st) pc)"
  shows "pc_new_at (soc st) (g_regs st) mepc (ucast pc) \<in> predicted pc st"
proof -
  let ?c = "decomp_input (soc st) pc" and ?d = "decompressor (decomp_input (soc st) pc)"
  note n = next_pcs_fields [OF pc refl, of st]
  from short r show ?thesis
  proof (cases rule: decompressor_cases)
    case (jump rd)
    then have o: "isJAL ?d" by (simp add: opcode5_jumps isJAL_def)
    then have x: "\<not> isJALR ?d" "\<not> is_mret ?d" by (auto simp: isJAL_def isJALR_def is_mret_def isSYSTEM_def)
    show ?thesis
      unfolding pc_new_at_def ucast14_in_ram [OF pc] Let_def PC_new_cases [OF x(2)] predicted_def n
      using jump short x o by (simp add: Jimm_rd [of _ rd])
  next
    case (branch f)
    then have o: "isBranch ?d" by (simp add: opcode5_jumps isBranch_def)
    then have x: "\<not> isJALR ?d" "\<not> is_mret ?d" "\<not> isJAL ?d"
      by (auto simp: isBranch_def isJAL_def isJALR_def is_mret_def isSYSTEM_def)
    show ?thesis
      unfolding pc_new_at_def ucast14_in_ram [OF pc] Let_def PC_new_cases [OF x(2)] predicted_def n
      using branch short x o by (auto simp: Bimm_f [of _ f])
  next
    case (jr rd)
    note f = jr_fields [OF jr(5)]
    then have x: "isJALR ?d" "\<not> is_mret ?d" by (auto simp: isJALR_def is_mret_def isSYSTEM_def)
    show ?thesis
      unfolding pc_new_at_def ucast14_in_ram [OF pc] Let_def PC_new_cases [OF x(2)] predicted_def n
      using jr(1-4) short x f by (simp del: vcat.simps)
  next
    case plain
    show ?thesis
      unfolding pc_new_at_def ucast14_in_ram [OF pc] Let_def PC_new_cases [OF plain(7)] predicted_def n
      using plain short by auto
  qed
qed

lemma pc_new_at_predicted:
  assumes "in_ram pc" "long_instr (decomp_input (soc st) pc) \<longrightarrow> \<not> bit pc 1"
    and "\<not> is_mret (decompressor (decomp_input (soc st) pc))" "\<not> reserved_jr (decomp_input (soc st) pc)"
  shows "pc_new_at (soc st) (g_regs st) mepc (ucast pc) \<in> predicted pc st"
  using assms pc_new_at_predicted_long pc_new_at_predicted_short by blast

end
