(* ===== verification/Rsp_Commands.thy ===== *)
theory Rsp_Commands
  imports Rsp_Framing Patched_Code Hw_Breakpoints Next_Pc
begin

text \<open>
  The command handlers of sw/gdb_stub.c, one definition per handler, and the \<open>switch\<close> of the
  command loop. A handler that never returns (its reply is never answered) is the value \<open>None\<close>.
  The text of a command is the packet buffer with the position behind the command letter. The
  lemmas separate what a command does to the debugged system from the exchange of its reply:
  every handler computes a reply and a new state and then sends the reply, except the two that
  leave the loop.
\<close>

section \<open>Handlers\<close>

definition send :: "bytes_from \<Rightarrow> stub \<Rightarrow> stub option" where
  "send data st = do { s \<leftarrow> put_packet data (soc st); Some (st\<lparr>soc := s\<rparr>) }"

definition put_empty :: "stub \<Rightarrow> stub option" where "put_empty st = send (lit '''') st"
definition put_ok :: "stub \<Rightarrow> stub option" where "put_ok st = send (lit ''OK'') st"
definition put_err :: "stub \<Rightarrow> stub option" where "put_err st = send (lit ''E01'') st"

definition cmd_stop_reason :: "stub \<Rightarrow> stub option" where
  "cmd_stop_reason st = send (lit ''T05'') st"

text \<open>The loop over the registers, \<open>i\<close> the index and \<open>p\<close> the position in the buffer.\<close>

fun regs_to_hex :: "nat \<Rightarrow> nat \<Rightarrow> (nat \<Rightarrow> u32) \<Rightarrow> bytes_from \<Rightarrow> nat \<Rightarrow> bytes_from \<times> nat" where
  "regs_to_hex 0 i g buf p = (buf, p)"
| "regs_to_hex (Suc n) i g buf p = regs_to_hex n (i + 1) g (u32_to_hex_le (g i) buf p) (p + 8)"

definition cmd_read_regs :: "stub \<Rightarrow> stub option" where
  "cmd_read_regs st =
     (let g = (g_regs st)(0 := 0);
          (buf, p) = regs_to_hex NGDB_REGS 0 g (pkt_buf st) 0;
          st1 = st\<lparr>g_regs := g, pkt_buf := buf(p := 0)\<rparr>
      in send (pkt_buf st1) st1)"

fun hex_to_regs :: "nat \<Rightarrow> nat \<Rightarrow> (nat \<Rightarrow> u32) \<Rightarrow> bytes_from \<Rightarrow> nat \<Rightarrow> nat \<Rightarrow> u32" where
  "hex_to_regs 0 i g data p = g"
| "hex_to_regs (Suc n) i g data p = hex_to_regs n (i + 1) (g(i := hex_le_to_u32 data p)) data (p + 8)"

definition cmd_write_regs :: "bytes_from \<Rightarrow> nat \<Rightarrow> stub \<Rightarrow> stub option" where
  "cmd_write_regs data p st =
     (let g = hex_to_regs NGDB_REGS 0 (g_regs st) data p;
          st1 = st\<lparr>g_regs := g(0 := 0)\<rparr>
      in put_ok st1)"

text \<open>\<open>if (*p == c) p++;\<close>\<close>

definition skip_char :: "u8 \<Rightarrow> bytes_from \<Rightarrow> nat \<Rightarrow> nat" where
  "skip_char c buf p = (if buf p = c then p + 1 else p)"

definition cmd_read_mem :: "bytes_from \<Rightarrow> nat \<Rightarrow> stub \<Rightarrow> stub option" where
  "cmd_read_mem args p st =
     do { (a, p1) \<leftarrow> parse_hex args p;
          let p2 = skip_char 44 args p1;
          (n, p3) \<leftarrow> parse_hex args p2;
          let n' = (if n > (280 - 1) div 2 then (280 - 1) div 2 else n);
          let (k, buf, s) = mem_to_hex (soc st) a (pkt_buf st) 0 n';
          let st1 = st\<lparr>soc := s, pkt_buf := buf(unat k := 0)\<rparr>;
          send (pkt_buf st1) st1 }"

definition cmd_write_mem :: "bytes_from \<Rightarrow> nat \<Rightarrow> stub \<Rightarrow> stub option" where
  "cmd_write_mem args p st =
     do { (a, p1) \<leftarrow> parse_hex args p;
          let p2 = skip_char 44 args p1;
          (n, p3) \<leftarrow> parse_hex args p2;
          let p4 = skip_char 58 args p3;
          let (k, s) = hex_to_mem args p4 a n (soc st);
          put_ok (st\<lparr>soc := s\<rparr>) }"

text \<open>\<open>if (*args) g_regs[NGDB_REGS - 1] = parse_hex(&p);\<close>\<close>

definition set_resume_pc :: "bytes_from \<Rightarrow> nat \<Rightarrow> stub \<Rightarrow> stub option" where
  "set_resume_pc args p st =
     (if args p \<noteq> 0
      then do { (a, p1) \<leftarrow> parse_hex args p;
                Some (st\<lparr>g_regs := (g_regs st)(NGDB_REGS - 1 := a)\<rparr>) }
      else Some st)"

definition cmd_continue :: "bytes_from \<Rightarrow> nat \<Rightarrow> stub \<Rightarrow> (int \<times> stub) option" where
  "cmd_continue args p st = do { st1 \<leftarrow> set_resume_pc args p st; Some (1, st1) }"

text \<open>The scratch breakpoints at the predicted successors; the return code of \<open>bp_insert\<close> is
  dropped.\<close>

definition plant_steps :: "stub \<Rightarrow> stub" where
  "plant_steps st =
     (let (targets, st1) = next_pcs (g_regs st (NGDB_REGS - 1)) st
      in fold (\<lambda>t st. snd (bp_insert t True st)) targets st1)"

definition cmd_step :: "bytes_from \<Rightarrow> nat \<Rightarrow> stub \<Rightarrow> (int \<times> stub) option" where
  "cmd_step args p st =
     do { st1 \<leftarrow> set_resume_pc args p st;
          Some (1, (plant_steps st1)\<lparr>stepping := True\<rparr>) }"

definition on_soc :: "(soc \<Rightarrow> int \<times> soc) \<Rightarrow> stub \<Rightarrow> int \<times> stub" where
  "on_soc f st = (let (rc, s) = f (soc st) in (rc, st\<lparr>soc := s\<rparr>))"

definition cmd_insert_bp :: "bytes_from \<Rightarrow> nat \<Rightarrow> stub \<Rightarrow> stub option" where
  "cmd_insert_bp args p st =
     (let type = args p
      in if args (p + 1) \<noteq> 44 then put_empty st
         else do { (a, p1) \<leftarrow> parse_hex args (p + 2);
                   if type = 48
                   then (let (rc, st1) = bp_insert a False st
                         in if rc = 0 then put_ok st1 else put_err st1)
                   else if type = 49
                   then (let (rc, st1) = on_soc (hw_bp_insert a) st
                         in if rc = 0 then put_ok st1 else put_err st1)
                   else put_empty st })"

definition cmd_remove_bp :: "bytes_from \<Rightarrow> nat \<Rightarrow> stub \<Rightarrow> stub option" where
  "cmd_remove_bp args p st =
     (let type = args p
      in if args (p + 1) \<noteq> 44 then put_empty st
         else do { (a, p1) \<leftarrow> parse_hex args (p + 2);
                   if type = 48
                   then (let (rc, st1) = bp_remove a False st
                         in if rc = 0 then put_ok st1 else put_err st1)
                   else if type = 49
                   then (let (rc, st1) = on_soc (hw_bp_remove a) st
                         in if rc = 0 then put_ok st1 else put_err st1)
                   else put_empty st })"

definition cmd_query :: "bytes_from \<Rightarrow> nat \<Rightarrow> stub \<Rightarrow> stub option" where
  "cmd_query args p st =
     (if args p = 83 \<and> args (p + 1) = 117 then send (lit ''PacketSize=200;swbreak+;hwbreak+'') st
      else if args p = 65 \<and> args (p + 1) = 116 then send (lit ''1'') st
      else put_empty st)"

text \<open>The \<open>switch (buf[0])\<close>; the number is the variable \<open>resume\<close>.\<close>

definition stay :: "stub option \<Rightarrow> (int \<times> stub) option" where
  "stay r = do { st \<leftarrow> r; Some (0, st) }"

definition dispatch :: "bytes_from \<Rightarrow> stub \<Rightarrow> (int \<times> stub) option" where
  "dispatch buf st =
     (if buf 0 = 63 then stay (cmd_stop_reason st)
      else if buf 0 = 103 then stay (cmd_read_regs st)
      else if buf 0 = 71 then stay (cmd_write_regs buf 1 st)
      else if buf 0 = 109 then stay (cmd_read_mem buf 1 st)
      else if buf 0 = 77 then stay (cmd_write_mem buf 1 st)
      else if buf 0 = 99 then cmd_continue buf 1 st
      else if buf 0 = 115 then cmd_step buf 1 st
      else if buf 0 = 90 then stay (cmd_insert_bp buf 1 st)
      else if buf 0 = 122 then stay (cmd_remove_bp buf 1 st)
      else if buf 0 = 113 then stay (cmd_query buf 1 st)
      else if buf 0 = 72 then stay (put_ok st)
      else if buf 0 = 118 then stay (put_empty st)
      else stay (put_empty st))"

section \<open>Effect and reply\<close>

text \<open>What the handlers do before they send: the reply, \<open>None\<close> for the commands that resume the
  program, and the new state.\<close>

definition status :: "int \<times> stub \<Rightarrow> bytes_from option \<times> stub" where
  "status r = (Some (lit (if fst r = 0 then ''OK'' else ''E01'')), snd r)"

definition bp_command ::
  "(u32 \<Rightarrow> stub \<Rightarrow> int \<times> stub) \<Rightarrow> (u32 \<Rightarrow> stub \<Rightarrow> int \<times> stub) \<Rightarrow> bytes_from \<Rightarrow> stub \<Rightarrow>
   (bytes_from option \<times> stub) option" where
  "bp_command sw hw buf st =
     (if buf 2 \<noteq> 44 then Some (Some (lit ''''), st)
      else do { (a, p) \<leftarrow> parse_hex buf 3;
                Some (if buf 1 = 48 then status (sw a st) else if buf 1 = 49 then status (hw a st)
                      else (Some (lit ''''), st)) })"

definition read_regs_state :: "stub \<Rightarrow> stub" where
  "read_regs_state st =
     (let g = (g_regs st)(0 := 0); (buf, p) = regs_to_hex NGDB_REGS 0 g (pkt_buf st) 0
      in st\<lparr>g_regs := g, pkt_buf := buf(p := 0)\<rparr>)"

definition read_mem_state :: "u32 \<Rightarrow> u32 \<Rightarrow> stub \<Rightarrow> stub" where
  "read_mem_state a n st =
     (let (k, buf, s) = mem_to_hex (soc st) a (pkt_buf st) 0 (if n > 139 then 139 else n)
      in st\<lparr>soc := s, pkt_buf := buf(unat k := 0)\<rparr>)"

definition run_command :: "bytes_from \<Rightarrow> stub \<Rightarrow> (bytes_from option \<times> stub) option" where
  "run_command buf st =
     (if buf 0 = 63 then Some (Some (lit ''T05''), st)
      else if buf 0 = 103 then Some (Some (pkt_buf (read_regs_state st)), read_regs_state st)
      else if buf 0 = 71
        then Some (Some (lit ''OK''), st\<lparr>g_regs := (hex_to_regs NGDB_REGS 0 (g_regs st) buf 1)(0 := 0)\<rparr>)
      else if buf 0 = 109
        then do { (a, p1) \<leftarrow> parse_hex buf 1;
                  (n, p3) \<leftarrow> parse_hex buf (skip_char 44 buf p1);
                  Some (Some (pkt_buf (read_mem_state a n st)), read_mem_state a n st) }
      else if buf 0 = 77
        then do { (a, p1) \<leftarrow> parse_hex buf 1;
                  (n, p3) \<leftarrow> parse_hex buf (skip_char 44 buf p1);
                  Some (Some (lit ''OK''), st\<lparr>soc := snd (hex_to_mem buf (skip_char 58 buf p3) a n (soc st))\<rparr>) }
      else if buf 0 = 99 then do { st1 \<leftarrow> set_resume_pc buf 1 st; Some (None, st1) }
      else if buf 0 = 115
        then do { st1 \<leftarrow> set_resume_pc buf 1 st; Some (None, (plant_steps st1)\<lparr>stepping := True\<rparr>) }
      else if buf 0 = 90
        then bp_command (\<lambda>a. bp_insert a False) (\<lambda>a. on_soc (hw_bp_insert a)) buf st
      else if buf 0 = 122
        then bp_command (\<lambda>a. bp_remove a False) (\<lambda>a. on_soc (hw_bp_remove a)) buf st
      else if buf 0 = 113
        then Some (Some (lit (if buf 1 = 83 \<and> buf 2 = 117 then ''PacketSize=200;swbreak+;hwbreak+''
                              else if buf 1 = 65 \<and> buf 2 = 116 then ''1'' else '''')), st)
      else if buf 0 = 72 then Some (Some (lit ''OK''), st)
      else Some (Some (lit ''''), st))"

lemma run_read_regs:
  "stay (cmd_read_regs st) = stay (send (pkt_buf (read_regs_state st)) (read_regs_state st))"
  by (simp add: cmd_read_regs_def read_regs_state_def Let_def split: prod.split)

lemma run_read_mem:
  "stay (cmd_read_mem buf p st) =
     do { (a, p1) \<leftarrow> parse_hex buf p;
          (n, p3) \<leftarrow> parse_hex buf (skip_char 44 buf p1);
          stay (send (pkt_buf (read_mem_state a n st)) (read_mem_state a n st)) }"
  by (simp add: cmd_read_mem_def read_mem_state_def stay_def Let_def split: prod.split Option.bind_split)

lemma run_write_mem:
  "stay (cmd_write_mem buf p st) =
     do { (a, p1) \<leftarrow> parse_hex buf p;
          (n, p3) \<leftarrow> parse_hex buf (skip_char 44 buf p1);
          stay (send (lit ''OK'') (st\<lparr>soc := snd (hex_to_mem buf (skip_char 58 buf p3) a n (soc st))\<rparr>)) }"
  by (simp add: cmd_write_mem_def put_ok_def stay_def Let_def split: prod.split Option.bind_split)

text \<open>Sending the reply, or leaving the loop when there is none.\<close>

definition finish :: "(bytes_from option \<times> stub) option \<Rightarrow> (int \<times> stub) option" where
  "finish x = do { (r, st1) \<leftarrow> x; case r of None \<Rightarrow> Some (1, st1) | Some d \<Rightarrow> stay (send d st1) }"

lemma finish_simps [simp]:
  "finish (Some (Some d, st)) = stay (send d st)" "finish (Some (None, st)) = Some (1, st)"
  by (simp_all add: finish_def)

lemma finish_bind: "finish (x \<bind> f) = x \<bind> (\<lambda>v. finish (f v))"
  by (cases x) (simp_all add: finish_def)

lemma run_bp_command:
  "stay (cmd_insert_bp buf 1 st) =
     finish (bp_command (\<lambda>a. bp_insert a False) (\<lambda>a. on_soc (hw_bp_insert a)) buf st)"
  "stay (cmd_remove_bp buf 1 st) =
     finish (bp_command (\<lambda>a. bp_remove a False) (\<lambda>a. on_soc (hw_bp_remove a)) buf st)"
  unfolding cmd_insert_bp_def cmd_remove_bp_def bp_command_def finish_def
  by (auto simp: put_ok_def put_err_def put_empty_def status_def stay_def Let_def numeral_2_eq_2
      numeral_3_eq_3 split: prod.splits Option.bind_split)

lemma run_query:
  "stay (cmd_query buf 1 st) =
     stay (send (lit (if buf 1 = 83 \<and> buf 2 = 117 then ''PacketSize=200;swbreak+;hwbreak+''
                      else if buf 1 = 65 \<and> buf 2 = 116 then ''1'' else '''')) st)"
  unfolding cmd_query_def put_empty_def one_add_one by (simp only: if_distrib [of lit] split: if_split) blast

lemma run_resume:
  "cmd_continue buf p st = finish (do { st1 \<leftarrow> set_resume_pc buf p st; Some (None, st1) })"
  "cmd_step buf p st =
     finish (do { st1 \<leftarrow> set_resume_pc buf p st; Some (None, (plant_steps st1)\<lparr>stepping := True\<rparr>) })"
  by (simp_all add: cmd_continue_def cmd_step_def finish_bind)

lemma dispatch_run: "dispatch buf st = finish (run_command buf st)"
  unfolding dispatch_def run_command_def if_distrib [of finish] finish_simps
  by (intro if_cong refl)
     (simp_all only: run_read_regs run_read_mem run_write_mem run_bp_command run_query run_resume
        cmd_stop_reason_def cmd_write_regs_def put_ok_def put_empty_def Let_def finish_bind case_prod_unfold finish_simps if_cancel)

end
