(* ===== verification/Command_Effects.thy ===== *)
theory Command_Effects
  imports Rsp_Commands
begin

text \<open>
  What the commands of sw/gdb_stub.c do, as lemmas: the text of the \<open>g\<close> reply and its inverse by
  the \<open>G\<close> command, the text of the \<open>m\<close> reply and the memory after an \<open>M\<close> command, for blocks of
  RAM. The commands on such blocks do not depend on the state of the UART, which is what lets
  the session of theory Rsp_Session interleave them with the exchange of packets.
\<close>

section \<open>Registers\<close>

text \<open>The eight characters of a register in a \<open>g\<close> or \<open>G\<close> packet.\<close>

definition word_hex :: "u32 \<Rightarrow> u8 list" where
  "word_hex v = [nib_to_hex (drop_bit 4 v), nib_to_hex v, nib_to_hex (drop_bit 12 v), nib_to_hex (drop_bit 8 v),
     nib_to_hex (drop_bit 20 v), nib_to_hex (drop_bit 16 v), nib_to_hex (drop_bit 28 v), nib_to_hex (drop_bit 24 v)]"

definition regs_hex :: "(nat \<Rightarrow> u32) \<Rightarrow> nat \<Rightarrow> nat \<Rightarrow> u8 list" where
  "regs_hex g i n = concat (map (\<lambda>k. word_hex (g k)) [i..<i + n])"

lemma nib_to_hex_and [simp]: "nib_to_hex (v AND 15) = nib_to_hex v"
  by (simp add: nib_to_hex_def)

lemma length_word_hex [simp]: "length (word_hex v) = 8"
  by (simp add: word_hex_def)

lemma u32_to_hex_le_put: "u32_to_hex_le v buf p = put_chars buf p (word_hex v)"
  by (simp add: u32_to_hex_le_def numeral_eq_Suc word_hex_def fun_upd_twist)

lemma put_chars_append: "put_chars buf p (cs @ ds) = put_chars (put_chars buf p cs) (p + length cs) ds"
  by (induction cs arbitrary: buf p) simp_all

lemma regs_hex_Suc: "regs_hex g i (Suc n) = word_hex (g i) @ regs_hex g (i + 1) n"
  by (simp add: regs_hex_def upt_conv_Cons del: upt_Suc)

lemma regs_to_hex_put:
  "regs_to_hex n i g buf p = (put_chars buf p (regs_hex g i n), p + 8 * n)"
  by (induction n arbitrary: i buf p)
     (simp_all add: regs_hex_Suc u32_to_hex_le_put put_chars_append, simp add: regs_hex_def)

lemma length_regs_hex [simp]: "length (regs_hex g i n) = 8 * n"
  by (induction n arbitrary: i) (simp_all add: regs_hex_Suc, simp add: regs_hex_def)

lemma regs_hex_nonzero [simp]: "0 \<notin> set (regs_hex g i n)"
  by (auto simp: regs_hex_def word_hex_def)

lemma read_regs_reply:
  "c_string (pkt_buf (read_regs_state st)) (regs_hex ((g_regs st)(0 := 0)) 0 NGDB_REGS)"
  using c_string_put [OF regs_hex_nonzero [of "(g_regs st)(0 := 0)" 0 NGDB_REGS]]
  by (simp add: read_regs_state_def regs_to_hex_put Let_def)

text \<open>Reading the characters back.\<close>

lemma chars_hex_le: "chars_at buf p (word_hex v) \<Longrightarrow> hex_le_to_u32 buf p = v"
proof -
  assume "chars_at buf p (word_hex v)"
  then have "hex_le_to_u32 buf p = hex_le_to_u32 (u32_to_hex_le v buf p) p"
    by (simp add: u32_to_hex_le_put word_hex_def hex_le_to_u32_def numeral_eq_Suc)
  then show ?thesis by (simp add: u32_hex_roundtrip)
qed

lemma hex_to_regs_hex:
  "chars_at buf p (regs_hex g' i n) \<Longrightarrow>
   hex_to_regs n i g buf p k = (if i \<le> k \<and> k < i + n then g' k else g k)"
proof (induction n arbitrary: i g p)
  case (Suc n)
  then have "hex_le_to_u32 buf p = g' i" "chars_at buf (p + 8) (regs_hex g' (i + 1) n)"
    by (simp_all add: regs_hex_Suc chars_hex_le)
  then show ?case using Suc.IH by auto
qed auto

section \<open>Memory\<close>

definition clamp :: "u32 \<Rightarrow> nat" where
  "clamp n = min (unat n) 139"

lemma clamp_word: "clamp n = unat (if n > 139 then 139 else n)"
  by (auto simp: clamp_def word_less_nat_alt min_def)

lemma read_mem_block:
  assumes "unat a + clamp n \<le> 4096"
  shows "soc (read_mem_state a n st) = soc st"
    and "c_string (pkt_buf (read_mem_state a n st)) (block_hex (soc st) a (clamp n))"
    and "g_regs (read_mem_state a n st) = g_regs st" "bps (read_mem_state a n st) = bps st"
      "stepping (read_mem_state a n st) = stepping st"
proof -
  let ?n = "if n > 139 then 139 else n"
  have n: "nat (sint ?n) = clamp n" "unat (?n * 2) = 2 * clamp n"
    by (simp_all add: clamp_word sint_nonneg word_less_nat_alt unat_word_ariths)
  have "read_mem_state a n st =
      st\<lparr>pkt_buf := (put_chars (pkt_buf st) 0 (block_hex (soc st) a (clamp n)))(2 * clamp n := 0)\<rparr>"
    unfolding read_mem_state_def mem_to_hex_def n mem_to_hex_loop_ram [OF assms] Let_def prod.case by simp
  moreover have "0 \<notin> set (block_hex (soc st) a (clamp n))" using block_hex_digits by blast
  from c_string_put [OF this, of "pkt_buf st"]
  have "c_string ((put_chars (pkt_buf st) 0 (block_hex (soc st) a (clamp n)))(2 * clamp n := 0))
      (block_hex (soc st) a (clamp n))" by simp
  ultimately show "soc (read_mem_state a n st) = soc st"
    "c_string (pkt_buf (read_mem_state a n st)) (block_hex (soc st) a (clamp n))"
    "g_regs (read_mem_state a n st) = g_regs st" "bps (read_mem_state a n st) = bps st"
    "stepping (read_mem_state a n st) = stepping st" by simp_all
qed

text \<open>Writing a block of digits: what is read back is what was written.\<close>

lemma hex_to_mem_block:
  assumes "chars_at buf p ds" "length ds = 2 * unat n" "list_all is_hex ds" "unat a + unat n \<le> 4096"
  shows "\<exists>s'. hex_to_mem buf p a n s = (n, s') \<and> uart s' = uart s \<and> bkpt s' = bkpt s \<and> rom s' = rom s \<and>
    (\<forall>i < unat n. byte_at s' (a + word_of_nat i) = hex_byte (ds ! (2 * i)) (ds ! Suc (2 * i))) \<and>
    (\<forall>b. in_ram b \<longrightarrow> unat b < unat a \<or> unat a + unat n \<le> unat b \<longrightarrow> byte_at s' b = byte_at s b)"
proof -
  have d: "buf (p + k) = ds ! k" if "k < 2 * unat n" for k
    using assms(1,2) that by (simp add: chars_at_def)
  have "\<forall>k < 2 * unat n. is_hex (buf (p + k))"
    using assms(2,3) d by (simp add: list_all_length)
  moreover have "nat (sint n) = unat n" using assms(4) by (simp add: sint_nonneg)
  ultimately obtain s' where s': "hex_to_mem buf p a n s = (0 + word_of_nat (unat n), s')"
    "uart s' = uart s" "bkpt s' = bkpt s" "rom s' = rom s"
    "\<forall>b. in_ram b \<longrightarrow> byte_at s' b = (if unat (a + 0) \<le> unat b \<and> unat b < unat (a + 0) + unat n
         then hex_byte (buf (p + 2 * (unat b - unat (a + 0)))) (buf (p + 2 * (unat b - unat (a + 0)) + 1))
         else byte_at s b)"
    using hex_to_mem_loop_ram [of "unat n" buf p a 0 s] assms(4) unfolding hex_to_mem_def by auto
  have "byte_at s' (a + word_of_nat i) = hex_byte (ds ! (2 * i)) (ds ! Suc (2 * i))" if "i < unat n" for i
    using s'(5) ram_offset [OF assms(4) that] that d [of "2 * i"] d [of "Suc (2 * i)"] by simp
  with s' show ?thesis by auto
qed

lemma write_back_block:
  assumes "chars_at buf p (block_hex s0 a (unat n))" "unat a + unat n \<le> 4096" "i < unat n"
  shows "byte_at (snd (hex_to_mem buf p a n s)) (a + word_of_nat i) = byte_at s0 (a + word_of_nat i)"
proof -
  have "list_all is_hex (block_hex s0 a (unat n))" using block_hex_digits by (auto simp: list_all_iff)
  from hex_to_mem_block [OF assms(1) _ this assms(2), of s] assms(3) show ?thesis
    by (auto simp: block_hex_nth hex_byte_of_nibbles)
qed

section \<open>Independence of the UART\<close>

definition with_uart :: "uart \<Rightarrow> stub \<Rightarrow> stub" where
  "with_uart u st = st\<lparr>soc := (soc st)\<lparr>uart := u\<rparr>\<rparr>"

lemma with_uart_simps [simp]:
  "soc (with_uart u st) = (soc st)\<lparr>uart := u\<rparr>" "g_regs (with_uart u st) = g_regs st"
  "bps (with_uart u st) = bps st" "pkt_buf (with_uart u st) = pkt_buf st"
  "stepping (with_uart u st) = stepping st" "with_uart u (with_uart v st) = with_uart u st"
  "with_uart (uart (soc st)) st = st"
  by (simp_all add: with_uart_def)

text \<open>A command that runs the same whatever the UART's state.\<close>

definition blind :: "bytes_from \<Rightarrow> stub \<Rightarrow> bool" where
  "blind buf st \<longleftrightarrow> (\<forall>u. run_command buf (with_uart u st) =
     map_option (\<lambda>(r, st1). (r, with_uart u st1)) (run_command buf st))"

lemma load_uart:
  "in_ram a \<Longrightarrow> load w (s\<lparr>uart := u\<rparr>) a = (fst (load w s a), (snd (load w s a))\<lparr>uart := u\<rparr>)"
  by (simp add: load_ram)

lemma store_uart: "in_ram a \<Longrightarrow> store w (s\<lparr>uart := u\<rparr>) a v = (store w s a v)\<lparr>uart := u\<rparr>"
  by (simp add: store_ram)

lemma store_rom_uart: "page_sel (loadstore_addr a) = 1 \<Longrightarrow> store w (s\<lparr>uart := u\<rparr>) a v = (store w s a v)\<lparr>uart := u\<rparr>"
  by (simp add: store_rom)

lemma restore_uart: "in_ram (addr b) \<Longrightarrow> restore_bp b (s\<lparr>uart := u\<rparr>) = (restore_bp b s)\<lparr>uart := u\<rparr>"
  by (simp add: restore_bp_def store_uart)

lemma half_at_uart [simp]: "half_at (s\<lparr>uart := u\<rparr>) a = half_at s a"
  by (simp add: half_at_def)

lemma byte_at_uart [simp]: "byte_at (s\<lparr>uart := u\<rparr>) a = byte_at s a"
  by (simp add: byte_at_def)

lemma bp_insert_uart:
  "in_ram a \<Longrightarrow> bp_insert a sc (with_uart u st) =
    (fst (bp_insert a sc st), with_uart u (snd (bp_insert a sc st)))"
  by (simp add: bp_insert_def load_half_ram load_word_ram store_uart with_uart_def Let_def split: option.split)

lemma bp_remove_uart:
  assumes "\<And>b. b \<in> set (bps st) \<Longrightarrow> used b \<Longrightarrow> in_ram (addr b)" "table_wf st"
  shows "bp_remove a sc (with_uart u st) = (fst (bp_remove a sc st), with_uart u (snd (bp_remove a sc st)))"
proof (cases "first_slot (\<lambda>b. used b \<and> addr b = a) (bps st) (slots_start sc) (slots_end sc)")
  case None
  then show ?thesis by (simp add: bp_remove_def)
next
  case (Some k)
  then have "used (bps st ! k)" "bps st ! k \<in> set (bps st)"
    using first_slot_Some [OF Some] slot_in_table [OF assms(2)] by auto
  then show ?thesis using Some assms(1)
    by (simp add: bp_remove_def bp_release_def restore_uart with_uart_def)
qed

lemma hw_uart:
  "on_soc (hw_bp_insert a) (with_uart u st) =
     (fst (on_soc (hw_bp_insert a) st), with_uart u (snd (on_soc (hw_bp_insert a) st)))"
  "on_soc (hw_bp_remove a) (with_uart u st) =
     (fst (on_soc (hw_bp_remove a) st), with_uart u (snd (on_soc (hw_bp_remove a) st)))"
  by (simp_all add: on_soc_def hw_insert_refused hw_remove_refused with_uart_def)

text \<open>The commands that touch registers and queries only.\<close>

lemma blind_plain:
  "buf 0 \<notin> {109, 77, 115, 90, 122} \<Longrightarrow> blind buf st"
  by (auto simp: blind_def run_command_def read_regs_state_def set_resume_pc_def with_uart_def Let_def
      split: prod.split Option.bind_split)

text \<open>The commands that access memory, when they stay in RAM.\<close>

definition ram_command :: "bytes_from \<Rightarrow> stub \<Rightarrow> bool" where
  "ram_command buf st =
     (if buf 0 = 109
      then (case parse_hex buf 1 of None \<Rightarrow> True
            | Some (a, p) \<Rightarrow> (case parse_hex buf (skip_char 44 buf p) of None \<Rightarrow> True
                | Some (n, q) \<Rightarrow> unat a + clamp n \<le> 4096))
      else if buf 0 = 77
      then (case parse_hex buf 1 of None \<Rightarrow> True
            | Some (a, p) \<Rightarrow> (case parse_hex buf (skip_char 44 buf p) of None \<Rightarrow> True
                | Some (n, q) \<Rightarrow> unat a + nat (sint n) \<le> 4096))
      else if buf 0 = 115
      then (case set_resume_pc buf 1 st of None \<Rightarrow> True
            | Some st1 \<Rightarrow> in_ram (g_regs st1 (NGDB_REGS - 1)) \<and>
                list_all in_ram (fst (next_pcs (g_regs st1 (NGDB_REGS - 1)) st1)))
      else if buf 0 = 90 \<and> buf 1 = 48
      then (case parse_hex buf 3 of None \<Rightarrow> True | Some (a, p) \<Rightarrow> in_ram a)
      else if buf 0 = 122 then table_wf st \<and> list_all (\<lambda>b. in_ram (addr b)) (bps st)
      else True)"

lemma block_hex_uart [simp]: "block_hex (s\<lparr>uart := u\<rparr>) a n = block_hex s a n"
  by (induction n arbitrary: a) simp_all

lemma read_mem_uart:
  assumes "unat a + clamp n \<le> 4096"
  shows "read_mem_state a n (with_uart u st) = with_uart u (read_mem_state a n st)"
proof -
  have n: "nat (sint (if n > 139 then 139 else n)) = clamp n"
    by (simp_all add: clamp_word sint_nonneg word_less_nat_alt)
  show ?thesis
    unfolding read_mem_state_def mem_to_hex_def n mem_to_hex_loop_ram [OF assms] Let_def prod.case
    by (simp add: with_uart_def)
qed

lemma hex_to_mem_loop_uart:
  "unat (mem + i) + n \<le> 4096 \<Longrightarrow>
   hex_to_mem_loop n buf p mem i (s\<lparr>uart := u\<rparr>) =
     (fst (hex_to_mem_loop n buf p mem i s), (snd (hex_to_mem_loop n buf p mem i s))\<lparr>uart := u\<rparr>)"
proof (induction n arbitrary: p i s)
  case (Suc n)
  from ram_block_Suc [OF Suc.prems] Suc.IH [of "i + 1"] show ?case
    by (cases n) (auto simp: Let_def store_uart add.assoc)
qed simp

lemma hex_to_mem_uart:
  "unat mem + nat (sint n) \<le> 4096 \<Longrightarrow>
   snd (hex_to_mem buf p mem n (s\<lparr>uart := u\<rparr>)) = (snd (hex_to_mem buf p mem n s))\<lparr>uart := u\<rparr>"
  by (simp add: hex_to_mem_def hex_to_mem_loop_uart)

lemma next_pcs_uart:
  "in_ram pc \<Longrightarrow> next_pcs pc (with_uart u st) = (fst (next_pcs pc st), with_uart u st) \<and> snd (next_pcs pc st) = st"
  by (simp add: next_pcs_def load_half_ram load_word_ram Let_def with_uart_def)

lemma fold_insert_uart:
  "list_all in_ram ts \<Longrightarrow>
   fold (\<lambda>t st. snd (bp_insert t True st)) ts (with_uart u st) =
     with_uart u (fold (\<lambda>t st. snd (bp_insert t True st)) ts st)"
  by (induction ts arbitrary: st) (simp_all add: bp_insert_uart)

lemma plant_steps_uart:
  assumes "in_ram (g_regs st (NGDB_REGS - 1))" "list_all in_ram (fst (next_pcs (g_regs st (NGDB_REGS - 1)) st))"
  shows "plant_steps (with_uart u st) = with_uart u (plant_steps st)"
  using next_pcs_uart [OF assms(1), of u st] fold_insert_uart [OF assms(2), of u st]
  by (simp add: plant_steps_def case_prod_unfold)

lemma set_resume_pc_uart:
  "set_resume_pc buf p (with_uart u st) = map_option (with_uart u) (set_resume_pc buf p st)"
  by (auto simp: set_resume_pc_def with_uart_def split: Option.bind_split)

lemma bp_command_uart:
  assumes "\<And>a. buf 1 = 48 \<Longrightarrow> parse_hex buf 3 = Some a \<Longrightarrow>
      sw (fst a) (with_uart u st) = (fst (sw (fst a) st), with_uart u (snd (sw (fst a) st)))"
    and "\<And>a. hw a (with_uart u st) = (fst (hw a st), with_uart u (snd (hw a st)))"
  shows "bp_command sw hw buf (with_uart u st) =
    map_option (\<lambda>(r, st1). (r, with_uart u st1)) (bp_command sw hw buf st)"
  using assms by (cases "parse_hex buf 3") (auto simp: bp_command_def status_def)

lemma ram_command_blind:
  assumes "ram_command buf st"
  shows "blind buf st"
proof -
  consider "buf 0 \<notin> {109, 77, 115, 90, 122}" | "buf 0 = 109" | "buf 0 = 77" | "buf 0 = 115" | "buf 0 = 90"
    | "buf 0 = 122" by blast
  then show ?thesis
  proof cases
    case 1
    then show ?thesis by (rule blind_plain)
  next
    case 2
    then show ?thesis using assms
      by (auto simp: blind_def run_command_def ram_command_def read_mem_uart split: option.splits Option.bind_split)
  next
    case 3
    then show ?thesis using assms
      by (auto simp: blind_def run_command_def ram_command_def hex_to_mem_uart with_uart_def split: option.splits Option.bind_split)
  next
    case 4
    have "(with_uart u st)\<lparr>stepping := True\<rparr> = with_uart u (st\<lparr>stepping := True\<rparr>)" for u st
      by (simp add: with_uart_def)
    with 4 show ?thesis using assms
      by (auto simp: blind_def run_command_def ram_command_def set_resume_pc_uart plant_steps_uart split: option.splits Option.bind_split)
  next
    case 5
    have "bp_command (\<lambda>a. bp_insert a False) (\<lambda>a. on_soc (hw_bp_insert a)) buf (with_uart u st) =
      map_option (\<lambda>(r, st1). (r, with_uart u st1)) (bp_command (\<lambda>a. bp_insert a False) (\<lambda>a. on_soc (hw_bp_insert a)) buf st)" for u
      by (rule bp_command_uart) (use 5 assms in \<open>auto simp: ram_command_def bp_insert_uart hw_uart split: option.splits\<close>)
    with 5 show ?thesis by (simp add: blind_def run_command_def)
  next
    case 6
    then have "table_wf st" "list_all (\<lambda>b. in_ram (addr b)) (bps st)" using assms by (simp_all add: ram_command_def)
    then have "bp_command (\<lambda>a. bp_remove a False) (\<lambda>a. on_soc (hw_bp_remove a)) buf (with_uart u st) =
      map_option (\<lambda>(r, st1). (r, with_uart u st1)) (bp_command (\<lambda>a. bp_remove a False) (\<lambda>a. on_soc (hw_bp_remove a)) buf st)" for u
      by (intro bp_command_uart bp_remove_uart hw_uart) (auto simp: list_all_iff)
    with 6 show ?thesis by (simp add: blind_def run_command_def)
  qed
qed

section \<open>Sending a reply\<close>

lemma step_uart:
  "uart_channel.step s s' bs out \<longleftrightarrow>
   (\<exists>u. s' = s\<lparr>uart := u\<rparr>) \<and> uart_pending s' = bs \<and> uart_sent s' = uart_sent s @ out"
proof -
  have "uart_others s' = uart_others s \<longleftrightarrow> (\<exists>u. s' = s\<lparr>uart := u\<rparr>)"
    by (cases s; cases s') (auto simp: uart_others_def)
  then show ?thesis by (auto simp: uart_channel.step_def)
qed

lemma pending_uart:
  "uart_pending (s\<lparr>uart := u\<rparr>) = (if rx_valid u then [rx_data u] else []) @ map snd (rx_queue u)"
  by (cases "rx_valid u") (simp_all add: uart_pending_def)

lemma with_uart_soc [simp]: "(with_uart u st)\<lparr>soc := (soc st)\<lparr>uart := v\<rparr>\<rparr> = with_uart v st"
  by (simp add: with_uart_def)

lemma send_session:
  assumes "c_string d rs" "uart_pending (soc st) = 43 # bs"
  shows "\<exists>u. send d st = Some (with_uart u st) \<and> uart_pending (soc (with_uart u st)) = bs \<and>
    tx_log u = tx_log (uart (soc st)) @ rsp_frame rs"
proof -
  obtain s' where s': "put_packet d (soc st) = Some s'" "uart_channel.step (soc st) s' bs (rsp_frame rs)"
    using uart_channel.put_packet_tries_acked [OF assms(1), of "soc st" "[]" bs 3] assms(2)
    by (auto simp: put_packet_def put_packet_on_def)
  then obtain u where "s' = (soc st)\<lparr>uart := u\<rparr>" by (auto simp: step_uart)
  with s' show ?thesis
    by (intro exI [of _ u]) (auto simp: step_uart uart_sent_def send_def with_uart_def)
qed

end
