(* ===== verification/Command_Replies.thy ===== *)
theory Command_Replies
  imports Command_Effects Sample_States
begin

text \<open>
  The commands of sw/gdb_stub.c as the host sees them: for every command the reply that is sent, with
  its frame, and what the command does to the registers, to memory and to the breakpoints. The host
  is one that acknowledges the reply.
\<close>

section \<open>What each command does on the board\<close>

text \<open>A reply that the host acknowledges.\<close>

definition replied :: "stub \<Rightarrow> u8 list \<Rightarrow> u8 list \<Rightarrow> stub \<Rightarrow> stub option \<Rightarrow> bool" where
  "replied st bs rs st1 r \<longleftrightarrow> (\<exists>u. r = Some (with_uart u st1) \<and>
     uart_pending (soc (with_uart u st1)) = bs \<and> tx_log u = tx_log (uart (soc st)) @ rsp_frame rs)"

lemma send_replied:
  assumes "c_string d rs" "uart_pending (soc st) = 43 # bs" "uart (soc st1) = uart (soc st)"
  shows "replied st bs rs st1 (send d st1)"
proof -
  have "uart_pending (soc st1) = uart_pending (soc st)" using assms(3) by (simp add: uart_pending_def)
  then have "uart_pending (soc st1) = 43 # bs" using assms(2) by simp
  from send_session [OF assms(1) this] assms(3) show ?thesis by (auto simp: replied_def)
qed

lemma lit_strings:
  "c_string (lit ''OK'') [79, 75]" "c_string (lit ''E01'') [69, 48, 49]" "c_string (lit '''') []"
  by (auto simp: c_string_def lit_def)

lemma parse_hex_args:
  assumes "chars_at args p (ds @ c # rest)" "list_all is_hex ds" "\<not> is_hex c"
  shows "parse_hex args p = Some (word_of_nat (hex_value ds), p + length ds)"
    and "chars_at args (p + length ds) (c # rest)"
  using assms by (auto intro!: parse_hex_digits)

theorem read_registers:
  assumes "uart_pending (soc st) = 43 # bs"
  shows "\<exists>buf. replied st bs (regs_hex ((g_regs st)(0 := 0)) 0 NGDB_REGS)
    (st\<lparr>g_regs := (g_regs st)(0 := 0), pkt_buf := buf\<rparr>) (cmd_read_regs st)"
proof -
  have "\<exists>buf. read_regs_state st = st\<lparr>g_regs := (g_regs st)(0 := 0), pkt_buf := buf\<rparr>"
    by (auto simp: read_regs_state_def regs_to_hex_put Let_def)
  moreover have "cmd_read_regs st = send (pkt_buf (read_regs_state st)) (read_regs_state st)"
    by (simp add: cmd_read_regs_def read_regs_state_def Let_def split: prod.split)
  ultimately show ?thesis
    using send_replied [OF read_regs_reply [of st] assms, of "read_regs_state st"] by auto
qed

text \<open>Packets in an otherwise empty buffer.\<close>

definition packet :: "u8 list \<Rightarrow> bytes_from" where
  "packet cs = put_chars (\<lambda>_. 0) 0 cs"

lemma packet_chars: "chars_at (packet cs) 0 cs"
  unfolding packet_def by (rule put_chars_at)

lemma read_registers_witness:
  "\<exists>st u. cmd_read_regs (sample_stub [43]) = Some (with_uart u st) \<and>
     tx_log u = rsp_frame (regs_hex ((g_regs (sample_stub [43]))(0 := 0)) 0 NGDB_REGS)"
  using read_registers [of "sample_stub [43]" "[]"] by (auto simp: replied_def)

theorem write_registers:
  assumes "chars_at args p (regs_hex g 0 NGDB_REGS)" and "uart_pending (soc st) = 43 # bs"
  shows "replied st bs [79, 75] (st\<lparr>g_regs := (\<lambda>k. if k = 0 then 0 else if k < NGDB_REGS then g k else g_regs st k)\<rparr>)
    (cmd_write_regs args p st)"
proof -
  have "(hex_to_regs NGDB_REGS 0 (g_regs st) args p)(0 := 0) =
      (\<lambda>k. if k = 0 then 0 else if k < NGDB_REGS then g k else g_regs st k)"
    using hex_to_regs_hex [OF assms(1)] by auto
  then show ?thesis
    using send_replied [OF lit_strings(1) assms(2)] by (simp add: cmd_write_regs_def put_ok_def)
qed


lemma write_registers_witness:
  "\<exists>st. cmd_write_regs (packet (regs_hex (\<lambda>k. word_of_nat (7 * k)) 0 NGDB_REGS)) 0 (sample_stub [43]) = Some st \<and>
     g_regs st 5 = 35"
  using write_registers [OF packet_chars, where st = "sample_stub [43]" and bs = "[]" and g = "\<lambda>k. word_of_nat (7 * k)"]
  by (auto simp: replied_def NGDB_REGS_def)

lemma read_mem_put:
  assumes "unat a + clamp n \<le> 4096"
  shows "\<exists>buf. read_mem_state a n st = st\<lparr>pkt_buf := buf\<rparr>"
proof -
  have "read_mem_state a n st =
      st\<lparr>soc := soc (read_mem_state a n st), pkt_buf := pkt_buf (read_mem_state a n st)\<rparr>"
    by (simp add: read_mem_state_def split: prod.split)
  with read_mem_block(1) [OF assms] show ?thesis by (metis (no_types) stub.surjective stub.update_convs(1))
qed

lemma cmd_read_mem_state:
  "cmd_read_mem args p st =
     do { (a, p1) \<leftarrow> parse_hex args p;
          (n, p3) \<leftarrow> parse_hex args (skip_char 44 args p1);
          send (pkt_buf (read_mem_state a n st)) (read_mem_state a n st) }"
  by (simp add: cmd_read_mem_def read_mem_state_def Let_def split: prod.split Option.bind_split)

text \<open>The arguments of \<open>m\<close> and \<open>M\<close>: an address, a comma, a length and one more character.\<close>

lemma parse_pair:
  assumes "chars_at args p (da @ 44 # dn @ c # rest)" "list_all is_hex da" "list_all is_hex dn" "\<not> is_hex c"
  obtains p1 p3 where "parse_hex args p = Some (word_of_nat (hex_value da), p1)"
    "parse_hex args (skip_char 44 args p1) = Some (word_of_nat (hex_value dn), p3)"
    "chars_at args p3 (c # rest)"
proof -
  have "\<not> is_hex (44 :: u8)" by (simp add: is_hex_def hex_to_nib_def)
  note a = parse_hex_args [OF assms(1,2) this]
  then have s: "skip_char 44 args (p + length da) = p + length da + 1"
    and c: "chars_at args (p + length da + 1) (dn @ c # rest)" by (simp_all add: skip_char_def)
  from parse_hex_args [OF c assms(3,4)] a(1) s show thesis by (intro that) auto
qed

lemma sample_args:
  "list_all is_hex [49, 48, 48]" "hex_value [49, 48, 48] = 256"
  "list_all is_hex [52]" "hex_value [52] = 4" "list_all is_hex [50]" "hex_value [50] = 2" "\<not> is_hex 44" "\<not> is_hex 0"
  "list_all is_hex [97, 53, 99, 51]"
  by (simp_all add: is_hex_def hex_to_nib_def hex_value_def)

text \<open>C23: The m addr,length command on a block in RAM replies the hex text of its bytes, at most 139
  of them however long the request, and changes nothing but the packet buffer.\<close>

theorem read_memory:
  assumes "chars_at args p (da @ 44 # dn @ [c])" and "list_all is_hex da" "list_all is_hex dn" "\<not> is_hex c"
    and "a = word_of_nat (hex_value da)" "n = word_of_nat (hex_value dn)"
    and "unat a + clamp n \<le> 4096" and "uart_pending (soc st) = 43 # bs"
  shows "\<exists>buf. replied st bs (block_hex (soc st) a (clamp n)) (st\<lparr>pkt_buf := buf\<rparr>) (cmd_read_mem args p st)"
proof -
  obtain buf where b: "read_mem_state a n st = st\<lparr>pkt_buf := buf\<rparr>" using read_mem_put [OF assms(7)] by blast
  obtain p1 p3 where "parse_hex args p = Some (a, p1)" "parse_hex args (skip_char 44 args p1) = Some (n, p3)"
    using parse_pair [OF assms(1-4)] assms(5,6) by metis
  then have "cmd_read_mem args p st = send (pkt_buf (read_mem_state a n st)) (read_mem_state a n st)"
    by (simp add: cmd_read_mem_state)
  then show ?thesis
    using send_replied [OF read_mem_block(2) [OF assms(7), of st] assms(8), of "read_mem_state a n st"] b by auto
qed

lemma read_memory_witness:
  "\<exists>st u. cmd_read_mem (packet ([49, 48, 48] @ 44 # [52] @ [0])) 0 (sample_stub [43]) = Some (with_uart u st) \<and>
     tx_log u = rsp_frame [54, 51, 48, 52, 48, 48, 48, 48]"
proof -
  have "block_hex (sample_soc [43]) 0x100 4 = [54, 51, 48, 52, 48, 48, 48, 48]" by code_simp
  moreover have "clamp 4 = 4" by (simp add: clamp_def)
  ultimately show ?thesis
    using read_memory [OF packet_chars sample_args(1,3,8), where a = "0x100" and n = 4 and st = "sample_stub [43]" and bs = "[]"]
      sample_args
    by (auto simp: replied_def)
qed

text \<open>C24: The M addr,length:data command on a block in RAM stores exactly the bytes the hex digits
  denote, leaves every other byte of RAM as it was, and replies OK.\<close>

theorem write_memory:
  fixes a n :: u32
  assumes "chars_at args p (da @ 44 # dn @ 58 # ds)" and "list_all is_hex da" "list_all is_hex dn" "list_all is_hex ds"
    and "a = word_of_nat (hex_value da)" "n = word_of_nat (hex_value dn)"
    and "length ds = 2 * unat n" and "unat a + unat n \<le> 4096" and "uart_pending (soc st) = 43 # bs"
  shows "\<exists>s1. replied st bs [79, 75] (st\<lparr>soc := s1\<rparr>) (cmd_write_mem args p st) \<and>
    (\<forall>i < unat n. byte_at s1 (a + word_of_nat i) = hex_byte (ds ! (2 * i)) (ds ! Suc (2 * i))) \<and>
    (\<forall>b. in_ram b \<longrightarrow> unat b < unat a \<or> unat a + unat n \<le> unat b \<longrightarrow> byte_at s1 b = byte_at (soc st) b)"
proof -
  have "\<not> is_hex (58 :: u8)" by (simp add: is_hex_def hex_to_nib_def)
  then obtain p1 p3 where p: "parse_hex args p = Some (a, p1)" "parse_hex args (skip_char 44 args p1) = Some (n, p3)"
    "chars_at args p3 (58 # ds)"
    using parse_pair [OF assms(1-3)] assms(5,6) by metis
  then have c: "skip_char 58 args p3 = p3 + 1" "chars_at args (p3 + 1) ds" by (simp_all add: skip_char_def)
  obtain s1 where "hex_to_mem args (p3 + 1) a n (soc st) = (n, s1)" "uart s1 = uart (soc st)"
    and m: "\<forall>i < unat n. byte_at s1 (a + word_of_nat i) = hex_byte (ds ! (2 * i)) (ds ! Suc (2 * i))"
      "\<forall>b. in_ram b \<longrightarrow> unat b < unat a \<or> unat a + unat n \<le> unat b \<longrightarrow> byte_at s1 b = byte_at (soc st) b"
    using hex_to_mem_block [OF c(2) assms(7,4,8), of "soc st"] by blast
  then have "replied st bs [79, 75] (st\<lparr>soc := s1\<rparr>) (cmd_write_mem args p st)"
    using p(1,2) c(1) send_replied [OF lit_strings(1) assms(9), of "st\<lparr>soc := s1\<rparr>"]
    by (simp add: cmd_write_mem_def put_ok_def)
  with m show ?thesis by blast
qed


lemma write_memory_witness:
  "\<exists>st. cmd_write_mem (packet ([49, 48, 48] @ 44 # [50] @ 58 # [97, 53, 99, 51])) 0 (sample_stub [43]) = Some st \<and>
     byte_at (soc st) 0x100 = 0xa5 \<and> byte_at (soc st) 0x101 = 0xc3"
proof -
  let ?args = "packet ([49, 48, 48] @ 44 # [50] @ 58 # [97, 53, 99, 51])"
  from write_memory [OF packet_chars sample_args(1,5,9), where a = "0x100" and n = 2 and st = "sample_stub [43]" and bs = "[]"] sample_args
  obtain s1 where r: "replied (sample_stub [43]) [] [79, 75] ((sample_stub [43])\<lparr>soc := s1\<rparr>) (cmd_write_mem ?args 0 (sample_stub [43]))"
    and b: "\<forall>i < 2. byte_at s1 (0x100 + word_of_nat i) = hex_byte ([97, 53, 99, 51] ! (2 * i)) ([97, 53, 99, 51] ! Suc (2 * i))"
    by auto
  have "byte_at s1 0x100 = 0xa5" "byte_at s1 0x101 = 0xc3"
    using b [rule_format, of 0] b [rule_format, of 1] by (simp_all add: hex_byte_def hex_to_nib_def)
  with r show ?thesis by (auto simp: replied_def)
qed

section \<open>Breakpoint packets\<close>

lemma dispatch_replied:
  assumes "run_command buf st = Some (Some d, st1)" "c_string d rs" "uart_pending (soc st) = 43 # bs"
    and "uart (soc st1) = uart (soc st)"
  shows "\<exists>st2. dispatch buf st = Some (0, st2) \<and> replied st bs rs st1 (Some st2)"
  using send_replied [OF assms(2-4)] assms(1) by (auto simp: dispatch_run stay_def replied_def)

lemma bp_insert_frame: "in_ram a \<Longrightarrow> uart (soc (snd (bp_insert a sc st))) = uart (soc st)"
  by (auto simp: bp_insert_def load_ram store_ram_frame Let_def split: prod.splits option.splits)

lemma bp_remove_frame:
  assumes "table_wf st" "list_all (\<lambda>b. in_ram (addr b)) (bps st)"
  shows "uart (soc (snd (bp_remove a sc st))) = uart (soc st)"
proof (cases "a \<in> sw_armed sc st")
  case True
  from bp_remove_armed [OF assms(1) True] obtain k where "k < slots_end sc"
    "bp_remove a sc st = (0, bp_release k st)" by metis
  moreover from this(1) have "in_ram (addr (bps st ! k))"
    using assms slot_in_table by (fastforce simp: list_all_length)
  ultimately show ?thesis by (simp add: bp_release_def restore_bp_def store_ram_frame)
qed (simp add: bp_remove_absent assms(1))

fun request_packet :: "bp_request \<Rightarrow> u8" where
  "request_packet (Insert a) = 90"
| "request_packet (Remove a) = 122"

lemma run_bp_request:
  assumes "chars_at buf 0 (request_packet r # t # 44 # da @ [c])" "list_all is_hex da" "\<not> is_hex c"
    and "request_addr r = word_of_nat (hex_value da)"
  shows "t = 48 \<Longrightarrow> run_command buf st =
      Some (status (unit_request (\<lambda>a. bp_insert a False) (\<lambda>a. bp_remove a False) r st))"
    and "t = 49 \<Longrightarrow> run_command buf st =
      Some (status (unit_request (\<lambda>a. on_soc (hw_bp_insert a)) (\<lambda>a. on_soc (hw_bp_remove a)) r st))"
proof -
  have b: "buf 0 = request_packet r" "buf 1 = t" "buf 2 = 44" "chars_at buf 3 (da @ [c])"
    using assms(1) by (simp_all add: numeral_2_eq_2 numeral_3_eq_3)
  from parse_hex_args(1) [OF b(4) assms(2,3)] assms(4)
  have p: "parse_hex buf 3 = Some (request_addr r, 3 + length da)" by simp
  show "t = 48 \<Longrightarrow> run_command buf st =
      Some (status (unit_request (\<lambda>a. bp_insert a False) (\<lambda>a. bp_remove a False) r st))"
    "t = 49 \<Longrightarrow> run_command buf st =
      Some (status (unit_request (\<lambda>a. on_soc (hw_bp_insert a)) (\<lambda>a. on_soc (hw_bp_remove a)) r st))"
    using b p by (cases r; simp add: run_command_def bp_command_def)+
qed

definition verdict :: "int \<Rightarrow> u8 list" where
  "verdict rc = (if rc = 0 then [79, 75] else [69, 48, 49])"

lemma status_replied:
  assumes "run_command buf st = Some (status res)" "uart_pending (soc st) = 43 # bs"
    and "uart (soc (snd res)) = uart (soc st)"
  shows "\<exists>st2. dispatch buf st = Some (0, st2) \<and> replied st bs (verdict (fst res)) (snd res) (Some st2)"
  using dispatch_replied [OF _ _ assms(2,3)] assms(1) lit_strings by (simp add: status_def verdict_def)

theorem sw_breakpoint_packet:
  assumes "chars_at buf 0 (request_packet r # 48 # 44 # da @ [c])" and "list_all is_hex da" and "\<not> is_hex c"
    and "request_addr r = word_of_nat (hex_value da)" and "in_ram (request_addr r)"
    and "table_wf st" and "list_all (\<lambda>b. in_ram (addr b)) (bps st)" and "uart_pending (soc st) = 43 # bs"
  shows "\<exists>st1 st2. dispatch buf st = Some (0, st2) \<and>
    replied st bs (verdict (fst (set_request 8 r (sw_armed False st)))) st1 (Some st2) \<and>
    sw_armed False st1 = snd (set_request 8 r (sw_armed False st)) \<and> table_wf st1"
proof -
  let ?res = "unit_request (\<lambda>a. bp_insert a False) (\<lambda>a. bp_remove a False) r st"
  have "uart (soc (snd ?res)) = uart (soc st)"
    using assms(5-7) bp_insert_frame bp_remove_frame by (cases r) simp_all
  from status_replied [OF run_bp_request(1) [OF assms(1-4) refl] assms(8) this]
    sw_table.request_refines [OF assms(6), where r = r and sc = False]
  show ?thesis by (auto simp: sw_cap_def)
qed

lemma sw_breakpoint_packet_witness:
  "\<exists>st. dispatch (packet (90 # 48 # 44 # [49, 48, 48] @ [44])) (sample_stub [43]) = Some (0, st) \<and>
     tx_log (uart (soc st)) = rsp_frame [79, 75]"
  using sw_breakpoint_packet [where r = "Insert 0x100" and da = "[49, 48, 48]" and c = 44 and st = "sample_stub [43]"
      and bs = "[]" and buf = "packet (90 # 48 # 44 # [49, 48, 48] @ [44])"]
    packet_chars [of "90 # 48 # 44 # [49, 48, 48] @ [44]"] sample_args
  by (auto simp: replied_def verdict_def NBP_def in_ram_def free_bp_def list_all_iff)



theorem unsupported_packet:
  assumes "buf 0 \<notin> {63, 103, 71, 109, 77, 99, 115, 90, 122, 113, 72}" and "uart_pending (soc st) = 43 # bs"
  shows "\<exists>st2. dispatch buf st = Some (0, st2) \<and> replied st bs [] st (Some st2)"
  using dispatch_replied [OF _ lit_strings(3) assms(2) refl, of buf] assms(1) by (simp add: run_command_def)

lemma unsupported_packet_witness:
  "\<exists>st. dispatch ((\<lambda>_. 0)(0 := 118)) (sample_stub [43]) = Some (0, st) \<and> tx_log (uart (soc st)) = rsp_frame []"
  using unsupported_packet [of "(\<lambda>_. 0)(0 := 118)" "sample_stub [43]" "[]"] by (auto simp: replied_def)

end
