(* ===== verification/Rsp_Session.thy ===== *)
theory Rsp_Session
  imports Command_Effects
begin

text \<open>
  \<open>gdb_stub_entry\<close> of sw/gdb_stub.c: leaving a single step, the stop reply and the command loop.
  The loop reads packets with \<open>get_packet\<close>, so its only way out is a command that resumes the
  program. The theorem about sessions says that for every sequence of well-formed commands that
  ends in a resume, and a host that acknowledges the replies, the entry point returns, has sent
  exactly the acknowledgements and replies in order, and has changed the system as the commands
  say, one after the other.
\<close>

section \<open>The command loop and the entry point\<close>

text \<open>\<open>buf\<close> is what the stack holds at the loop's local buffer. A session that never resumes the
  program, because the host stops sending, is \<open>None\<close>.\<close>

partial_function (option) stub_loop :: "bytes_from \<Rightarrow> stub \<Rightarrow> stub option" where
  "stub_loop buf st =
     do { (n, buf1, s1) \<leftarrow> get_packet buf PKT_BUF_SIZE (soc st);
          let st1 = st\<lparr>soc := s1\<rparr>;
          if n < 0 then stub_loop buf1 st1
          else do { (resume, st2) \<leftarrow> dispatch buf1 st1;
                    if resume \<noteq> 0 then Some st2 else stub_loop buf1 st2 } }"

definition leave_step :: "stub \<Rightarrow> stub" where
  "leave_step st = (if stepping st then (remove_step_bps st)\<lparr>stepping := False\<rparr> else st)"

definition gdb_stub_entry :: "bytes_from \<Rightarrow> u32 \<Rightarrow> stub \<Rightarrow> stub option" where
  "gdb_stub_entry buf cause st =
     do { let st1 = leave_step st;
          st2 \<leftarrow> cmd_stop_reason st1;
          st3 \<leftarrow> stub_loop buf st2;
          Some (st3\<lparr>soc := hw_bp_clear_hits (soc st3)\<rparr>) }"

section \<open>A session\<close>

definition rx_buf :: "bytes_from \<Rightarrow> u8 list \<Rightarrow> bytes_from" where
  "rx_buf buf cs = (put_chars buf 0 cs)(length cs := 0)"

definition payload_ok :: "u8 list \<Rightarrow> bool" where
  "payload_ok cs \<longleftrightarrow> length cs < 280 \<and> 35 \<notin> set cs"

inductive session :: "bytes_from \<Rightarrow> stub \<Rightarrow> u8 list list \<Rightarrow> u8 list \<Rightarrow> stub \<Rightarrow> bool" where
  resume: "payload_ok cs \<Longrightarrow> ram_command (rx_buf buf cs) st \<Longrightarrow>
    run_command (rx_buf buf cs) st = Some (None, st1) \<Longrightarrow> session buf st [cs] [43] st1"
| reply: "payload_ok cs \<Longrightarrow> ram_command (rx_buf buf cs) st \<Longrightarrow>
    run_command (rx_buf buf cs) st = Some (Some d, st1) \<Longrightarrow> c_string d rs \<Longrightarrow>
    session (rx_buf buf cs) st1 css out st2 \<Longrightarrow>
    session buf st (cs # css) (43 # rsp_frame rs @ out) st2"

inductive_cases session_NilE: "session buf st [] out st2"

text \<open>What the host sends: every command framed, an acknowledgement after each reply.\<close>

fun host_bytes :: "u8 list list \<Rightarrow> u8 list" where
  "host_bytes [] = []"
| "host_bytes [cs] = rsp_frame cs"
| "host_bytes (cs # css) = rsp_frame cs @ 43 # host_bytes css"

lemma get_packet_session:
  assumes "uart_pending (soc st) = rsp_frame cs @ bs" "payload_ok cs"
  shows "\<exists>u. get_packet buf PKT_BUF_SIZE (soc st) = Some (int (length cs), rx_buf buf cs, soc (with_uart u st)) \<and>
    uart_pending (soc (with_uart u st)) = bs \<and> tx_log u = tx_log (uart (soc st)) @ [43]"
proof -
  obtain s' where s': "get_packet buf PKT_BUF_SIZE (soc st) = Some (int (length cs), rx_buf buf cs, s')"
    "uart_channel.step (soc st) s' bs [43]"
    using uart_channel.get_packet_frame [of "soc st" "[]" cs bs PKT_BUF_SIZE buf] assms
    by (auto simp: get_packet_def rx_buf_def payload_ok_def PKT_BUF_SIZE_def)
  then obtain u where "s' = (soc st)\<lparr>uart := u\<rparr>" by (auto simp: step_uart)
  with s' show ?thesis by (intro exI [of _ u]) (auto simp: step_uart uart_sent_def)
qed

lemma stub_loop_session:
  "session buf st css out st2 \<Longrightarrow>
   uart_pending (soc (with_uart u st)) = host_bytes css @ bs \<Longrightarrow>
   \<exists>u'. stub_loop buf (with_uart u st) = Some (with_uart u' st2) \<and>
     uart_pending (soc (with_uart u' st2)) = bs \<and> tx_log u' = tx_log u @ out"
proof (induction arbitrary: u rule: session.induct)
  case (resume cs buf st st1)
  from resume.prems obtain v where v:
    "get_packet buf PKT_BUF_SIZE (soc (with_uart u st)) = Some (int (length cs), rx_buf buf cs, soc (with_uart v st))"
    "uart_pending (soc (with_uart v st)) = bs" "tx_log v = tx_log u @ [43]"
    using get_packet_session [of "with_uart u st" cs bs buf] resume.hyps(1) by auto
  have "dispatch (rx_buf buf cs) (with_uart v st) = Some (1, with_uart v st1)"
    using ram_command_blind [OF resume.hyps(2)] resume.hyps(3) by (simp add: dispatch_run blind_def)
  moreover have "uart_pending (soc (with_uart v st1)) = bs" using v(2) by (simp add: pending_uart)
  ultimately show ?case using v by (subst stub_loop.simps) (auto simp: Let_def)
next
  case (reply cs buf st d st1 rs css out st2)
  have h: "host_bytes (cs # css) = rsp_frame cs @ 43 # host_bytes css"
    using reply.hyps(5) by (cases css) (auto elim: session_NilE)
  from reply.prems obtain v where v:
    "get_packet buf PKT_BUF_SIZE (soc (with_uart u st)) = Some (int (length cs), rx_buf buf cs, soc (with_uart v st))"
    "uart_pending (soc (with_uart v st)) = 43 # host_bytes css @ bs" "tx_log v = tx_log u @ [43]"
    using get_packet_session [of "with_uart u st" cs "43 # host_bytes css @ bs" buf] reply.hyps(1) h by auto
  have p: "uart_pending (soc (with_uart v st1)) = 43 # host_bytes css @ bs" using v(2) by (simp add: pending_uart)
  obtain w where w: "send d (with_uart v st1) = Some (with_uart w st1)"
    "uart_pending (soc (with_uart w st1)) = host_bytes css @ bs" "tx_log w = tx_log v @ rsp_frame rs"
    using send_session [OF reply.hyps(4) p] by auto
  have "dispatch (rx_buf buf cs) (with_uart v st) = Some (0, with_uart w st1)"
    using ram_command_blind [OF reply.hyps(2)] reply.hyps(3) w(1) by (simp add: dispatch_run blind_def stay_def)
  then have "stub_loop buf (with_uart u st) = stub_loop (rx_buf buf cs) (with_uart w st1)"
    using v by (subst stub_loop.simps) (auto simp: Let_def)
  with reply.IH [OF w(2)] v(3) w(3) show ?case by auto
qed

lemma entry_session:
  assumes s: "session buf (leave_step st) css out st2"
    and p: "uart_pending (soc (leave_step st)) = 43 # host_bytes css @ bs"
  shows "\<exists>u. gdb_stub_entry buf cause st = Some (with_uart u st2) \<and>
    uart_pending (soc (with_uart u st2)) = bs \<and>
    tx_log u = tx_log (uart (soc (leave_step st))) @ rsp_frame [84, 48, 53] @ out"
proof -
  have "c_string (lit ''T05'') [84, 48, 53]" by (simp add: c_string_def lit_def)
  from send_session [OF this p] obtain v where v: "cmd_stop_reason (leave_step st) = Some (with_uart v (leave_step st))"
    "uart_pending (soc (with_uart v (leave_step st))) = host_bytes css @ bs"
    "tx_log v = tx_log (uart (soc (leave_step st))) @ rsp_frame [84, 48, 53]"
    unfolding cmd_stop_reason_def by blast
  obtain u where u: "stub_loop buf (with_uart v (leave_step st)) = Some (with_uart u st2)"
    "uart_pending (soc (with_uart u st2)) = bs" "tx_log u = tx_log v @ out"
    using stub_loop_session [OF s v(2)] by blast
  with v u show ?thesis by (auto simp: gdb_stub_entry_def clear_hits Let_def)
qed

section \<open>The invariant of the stub\<close>

text \<open>Between two visits the scratch slots are in use only for a pending step.\<close>

definition stub_inv :: "stub \<Rightarrow> bool" where
  "stub_inv st \<longleftrightarrow> table_wf st \<and> (sw_armed True st \<noteq> {} \<longrightarrow> stepping st)"

definition in_loop :: "stub \<Rightarrow> bool" where
  "in_loop st \<longleftrightarrow> table_wf st \<and> sw_armed True st = {} \<and> \<not> stepping st"

lemma in_loop_soc [simp]: "in_loop (st\<lparr>soc := s\<rparr>) = in_loop st"
  by (simp add: in_loop_def)

lemma leave_step_in_loop: "stub_inv st \<Longrightarrow> in_loop (leave_step st)"
  using remove_step_bps_wf [of st] by (auto simp: leave_step_def stub_inv_def in_loop_def)

lemma bp_stepping [simp]:
  "stepping (snd (bp_insert a sc st)) = stepping st" "stepping (snd (bp_remove a sc st)) = stepping st"
  by (auto simp: bp_insert_def bp_remove_def bp_release_def Let_def split: prod.splits option.splits)

lemma in_loop_bp:
  assumes "in_loop st"
  shows "in_loop (snd (bp_insert a False st))" "in_loop (snd (bp_remove a False st))"
  using assms bp_insert_table [where sc = False and a = a and st = st]
    bp_remove_table [where sc = False and a = a and st = st]
  by (simp_all add: in_loop_def)

lemma plant_wf: "table_wf st \<Longrightarrow> table_wf (fold (\<lambda>t st. snd (bp_insert t True st)) ts st)"
  by (induction ts arbitrary: st) (simp_all add: bp_insert_table)

lemma next_pcs_table: "table_wf st \<Longrightarrow> table_wf (snd (next_pcs pc st))"
  by (auto simp: next_pcs_def Let_def split: prod.splits)

lemma plant_steps_wf: "table_wf st \<Longrightarrow> table_wf (plant_steps st)"
  using next_pcs_table [of st "g_regs st (NGDB_REGS - 1)"]
  by (simp add: plant_steps_def plant_wf case_prod_unfold Let_def)

lemma in_loop_frame:
  "in_loop st \<Longrightarrow> in_loop (read_regs_state st)" "in_loop st \<Longrightarrow> in_loop (read_mem_state a n st)"
  "in_loop st \<Longrightarrow> in_loop (st\<lparr>g_regs := g\<rparr>)"
  by (simp_all add: read_regs_state_def read_mem_state_def in_loop_def Let_def split: prod.split)

lemma set_resume_pc_in_loop: "in_loop st \<Longrightarrow> set_resume_pc buf p st = Some st1 \<Longrightarrow> in_loop st1"
  by (auto simp: set_resume_pc_def in_loop_frame bind_eq_Some_conv split: if_splits)

lemma bp_command_in_loop:
  assumes "in_loop st" "bp_command sw hw buf st = Some (r, st1)"
    and "\<And>a. in_loop (snd (sw a st))" "\<And>a. in_loop (snd (hw a st))"
  shows "in_loop st1 \<and> r \<noteq> None"
  using assms by (auto simp: bp_command_def status_def bind_eq_Some_conv split: if_splits)

text \<open>Every command, whatever its text, keeps the invariant; the loop is left only with the scratch
  slots accounted for.\<close>

lemma run_command_inv:
  assumes l: "in_loop st" and r: "run_command buf st = Some (r, st1)"
  shows "if r = None then stub_inv st1 else in_loop st1"
proof -
  have hw: "in_loop (snd (on_soc f st))" for f using l by (simp add: on_soc_def split: prod.split)
  have res: "stub_inv st1" if "in_loop st1" for st1 using that by (simp add: in_loop_def stub_inv_def)
  have step: "stub_inv ((plant_steps st1)\<lparr>stepping := True\<rparr>)" if "in_loop st1" for st1
    using that plant_steps_wf [of st1] by (simp add: stub_inv_def in_loop_def)
  show ?thesis
    using r l in_loop_frame [of st] set_resume_pc_in_loop [OF l] res step
      bp_command_in_loop [OF l, of "\<lambda>a. bp_insert a False" "\<lambda>a. on_soc (hw_bp_insert a)"]
      bp_command_in_loop [OF l, of "\<lambda>a. bp_remove a False" "\<lambda>a. on_soc (hw_bp_remove a)"]
      in_loop_bp [OF l] hw
    unfolding run_command_def by (auto simp: bind_eq_Some_conv split: if_splits)
qed

lemma dispatch_inv:
  assumes "in_loop st" and "dispatch buf st = Some (resume, st1)"
  shows "if resume \<noteq> 0 then stub_inv st1 else in_loop st1"
proof -
  from assms(2) obtain r st2 where r: "run_command buf st = Some (r, st2)"
    and f: "finish (Some (r, st2)) = Some (resume, st1)"
    by (auto simp: dispatch_run finish_def bind_eq_Some_conv)
  from run_command_inv [OF assms(1) r] f show ?thesis
    by (cases r) (auto simp: stay_def send_def bind_eq_Some_conv)
qed

lemma stub_loop_inv:
  assumes "stub_loop buf st = Some st1" and "in_loop st"
  shows "stub_inv st1"
proof -
  have "in_loop st \<longrightarrow> stub_inv r" if "stub_loop buf st = Some r" for r
  proof (rule stub_loop.raw_induct [where P = "\<lambda>buf st r. in_loop st \<longrightarrow> stub_inv r", OF _ that])
    fix g :: "bytes_from \<Rightarrow> stub \<Rightarrow> stub option" and buf st r
    assume IH: "\<And>buf st r. g buf st = Some r \<Longrightarrow> in_loop st \<longrightarrow> stub_inv r"
      and eq: "do { (n, buf1, s1) \<leftarrow> get_packet buf PKT_BUF_SIZE (soc st);
          let st1 = st\<lparr>soc := s1\<rparr>;
          if n < 0 then g buf1 st1
          else do { (resume, st2) \<leftarrow> dispatch buf1 st1;
                    if resume \<noteq> 0 then Some st2 else g buf1 st2 } } = Some r"
    show "in_loop st \<longrightarrow> stub_inv r"
    proof
      assume l: "in_loop st"
      from eq obtain n buf1 s1 where "get_packet buf PKT_BUF_SIZE (soc st) = Some (n, buf1, s1)"
        and e: "(if n < 0 then g buf1 (st\<lparr>soc := s1\<rparr>)
          else do { (resume, st2) \<leftarrow> dispatch buf1 (st\<lparr>soc := s1\<rparr>);
                    if resume \<noteq> 0 then Some st2 else g buf1 st2 }) = Some r"
        by (auto simp: bind_eq_Some_conv Let_def)
      have l1: "in_loop (st\<lparr>soc := s1\<rparr>)" using l by simp
      show "stub_inv r"
      proof (cases "n < 0")
        case True
        with e IH l1 show ?thesis by auto
      next
        case False
        with e obtain resume st2 where d: "dispatch buf1 (st\<lparr>soc := s1\<rparr>) = Some (resume, st2)"
          and "(if resume \<noteq> 0 then Some st2 else g buf1 st2) = Some r"
          by (auto simp: bind_eq_Some_conv)
        with dispatch_inv [OF l1 d] IH show ?thesis by (auto split: if_splits)
      qed
    qed
  qed
  with assms show ?thesis by blast
qed

lemma gdb_stub_entry_inv:
  assumes "gdb_stub_entry buf cause st = Some st1" and "stub_inv st"
  shows "stub_inv st1"
proof -
  from assms(1) obtain st2 st3 where s: "cmd_stop_reason (leave_step st) = Some st2" "stub_loop buf st2 = Some st3"
    "st1 = st3\<lparr>soc := hw_bp_clear_hits (soc st3)\<rparr>"
    by (auto simp: gdb_stub_entry_def bind_eq_Some_conv Let_def)
  from s(1) leave_step_in_loop [OF assms(2)] have "in_loop st2"
    by (auto simp: cmd_stop_reason_def send_def bind_eq_Some_conv)
  from stub_loop_inv [OF s(2) this] show ?thesis by (simp add: s(3) stub_inv_def clear_hits)
qed

end
