(* ===== verification/Single_Step.thy ===== *)
theory Single_Step
  imports Rsp_Commands
begin

text \<open>
  The single step of sw/gdb_stub.c (\<open>cmd_step\<close>) against the core it steps: the breakpoints that
  \<open>plant_steps\<close> puts at the predicted successors are where the core goes next, and the core traps
  there with the cause that the stub is entered by.
\<close>

section \<open>Traps\<close>

text \<open>A breakpoint instruction of either length at \<open>a\<close>.\<close>

definition stops_at :: "soc \<Rightarrow> u32 \<Rightarrow> bool" where
  "stops_at s a \<longleftrightarrow> half_at s a = 0x9002 \<or>
     half_at s a = 0x0073 \<and> half_at s (a + 2) = 0x0010 \<and> \<not> bit a 1"

lemma stops_at_traps:
  assumes a: "in_ram a" "\<not> bit a 0" and s: "stops_at s a"
  shows "decompressor (decomp_input s a) = 0x00100073"
    and "is_env_trap (decompressor (decomp_input s a))" "\<not> is_ecall (decompressor (decomp_input s a))"
proof -
  have d: "decompressor (decomp_input s a) = 0x00100073"
  proof (cases "half_at s a = 0x9002")
    case True
    define c where "c = decomp_input s a"
    have h: "bits 15 0 c = 0x9002" using True by (simp add: half_decomp c_def)
    have f: "c_op c = c_op (bits 15 0 c)" "c_f3 c = c_f3 (bits 15 0 c)" "rwl c = rwl (bits 15 0 c)"
      "rwh c = rwh (bits 15 0 c)"
      unfolding c_op_def c_f3_def rwl_def rwh_def by (rule word32_eqI; simp add: vec_simps)+
    have g: "bit c 12 = bit (bits 15 0 c) 12" by (simp add: vec_simps)
    have "c_op 0x9002 = 2" "c_f3 0x9002 = 4" "rwl 0x9002 = 0" "rwh 0x9002 = 0" "bit (0x9002::u32) 12"
      by code_simp+
    then show ?thesis
      using f g unfolding h by (simp add: c_def [symmetric] decompressor_def decompress_q2_def)
  next
    case False
    then have h: "half_at s a = 0x0073" "half_at s (a + 2) = 0x0010" and b: "\<not> bit a 1"
      using s by (auto simp: stops_at_def)
    have w: "ram_waddr (a OR 2) = ram_waddr a"
      by (rule word32_eqI) (simp_all add: ram_waddr_def vec_simps)
    let ?w = "ram s (ram_waddr a)"
    have "bits 15 0 ?w = 0x0073" "bits 31 16 ?w = 0x0010"
      using h b w by (simp_all add: half_at_def LOAD_halfword_def plus2_or bit_simps)
    moreover have "?w = push_bit 16 (bits 31 16 ?w) OR bits 15 0 ?w"
      by (rule word32_eqI; simp add: vec_simps)
    ultimately have "?w = 0x00100073" by simp
    then have "decomp_input s a = 0x00100073" using b by (simp add: decomp_input_def)
    moreover have "decompressor 0x00100073 = 0x00100073" by code_simp
    ultimately show ?thesis by simp
  qed
  then show "decompressor (decomp_input s a) = 0x00100073" .
  have "is_env_trap 0x00100073" "\<not> is_ecall 0x00100073" by code_simp+
  with d show "is_env_trap (decompressor (decomp_input s a))" "\<not> is_ecall (decompressor (decomp_input s a))" by simp_all
qed

section \<open>Planting\<close>

abbreviation span :: "soc \<Rightarrow> u32 \<Rightarrow> u32 set" where
  "span s a \<equiv> footprint (saved_slot s a)"

lemma patched_stops:
  assumes "code_addr s a"
  shows "stops_at (patched s a) a"
proof (cases "long_at s a")
  case True
  then have a: "in_ram a" "\<not> bit a 0" "\<not> bit a 1" using assms by (auto simp: code_addr_def)
  have "bit (a OR 2) 1" by (simp add: bit_simps)
  with a have "a OR 2 \<noteq> a" by metis
  moreover have "a + 2 = a OR 2" "in_ram (a OR 2)" "\<not> bit (a OR 2) 0"
    using a by (simp_all add: plus2_or in_ram_or2 bit_simps)
  ultimately show ?thesis using True assms by (simp add: stops_at_def patched_half_at code_addr_def)
qed (use assms in \<open>simp add: stops_at_def patched_half_at code_addr_def\<close>)


lemma span_in_ram:
  assumes "code_addr s a" "h \<in> span s a"
  shows "in_ram h" "\<not> bit h 0"
  using assms plus2_or [of a] in_ram_or2 [of a]
  by (auto simp: saved_slot_footprint code_addr_def bit_simps split: if_splits)

lemma patched_outside:
  assumes "code_addr s a" "in_ram h" "\<not> bit h 0" "h \<notin> span s a"
  shows "half_at (patched s a) h = half_at s h"
  using assms by (auto simp: patched_half_at saved_slot_footprint split: if_splits)

lemma patched_other:
  assumes a: "code_addr s a" and b: "code_addr s b" and d: "span s a \<inter> span s b = {}"
  shows "code_addr (patched s a) b" "span (patched s a) b = span s b"
    and "h \<in> span s b \<Longrightarrow> half_at (patched s a) h = half_at s h"
proof -
  show k: "half_at (patched s a) h = half_at s h" if "h \<in> span s b" for h
    using patched_outside [OF a span_in_ram [OF b that]] d that by blast
  have "b \<in> span s b" by (simp add: saved_slot_footprint)
  from k [OF this] have "long_at (patched s a) b = long_at s b" by (simp add: long_at_def)
  then show "code_addr (patched s a) b" "span (patched s a) b = span s b"
    using b by (simp_all add: code_addr_def saved_slot_footprint)
qed

lemma stops_at_span: "code_addr s a \<Longrightarrow> \<forall>h \<in> span s a. half_at s' h = half_at (patched s a) h \<Longrightarrow> stops_at s' a"
  using patched_stops [of s a] by (auto simp: stops_at_def saved_slot_footprint patched_half_at code_addr_def split: if_splits)

lemma plant_one:
  assumes "table_wf st" "t \<notin> sw_armed True st" "card (sw_armed True st) < 2" "code_addr (soc st) t"
  shows "soc (snd (bp_insert t True st)) = patched (soc st) t"
    and "table_wf (snd (bp_insert t True st))"
    and "sw_armed True (snd (bp_insert t True st)) = insert t (sw_armed True st)"
proof -
  obtain k where "bp_insert t True st =
      (0, st\<lparr>soc := patched (soc st) t, bps := (bps st)[k := saved_slot (soc st) t]\<rparr>)"
    using bp_insert_code [OF assms(1,2) _ assms(4)] assms(3) by (auto simp: sw_cap_def)
  then show "soc (snd (bp_insert t True st)) = patched (soc st) t" by simp
  show "table_wf (snd (bp_insert t True st))"
    "sw_armed True (snd (bp_insert t True st)) = insert t (sw_armed True st)"
    using bp_insert_table [OF assms(1), where sc = True and a = t] assms(3) by (simp_all add: sw_cap_def)
qed

definition plant :: "u32 list \<Rightarrow> stub \<Rightarrow> stub" where
  "plant ts st = fold (\<lambda>t st. snd (bp_insert t True st)) ts st"

lemma plant_two:
  assumes wf: "table_wf st" "sw_armed True st = {}" and t: "code_addr (soc st) t" "code_addr (soc st) u"
    and d: "t \<noteq> u \<Longrightarrow> span (soc st) t \<inter> span (soc st) u = {}"
  shows "soc (plant [t, u] st) = (if t = u then patched (soc st) t else patched (patched (soc st) t) u)"
proof -
  note p = plant_one [OF wf(1) _ _ t(1)]
  show ?thesis
  proof (cases "t = u")
    case True
    with p wf(2) show ?thesis by (simp add: plant_def bp_insert_armed)
  next
    case False
    let ?st = "snd (bp_insert t True st)"
    have "code_addr (soc ?st) u" using p(1) wf(2) patched_other(1) [OF t d [OF False]] by simp
    with plant_one(1) [of ?st u] p wf(2) False show ?thesis by (simp add: plant_def)
  qed
qed

text \<open>With one or two targets whose instructions do not overlap, every target stops the core and
  every halfword outside them is untouched.\<close>

lemma plant_targets:
  assumes wf: "table_wf st" "sw_armed True st = {}" and l: "ts = [t] \<or> ts = [t, u]"
    and c: "\<forall>t \<in> set ts. code_addr (soc st) t"
    and d: "\<forall>t \<in> set ts. \<forall>u \<in> set ts. t \<noteq> u \<longrightarrow> span (soc st) t \<inter> span (soc st) u = {}"
  shows "\<forall>t \<in> set ts. stops_at (soc (plant ts st)) t"
    and "in_ram h \<Longrightarrow> \<not> bit h 0 \<Longrightarrow> \<forall>t \<in> set ts. h \<notin> span (soc st) t \<Longrightarrow>
      half_at (soc (plant ts st)) h = half_at (soc st) h"
proof -
  have single: "soc (plant [t] st) = patched (soc st) t" if "code_addr (soc st) t" for t
    using plant_one(1) [OF wf(1) _ _ that] wf(2) by (simp add: plant_def)
  have double: "soc (plant [t, u] st) = patched (patched (soc st) t) u" "code_addr (patched (soc st) t) u"
      "span (patched (soc st) t) u = span (soc st) u"
    if "code_addr (soc st) t" "code_addr (soc st) u" "span (soc st) t \<inter> span (soc st) u = {}" for t u
  proof -
    have "t \<noteq> u" using that(3) by (auto simp: saved_slot_footprint split: if_splits)
    with plant_two [OF wf that(1,2)] that(3) patched_other [OF that]
    show "soc (plant [t, u] st) = patched (patched (soc st) t) u" "code_addr (patched (soc st) t) u"
      "span (patched (soc st) t) u = span (soc st) u" by simp_all
  qed
  have same: "soc (plant [t, t] st) = patched (soc st) t" if "code_addr (soc st) t" for t
    using plant_two [OF wf that that] by simp
  consider (one) v where "set ts = {v}" "soc (plant ts st) = patched (soc st) v"
    | (two) v w where "set ts = {v, w}" "span (soc st) v \<inter> span (soc st) w = {}"
        "soc (plant ts st) = patched (patched (soc st) v) w"
        "code_addr (patched (soc st) v) w" "span (patched (soc st) v) w = span (soc st) w"
  proof -
    consider "ts = [t]" | "ts = [t, t]" | "ts = [t, u]" "t \<noteq> u" using l by metis
    then show thesis
    proof cases
      case 1
      with c single show thesis by (intro that(1) [of t]) auto
    next
      case 2
      with c same show thesis by (intro that(1) [of t]) auto
    next
      case 3
      then have "span (soc st) t \<inter> span (soc st) u = {}" "code_addr (soc st) t" "code_addr (soc st) u"
        using c d by auto
      with double [of t u] 3 show thesis by (intro that(2) [of t u]) auto
    qed
  qed
  note cases = this
  show "\<forall>t \<in> set ts. stops_at (soc (plant ts st)) t"
    using cases
  proof cases
    case (one v)
    with c patched_stops show ?thesis by auto
  next
    case (two v w)
    have "stops_at (soc (plant ts st)) v"
      using c two span_in_ram [of "soc st" v]
      by (intro stops_at_span [of "soc st"]) (auto simp: patched_outside)
    with two patched_stops show ?thesis by simp
  qed
  show "half_at (soc (plant ts st)) h = half_at (soc st) h"
    if "in_ram h" "\<not> bit h 0" "\<forall>t \<in> set ts. h \<notin> span (soc st) t"
    using cases
  proof cases
    case (one v)
    with c that show ?thesis by (simp add: patched_outside)
  next
    case (two v w)
    with c that show ?thesis by (simp add: patched_outside)
  qed
qed

section \<open>Taking the breakpoints out again\<close>

lemma remove_step_bps_soc:
  assumes "length (bps st) = NBP"
  shows "soc (remove_step_bps st) = fold restore_bp (filter used (slot_range True st)) (soc st)"
proof -
  have "drop 8 (bps st) = [bps st ! 8, bps st ! 9]"
    using assms by (intro nth_equalityI) (auto simp: NBP_def less_Suc_eq numeral_2_eq_2)
  then show ?thesis
    by (auto simp: remove_step_bps_eq slot_range_def bp_release_def Let_def)
qed

lemma restore_two:
  assumes t: "code_addr s t" and u: "code_addr s u" and d: "span s t \<inter> span s u = {}"
    and xs: "xs = [saved_slot s t, saved_slot (patched s t) u] \<or> xs = [saved_slot (patched s t) u, saved_slot s t]"
  shows "fold restore_bp xs (patched (patched s t) u) = s"
proof -
  let ?b = "saved_slot s t" and ?c = "saved_slot (patched s t) u"
  note o = patched_other [OF t u d]
  have "restore_bp ?c (restore_bp ?b (patched (patched s t) u)) = restore_bp ?b (restore_bp ?c (patched (patched s t) u))"
    using t o d by (intro restore_commute saved_slot_wf) auto
  with xs show ?thesis using t o(1) by (auto simp: restore_patched)
qed

lemma plant_slot:
  assumes wf: "table_wf st" "t \<notin> sw_armed True st" "card (sw_armed True st) < 2" "code_addr (soc st) t"
  shows "\<exists>xs ys. filter used (slot_range True st) = xs @ ys \<and>
    filter used (slot_range True (snd (bp_insert t True st))) = xs @ saved_slot (soc st) t # ys"
proof -
  let ?b = "saved_slot (soc st) t"
  obtain k where k: "slots_start True \<le> k" "k < slots_end True" "\<not> used (bps st ! k)"
    and i: "bp_insert t True st = (0, st\<lparr>soc := patched (soc st) t, bps := (bps st)[k := ?b]\<rparr>)"
    using bp_insert_code [OF wf(1,2) _ wf(4)] wf(3) by (auto simp: sw_cap_def)
  have "k - slots_start True < length (slot_range True st)" "\<not> used (slot_range True st ! (k - slots_start True))"
    using slot_range_nth [OF wf(1) k(1,2)] k(3) by auto
  moreover have "slot_range True (snd (bp_insert t True st)) = (slot_range True st)[k - slots_start True := ?b]"
    using slot_range_update [OF wf(1) k(1,2), of ?b] i by (simp add: slot_range_bps)
  ultimately show ?thesis
    using filter_used_update [of "k - slots_start True" "slot_range True st"] by fastforce
qed

lemma plant_first:
  assumes wf: "table_wf st" "sw_armed True st = {}" and c: "code_addr (soc st) t"
  shows "soc (plant [t] st) = patched (soc st) t" "table_wf (plant [t] st)" "sw_armed True (plant [t] st) = {t}"
    "filter used (slot_range True (plant [t] st)) = [saved_slot (soc st) t]"
proof -
  have e: "filter used (slot_range True st) = []" using wf(2) by (simp add: sw_armed_def)
  show "soc (plant [t] st) = patched (soc st) t" "table_wf (plant [t] st)" "sw_armed True (plant [t] st) = {t}"
    using plant_one [OF wf(1) _ _ c] wf(2) by (simp_all add: plant_def)
  show "filter used (slot_range True (plant [t] st)) = [saved_slot (soc st) t]"
    using plant_slot [OF wf(1) _ _ c] wf(2) e by (auto simp: plant_def)
qed

lemma plant_second:
  assumes wf: "table_wf st" "sw_armed True st = {}" and c: "code_addr (soc st) t" "code_addr (soc st) u"
    and d: "t \<noteq> u" "span (soc st) t \<inter> span (soc st) u = {}"
  shows "table_wf (plant [t, u] st)"
    "filter used (slot_range True (plant [t, u] st)) \<in>
      {[saved_slot (soc st) t, saved_slot (patched (soc st) t) u],
       [saved_slot (patched (soc st) t) u, saved_slot (soc st) t]}"
proof -
  let ?a = "plant [t] st"
  note f = plant_first [OF wf c(1)]
  have u: "u \<notin> sw_armed True ?a" "card (sw_armed True ?a) < 2" "code_addr (soc ?a) u"
    using f d(1) patched_other(1) [OF c d(2)] by simp_all
  have p: "plant [t, u] st = snd (bp_insert u True ?a)" by (simp add: plant_def)
  from p plant_one(2) [OF f(2) u] show "table_wf (plant [t, u] st)" by simp
  from plant_slot [OF f(2) u] f(1,4) p show "filter used (slot_range True (plant [t, u] st)) \<in>
      {[saved_slot (soc st) t, saved_slot (patched (soc st) t) u],
       [saved_slot (patched (soc st) t) u, saved_slot (soc st) t]}"
    by (auto simp: append_eq_Cons_conv Cons_eq_append_conv)
qed

lemma plant_undone:
  assumes wf: "table_wf st" "sw_armed True st = {}" and l: "ts = [t] \<or> ts = [t, u]"
    and c: "\<forall>t \<in> set ts. code_addr (soc st) t"
    and d: "\<forall>t \<in> set ts. \<forall>u \<in> set ts. t \<noteq> u \<longrightarrow> span (soc st) t \<inter> span (soc st) u = {}"
  shows "soc (remove_step_bps (plant ts st)) = soc st"
proof -
  have one: "soc (remove_step_bps (plant [t] st)) = soc st" if "code_addr (soc st) t" for t
    using plant_first [OF wf that] restore_patched [OF that] by (simp add: remove_step_bps_soc table_wf_def)
  have same: "plant [t, t] st = plant [t] st" if "code_addr (soc st) t" for t
    using plant_first [OF wf that] by (simp add: plant_def bp_insert_armed)
  have two: "soc (remove_step_bps (plant [t, u] st)) = soc st"
    if "code_addr (soc st) t" "code_addr (soc st) u" "t \<noteq> u" "span (soc st) t \<inter> span (soc st) u = {}"
    using plant_second [OF wf that] restore_two [OF that(1,2,4)] plant_two [OF wf that(1,2)] that(3,4)
    by (auto simp: remove_step_bps_soc table_wf_def)
  show ?thesis using l c d one same two by (cases "t = u") auto
qed


lemma bp_insert_regs [simp]: "g_regs (snd (bp_insert a sc st)) = g_regs st"
  by (auto simp: bp_insert_def Let_def split: prod.splits option.splits)

lemma plant_regs [simp]: "g_regs (plant ts st) = g_regs st"
  by (induction ts arbitrary: st) (simp_all add: plant_def)

lemma remove_step_bps_stepping [simp]:
  "remove_step_bps (st\<lparr>stepping := x\<rparr>) = (remove_step_bps st)\<lparr>stepping := x\<rparr>"
  by (simp add: remove_step_bps_eq bp_release_def Let_def)

section \<open>The instruction that is stepped\<close>

lemma low_fields:
  "c_op (bits 15 0 c) = c_op c" "c_f3 (bits 15 0 c) = c_f3 c" "rcl (bits 15 0 c) = rcl c"
  "rch (bits 15 0 c) = rch c" "rwl (bits 15 0 c) = rwl c" "rwh (bits 15 0 c) = rwh c"
  "shiftImm (bits 15 0 c) = shiftImm c" "bits 12 2 (bits 15 0 c) = bits 12 2 c"
  "bits 11 10 (bits 15 0 c) = bits 11 10 c" "bits 12 10 (bits 15 0 c) = bits 12 10 c"
  "bits 6 5 (bits 15 0 c) = bits 6 5 c" "bits 1 0 (bits 15 0 c) = bits 1 0 c"
  unfolding c_op_def c_f3_def rcl_def rch_def rwl_def rwh_def shiftImm_def
  by (rule word32_eqI; simp add: vec_simps)+

lemma low_imms:
  "addi4spnImm (bits 15 0 c) = addi4spnImm c" "lwswImm (bits 15 0 c) = lwswImm c"
  "lwspImm (bits 15 0 c) = lwspImm c" "swspImm (bits 15 0 c) = swspImm c"
  "addi16spImm (bits 15 0 c) = addi16spImm c" "addImm (bits 15 0 c) = addImm c"
  "bImm (bits 15 0 c) = bImm c" "jalImm (bits 15 0 c) = jalImm c" "luiImm (bits 15 0 c) = luiImm c"
  unfolding addi4spnImm_def lwswImm_def lwspImm_def swspImm_def addi16spImm_def addImm_def bImm_def
    jalImm_def luiImm_def
  by (rule word32_eqI; simp add: vec_simps)+

lemma decompressor_low:
  assumes "\<not> long_instr c"
  shows "decompressor (bits 15 0 c) = decompressor c"
proof -
  have "bit (bits 15 0 c) 12 = bit c 12" "c_op c \<noteq> 3"
    using assms by (simp_all add: vec_simps long_instr_def c_op_def)
  then show ?thesis
    by (simp only: decompressor_def decompress_q0_def decompress_q1_def decompress_q1_alu_def decompress_q2_def
        c_jal_def c_branch_def low_fields low_imms if_False simp_thms)
qed

definition instr_halves :: "soc \<Rightarrow> u32 \<Rightarrow> u32 set" where
  "instr_halves s pc = (if long_instr (decomp_input s pc) then {pc, pc + 2} else {pc})"

lemma long_half: "long_instr (decomp_input s pc) \<longleftrightarrow> long_at s pc"
  by (simp add: long_at_def half_decomp half_fields long_instr_def c_op_def)

lemma word_of_halves:
  assumes "in_ram a" "\<not> bit a 0" "\<not> bit a 1"
  shows "ram s (ram_waddr a) = vcat [(16, half_at s (a + 2)), (16, half_at s a)]"
proof -
  have w: "ram_waddr (a OR 2) = ram_waddr a"
    by (rule word32_eqI) (simp_all add: ram_waddr_def vec_simps)
  let ?w = "ram s (ram_waddr a)"
  have "half_at s a = bits 15 0 ?w" "half_at s (a + 2) = bits 31 16 ?w"
    using assms w by (simp_all add: half_at_def LOAD_halfword_def plus2_or bit_simps)
  moreover have "vcat [(16, bits 31 16 ?w), (16, bits 15 0 ?w)] = ?w"
    by (rule word32_eqI; simp add: vec_simps)
  ultimately show ?thesis by simp
qed

text \<open>The core goes to the same place when the halfwords of its instruction are the same.\<close>

lemma decoded_same:
  assumes pc: "in_ram pc" "\<not> bit pc 0" "long_at s pc \<longrightarrow> \<not> bit pc 1"
    and h: "\<forall>h \<in> instr_halves s pc. half_at s' h = half_at s h"
  shows "long_instr (decomp_input s' pc) = long_instr (decomp_input s pc)"
    "decompressor (decomp_input s' pc) = decompressor (decomp_input s pc)"
proof -
  have h0: "half_at s' pc = half_at s pc" using h by (simp add: instr_halves_def split: if_splits)
  show l: "long_instr (decomp_input s' pc) = long_instr (decomp_input s pc)"
    using h0 by (simp add: long_half long_at_def)
  show "decompressor (decomp_input s' pc) = decompressor (decomp_input s pc)"
  proof (cases "long_instr (decomp_input s pc)")
    case True
    then have "\<not> bit pc 1" using pc(3) by (simp add: long_half)
    moreover have "half_at s' (pc + 2) = half_at s (pc + 2)" using h True by (simp add: instr_halves_def)
    ultimately show ?thesis
      using h0 word_of_halves [OF pc(1,2)] by (simp add: decomp_input_def)
  next
    case False
    then show ?thesis
      using decompressor_low [of "decomp_input s' pc"] decompressor_low [of "decomp_input s pc"] l h0
      by (simp add: half_decomp)
  qed
qed

lemma pc_new_at_same:
  assumes "in_ram pc" "\<not> bit pc 0" "long_at s pc \<longrightarrow> \<not> bit pc 1"
    and "\<forall>h \<in> instr_halves s pc. half_at s' h = half_at s h"
  shows "pc_new_at s' g mepc (ucast pc) = pc_new_at s g mepc (ucast pc)"
  using decoded_same [OF assms] by (simp add: pc_new_at_def ucast14_in_ram assms(1) Let_def)

section \<open>A single step\<close>

text \<open>What the step relies on: an instruction at an address the core can execute and the stub can
  read, that is neither \<open>mret\<close> nor the reserved \<open>c.jr x0\<close>, and successors that can be patched
  without touching one another or the instruction itself.\<close>

definition steppable :: "stub \<Rightarrow> bool" where
  "steppable st \<longleftrightarrow>
     (let s = soc st; pc = g_regs st (NGDB_REGS - 1); ts = fst (next_pcs pc st)
      in in_ram pc \<and> \<not> bit pc 0 \<and> (long_at s pc \<longrightarrow> \<not> bit pc 1) \<and>
         \<not> is_mret (decompressor (decomp_input s pc)) \<and> \<not> reserved_jr (decomp_input s pc) \<and>
         (\<forall>t \<in> set ts. code_addr s t \<and> instr_halves s pc \<inter> span s t = {}) \<and>
         (\<forall>t \<in> set ts. \<forall>u \<in> set ts. t \<noteq> u \<longrightarrow> span s t \<inter> span s u = {}))"

lemma next_pcs_length: "\<exists>t u. fst (next_pcs pc st) = [t] \<or> fst (next_pcs pc st) = [t, u]"
  by (auto simp: next_pcs_def Let_def split: prod.split)

lemma plant_steps_plant:
  "in_ram (g_regs st (NGDB_REGS - 1)) \<Longrightarrow>
   plant_steps st = plant (fst (next_pcs (g_regs st (NGDB_REGS - 1)) st)) st"
proof -
  assume "in_ram (g_regs st (NGDB_REGS - 1))"
  from next_pcs_fields [OF this refl, of st] have "snd (next_pcs (g_regs st (NGDB_REGS - 1)) st) = st"
    by simp
  then show ?thesis by (simp add: plant_steps_def plant_def case_prod_unfold)
qed

lemma code_addr_ucast: "code_addr s t \<Longrightarrow> ucast (ucast t :: 14 word) = t"
  by (simp add: code_addr_def ucast14_in_ram)

abbreviation step_pc :: "stub \<Rightarrow> u32" where
  "step_pc st \<equiv> g_regs st (NGDB_REGS - 1)"

abbreviation step_targets :: "stub \<Rightarrow> u32 list" where
  "step_targets st \<equiv> fst (next_pcs (step_pc st) st)"

lemma steppableD:
  assumes "steppable st"
  shows "in_ram (step_pc st)" "\<not> bit (step_pc st) 0" "long_at (soc st) (step_pc st) \<longrightarrow> \<not> bit (step_pc st) 1"
    and "\<not> is_mret (decompressor (decomp_input (soc st) (step_pc st)))"
    and "\<not> reserved_jr (decomp_input (soc st) (step_pc st))"
    and "\<forall>t \<in> set (step_targets st). code_addr (soc st) t"
    and "\<forall>t \<in> set (step_targets st). instr_halves (soc st) (step_pc st) \<inter> span (soc st) t = {}"
    and "\<forall>t \<in> set (step_targets st). \<forall>u \<in> set (step_targets st). t \<noteq> u \<longrightarrow>
      span (soc st) t \<inter> span (soc st) u = {}"
  using assms by (simp_all add: steppable_def Let_def)

lemma step_instr_kept:
  assumes wf: "table_wf st" "sw_armed True st = {}" and ok: "steppable st"
  shows "\<forall>h \<in> instr_halves (soc st) (step_pc st). half_at (soc (plant_steps st)) h = half_at (soc st) h"
proof
  fix h assume h: "h \<in> instr_halves (soc st) (step_pc st)"
  note s = steppableD [OF ok]
  obtain t u where l: "step_targets st = [t] \<or> step_targets st = [t, u]" using next_pcs_length by blast
  have "in_ram h" "\<not> bit h 0"
    using h s(1-3) plus2_or [of "step_pc st"] in_ram_or2 [of "step_pc st"]
    by (auto simp: instr_halves_def long_half bit_simps split: if_splits)
  with plant_targets(2) [OF wf l s(6,8)] h s(7) show "half_at (soc (plant_steps st)) h = half_at (soc st) h"
    unfolding plant_steps_plant [OF s(1)] by blast
qed

lemma step_lands:
  assumes wf: "table_wf st" "sw_armed True st = {}" and ok: "steppable st"
    and a: "a = pc_new_at (soc st) (g_regs st) mepc (ucast (step_pc st))"
  shows "pc_new_at (soc (plant_steps st)) (g_regs st) mepc (ucast (step_pc st)) = a"
    and "ucast a \<in> set (step_targets st)"
    and "code_addr (soc st) (ucast a)" and "stops_at (soc (plant_steps st)) (ucast a)"
    and "soc (remove_step_bps (plant_steps st)) = soc st"
proof -
  note s = steppableD [OF ok]
  obtain t u where l: "step_targets st = [t] \<or> step_targets st = [t, u]" using next_pcs_length by blast
  have p: "plant_steps st = plant (step_targets st) st" by (rule plant_steps_plant [OF s(1)])
  show "pc_new_at (soc (plant_steps st)) (g_regs st) mepc (ucast (step_pc st)) = a"
    unfolding a by (rule pc_new_at_same [OF s(1-3) step_instr_kept [OF wf ok]])
  have "a \<in> predicted (step_pc st) st"
    using pc_new_at_predicted [OF s(1) _ s(4,5)] s(3) by (simp add: long_half a)
  then show t: "ucast a \<in> set (step_targets st)"
    using s(6) code_addr_ucast by (fastforce simp: predicted_def)
  then show "code_addr (soc st) (ucast a)" "stops_at (soc (plant_steps st)) (ucast a)"
    using plant_targets(1) [OF wf l s(6,8)] s(6) by (simp_all add: p)
  show "soc (remove_step_bps (plant_steps st)) = soc st"
    using plant_undone [OF wf l s(6,8)] by (simp add: p)
qed

lemma step_traps:
  assumes wf: "table_wf st" "sw_armed True st = {}" and ok: "steppable st"
  shows "decompressor (decomp_input (soc (plant_steps st))
      (ucast (pc_new_at (soc st) (g_regs st) mepc (ucast (step_pc st))))) = 0x00100073"
  using step_lands(3,4) [OF wf ok refl] by (intro stops_at_traps(1)) (auto simp: code_addr_def)

section \<open>The command\<close>

lemma set_resume_pc_frame:
  assumes "set_resume_pc args p st = Some st0"
  shows "table_wf st0 = table_wf st" "sw_armed sc st0 = sw_armed sc st" "soc st0 = soc st"
  using assms by (auto simp: set_resume_pc_def bind_eq_Some_conv split: if_splits)

lemma single_step_stops:
  assumes "table_wf st" and "sw_armed True st = {}"
    and "set_resume_pc args p st = Some st0" and "steppable st0"
  shows "\<exists>st1. cmd_step args p st = Some (1, st1) \<and> stepping st1 \<and> g_regs st1 = g_regs st0 \<and>
    (let pc = ucast (g_regs st0 (NGDB_REGS - 1)); a = pc_new_at (soc st1) (g_regs st1) epc pc
     in a = pc_new_at (soc st) (g_regs st0) epc pc \<and>
        decompressor (decomp_input (soc st1) (ucast a)) = 0x00100073)"
proof -
  note f = set_resume_pc_frame [OF assms(3)]
  have wf: "table_wf st0" "sw_armed True st0 = {}" using f assms(1,2) by simp_all
  show ?thesis
    using step_traps [OF wf assms(4), of epc] step_lands(1) [OF wf assms(4) refl, of epc]
      plant_steps_plant [of st0] steppableD(1) [OF assms(4)] f(3) assms(3)
    by (simp add: cmd_step_def)
qed

lemma sample_resume: "set_resume_pc (\<lambda>_. 0) 0 (sample_stub bs) = Some (sample_stub bs)"
  by (simp add: set_resume_pc_def)

lemma sample_steppable: "steppable (sample_stub [])"
  by code_simp

end
