(* ===== verification/Isr.thy ===== *)
theory Isr
  imports Rsp_Session
begin

text \<open>
  The trap handlers of sw/isr.c, called by the wrapper of sw/crt0.S: the tick interrupt and the
  breakpoint. The tick source is the pending bit behind \<open>IO_IRQ_STATUS\<close> and \<open>IO_IRQ_CLEAR\<close>
  (sim/tb.v): it stays set until the handler clears it. \<open>code_half\<close> is what a halfword load from
  program memory returns.
\<close>

record isr =
  tick_count :: u32
  irq_pending :: u32
  mepc :: u32
  code_half :: "u32 \<Rightarrow> u16"

definition read_mepc :: "isr \<Rightarrow> u32" where "read_mepc s = mepc s"
definition write_mepc :: "u32 \<Rightarrow> isr \<Rightarrow> isr" where "write_mepc v s = s\<lparr>mepc := v\<rparr>"

text \<open>A store to \<open>IO_IRQ_CLEAR\<close> clears the bits written as 1.\<close>

definition irq_clear :: "u32 \<Rightarrow> isr \<Rightarrow> isr" where
  "irq_clear v s = s\<lparr>irq_pending := irq_pending s AND NOT v\<rparr>"

definition irq_handler :: "u32 \<Rightarrow> isr \<Rightarrow> isr" where
  "irq_handler cause s =
     (let status = irq_pending s
      in if status AND 0x1 \<noteq> 0 then irq_clear 0x1 (s\<lparr>tick_count := tick_count s + 1\<rparr>) else s)"

definition ebreak_handler :: "u32 \<Rightarrow> isr \<Rightarrow> isr" where
  "ebreak_handler cause s =
     (let epc = read_mepc s;
          hw = code_half s epc;
          n = (if hw AND 0x3 = 0x3 then 4 else 2)
      in write_mepc (epc + n) s)"

text \<open>Built with \<open>GDB_STUB\<close>: the advance is taken back and the stub decides.\<close>

definition ebreak_handler_gdb :: "bytes_from \<Rightarrow> u32 \<Rightarrow> isr \<times> stub \<Rightarrow> (isr \<times> stub) option" where
  "ebreak_handler_gdb buf cause = (\<lambda>(s, st).
     (let epc = read_mepc s; s = ebreak_handler cause s; s = write_mepc epc s
      in do { st' \<leftarrow> gdb_stub_entry buf cause st; Some (s, st') }))"

text \<open>The wrapper of sw/crt0.S: \<open>bgez a0\<close> on \<open>mcause\<close>.\<close>

definition isr_entry :: "u32 \<Rightarrow> isr \<Rightarrow> isr" where
  "isr_entry cause s = (if bit cause 31 then irq_handler cause s else ebreak_handler cause s)"

section \<open>Lemmas\<close>

lemma ebreak_handler_frame:
  "tick_count (ebreak_handler cause s) = tick_count s" "irq_pending (ebreak_handler cause s) = irq_pending s"
  by (simp_all add: ebreak_handler_def write_mepc_def Let_def)

text \<open>The tick source raises its bit, the handler runs: no tick is counted twice, and one is lost
  only when the bit was still pending.\<close>

datatype irq_event = Tick | Trap u32

fun irq_step :: "irq_event \<Rightarrow> isr \<Rightarrow> isr" where
  "irq_step Tick s = s\<lparr>irq_pending := irq_pending s OR 1\<rparr>"
| "irq_step (Trap cause) s = isr_entry cause s"

fun raised :: "irq_event list \<Rightarrow> isr \<Rightarrow> nat" where
  "raised [] s = 0"
| "raised (e # es) s =
     (if e = Tick \<and> \<not> bit (irq_pending s) 0 then 1 else 0) + raised es (irq_step e s)"

lemma and_1_bit: "(w :: u32) AND 1 \<noteq> 0 \<longleftrightarrow> bit w 0"
  by (simp add: and_one_eq bit_0 mod_2_eq_odd)

lemma pending_step:
  "bit (irq_pending (irq_step Tick s)) 0" "tick_count (irq_step Tick s) = tick_count s"
  "bit cause 31 \<Longrightarrow> \<not> bit (irq_pending (irq_step (Trap cause) s)) 0"
  "bit cause 31 \<Longrightarrow> tick_count (irq_step (Trap cause) s) = tick_count s + of_bool (bit (irq_pending s) 0)"
  "\<not> bit cause 31 \<Longrightarrow> irq_pending (irq_step (Trap cause) s) = irq_pending s"
  "\<not> bit cause 31 \<Longrightarrow> tick_count (irq_step (Trap cause) s) = tick_count s"
  by (auto simp: isr_entry_def irq_handler_def irq_clear_def Let_def ebreak_handler_frame
      bit_or_iff bit_and_iff bit_not_iff bit_1_iff and_1_bit simp del: bit_0)

lemma ticks_counted:
  "tick_count (fold irq_step es s) + of_bool (bit (irq_pending (fold irq_step es s)) 0) =
   tick_count s + of_bool (bit (irq_pending s) 0) + word_of_nat (raised es s)"
proof (induction es arbitrary: s)
  case (Cons e es)
  have "tick_count (irq_step e s) + of_bool (bit (irq_pending (irq_step e s)) 0) =
      tick_count s + of_bool (bit (irq_pending s) 0) +
      (if e = Tick \<and> \<not> bit (irq_pending s) 0 then 1 else 0)"
  proof (cases e)
    case Tick
    then show ?thesis using pending_step(1,2) [of s] by (simp del: bit_0 irq_step.simps)
  next
    case (Trap cause)
    then show ?thesis
      using pending_step(3-6) [of cause s] by (cases "bit cause 31") (simp_all del: bit_0 irq_step.simps)
  qed
  with Cons [of "irq_step e s"] show ?case by (simp add: algebra_simps del: bit_0 irq_step.simps)
qed simp

text \<open>The breakpoint handler resumes behind the trapping instruction.\<close>

lemma ebreak_resume:
  "mepc (ebreak_handler cause s) = mepc s + (if code_half s (mepc s) AND 3 = 3 then 4 else 2)"
  by (simp add: ebreak_handler_def read_mepc_def write_mepc_def Let_def)

end
