(* ===== verification/Sorter.thy ===== *)
theory Sorter
  imports Machine_Prelude "HOL-Library.Multiset"
begin

text \<open>
  The contract that the two sorting workloads of sw/bench_sort.c share: a routine that sorts the
  first \<open>n\<close> elements of an array in place and leaves the rest alone. Its client is the benchmark
  loop, which sorts a freshly filled array several times and then asks \<open>is_sorted\<close>.
\<close>

section \<open>The check of the benchmark\<close>

text \<open>\<open>for (i = 1; i < n; i++) if (arr[i] < arr[i - 1]) return 0;\<close>\<close>

fun is_sorted_from :: "nat \<Rightarrow> nat \<Rightarrow> u32 list \<Rightarrow> int" where
  "is_sorted_from 0 i arr = 1"
| "is_sorted_from (Suc k) i arr =
     (if arr ! i < arr ! (i - 1) then 0 else is_sorted_from k (i + 1) arr)"

definition is_sorted :: "u32 list \<Rightarrow> nat \<Rightarrow> int" where
  "is_sorted arr n = is_sorted_from (n - 1) 1 arr"

lemma is_sorted_from_iff:
  "0 < i \<Longrightarrow> is_sorted_from k i arr = 1 \<longleftrightarrow> (\<forall>j. i \<le> j \<and> j < i + k \<longrightarrow> arr ! (j - 1) \<le> arr ! j)"
proof (induction k arbitrary: i)
  case (Suc k)
  have "i \<le> j \<and> j < i + Suc k \<longleftrightarrow> j = i \<or> Suc i \<le> j \<and> j < Suc i + k" for j by arith
  then have "(\<forall>j. i \<le> j \<and> j < i + Suc k \<longrightarrow> P j) \<longleftrightarrow>
      P i \<and> (\<forall>j. Suc i \<le> j \<and> j < Suc i + k \<longrightarrow> P j)" for P by auto
  with Suc show ?case by (auto simp: not_less)
qed auto

lemma is_sorted_take:
  assumes "n \<le> length arr"
  shows "is_sorted arr n = 1 \<longleftrightarrow> sorted (take n arr)"
proof -
  have "sorted (take n arr) \<longleftrightarrow> (\<forall>i. Suc i < n \<longrightarrow> arr ! i \<le> arr ! Suc i)"
    unfolding sorted_iff_nth_Suc using assms by (simp add: min_def)
  also have "\<dots> \<longleftrightarrow> (\<forall>j. 1 \<le> j \<and> j < 1 + (n - 1) \<longrightarrow> arr ! (j - 1) \<le> arr ! j)"
  proof (intro iffI allI impI)
    fix j assume "\<forall>i. Suc i < n \<longrightarrow> arr ! i \<le> arr ! Suc i" "1 \<le> j \<and> j < 1 + (n - 1)"
    then show "arr ! (j - 1) \<le> arr ! j" by (cases j) auto
  next
    fix i assume "\<forall>j. 1 \<le> j \<and> j < 1 + (n - 1) \<longrightarrow> arr ! (j - 1) \<le> arr ! j" "Suc i < n"
    then show "arr ! i \<le> arr ! Suc i" by (auto dest: spec [of _ "Suc i"])
  qed
  finally show ?thesis by (simp add: is_sorted_def is_sorted_from_iff)
qed

section \<open>The interface\<close>

locale sorter =
  fixes sort_array :: "u32 list \<Rightarrow> nat \<Rightarrow> u32 list"
  assumes sort_mset: "n \<le> length arr \<Longrightarrow> mset (take n (sort_array arr n)) = mset (take n arr)"
    and sort_sorted: "n \<le> length arr \<Longrightarrow> sorted (take n (sort_array arr n))"
    and sort_rest: "n \<le> length arr \<Longrightarrow> drop n (sort_array arr n) = drop n arr"
begin

lemma sort_length: "n \<le> length arr \<Longrightarrow> length (sort_array arr n) = length arr"
  using sort_mset [of n arr, THEN arg_cong, of size] sort_rest [of n arr, THEN arg_cong, of length]
  by (simp add: min_def split: if_splits)

lemma sort_is_sorted: "n \<le> length arr \<Longrightarrow> is_sorted (sort_array arr n) n = 1"
  by (simp add: is_sorted_take sort_length sort_sorted)

text \<open>The sorted array is determined: any two routines of this kind agree.\<close>

lemma sort_eq:
  assumes "n \<le> length arr"
  shows "sort_array arr n = sort (take n arr) @ drop n arr"
proof -
  have "sort (take n arr) = take n (sort_array arr n)"
    by (rule properties_for_sort) (simp_all add: assms sort_mset sort_sorted)
  then show ?thesis using sort_rest [OF assms] by (metis append_take_drop_id)
qed

lemma sort_twice: "n \<le> length arr \<Longrightarrow> sort_array (sort_array arr n) n = sort_array arr n"
  by (simp add: sort_eq sort_length sorted_sort_id)

end

end
