(* ===== verification/Bench_Console.thy ===== *)
theory Bench_Console
  imports Machine_Prelude
begin

text \<open>
  The input and output that sw/bench_sort.c and sw/bench_compute.c share (each file has its own
  copy): characters written to \<open>IO_DEBUG\<close>, the result written to \<open>IO_DONE\<close>, the performance
  counters and the interrupt enable. \<open>debug_out\<close> is the sequence of bytes written to \<open>IO_DEBUG\<close>;
  the values of the counters are given by functions of the number of reads so far, since they
  belong to the core.
\<close>

record bench =
  debug_out :: "u8 list"
  io_done :: "u32 option"
  mie :: bool
  cycle_at :: "nat \<Rightarrow> u32"
  instret_at :: "nat \<Rightarrow> u32"
  reads :: nat

definition rdcycle :: "bench \<Rightarrow> u32 \<times> bench" where
  "rdcycle s = (cycle_at s (reads s), s\<lparr>reads := reads s + 1\<rparr>)"

definition rdinstret :: "bench \<Rightarrow> u32 \<times> bench" where
  "rdinstret s = (instret_at s (reads s), s\<lparr>reads := reads s + 1\<rparr>)"

definition irq_disable :: "bench \<Rightarrow> bench" where "irq_disable s = s\<lparr>mie := False\<rparr>"
definition irq_enable :: "bench \<Rightarrow> bench" where "irq_enable s = s\<lparr>mie := True\<rparr>"

definition putch :: "u8 \<Rightarrow> bench \<Rightarrow> bench" where
  "putch c s = s\<lparr>debug_out := debug_out s @ [c]\<rparr>"

definition puts_n :: "string \<Rightarrow> bench \<Rightarrow> bench" where
  "puts_n cs s = fold (\<lambda>c. putch (of_char c)) cs s"

text \<open>\<open>while (v) { buf[i++] = '0' + (v % 10); v /= 10; }\<close>\<close>

function digits_loop :: "u32 \<Rightarrow> bytes_from \<Rightarrow> nat \<Rightarrow> bytes_from \<times> nat" where
  "digits_loop v buf i =
     (if v = 0 then (buf, i)
      else digits_loop (v div 10) (buf(i := 48 + ucast (v mod 10))) (i + 1))"
  by auto

lemma word_div_10: "v \<noteq> 0 \<Longrightarrow> unat (v div 10 :: u32) < unat v"
  by (simp add: unat_div word_gt_0 [symmetric] unat_gt_0)

termination digits_loop
  by (relation "measure (\<lambda>(v, _). unat v)") (simp_all add: word_div_10)

declare digits_loop.simps [simp del]

text \<open>\<open>while (i--) putch(buf[i]);\<close>\<close>

fun put_rev :: "nat \<Rightarrow> bytes_from \<Rightarrow> bench \<Rightarrow> bench" where
  "put_rev 0 buf s = s"
| "put_rev (Suc i) buf s = put_rev i buf (putch (buf i) s)"

definition print_u32 :: "u32 \<Rightarrow> bench \<Rightarrow> bench" where
  "print_u32 v s =
     (if v = 0 then putch 48 s
      else (let (buf, i) = digits_loop v (\<lambda>_. 0) 0 in put_rev i buf s))"

section \<open>What is printed\<close>

fun decimal :: "nat \<Rightarrow> u8 list" where
  "decimal n = (if n < 10 then [48 + word_of_nat n] else decimal (n div 10) @ [48 + word_of_nat (n mod 10)])"

declare decimal.simps [simp del]

definition decimal_value :: "u8 list \<Rightarrow> nat" where
  "decimal_value cs = foldl (\<lambda>a c. 10 * a + (unat c - 48)) 0 cs"

lemma digit_char: "d < 10 \<Longrightarrow> unat (48 + word_of_nat d :: u8) = 48 + d"
  by (simp add: unat_word_ariths unat_of_nat)

lemma decimal_value_decimal: "decimal_value (decimal n) = n"
proof (induction n rule: decimal.induct)
  case (1 n)
  then show ?case
    by (subst decimal.simps) (simp add: decimal_value_def digit_char)
qed

lemma decimal_length: "n < 10 ^ k \<Longrightarrow> 0 < k \<Longrightarrow> length (decimal n) \<le> k"
proof (induction k arbitrary: n)
  case (Suc k)
  show ?case
  proof (cases "n < 10")
    case True
    then show ?thesis by (subst decimal.simps) simp
  next
    case False
    then have "0 < k" using Suc.prems by (cases k) auto
    moreover have "n div 10 < 10 ^ k" using Suc.prems by (simp add: less_mult_imp_div_less mult.commute)
    ultimately show ?thesis using Suc.IH [of "n div 10"] False by (subst decimal.simps) simp
  qed
qed simp

lemma decimal_digits: "c \<in> set (decimal n) \<Longrightarrow> 48 \<le> unat c \<and> unat c \<le> 57"
proof (induction n rule: decimal.induct)
  case (1 n)
  then show ?case
    by (subst (asm) (2) decimal.simps) (auto simp: digit_char split: if_splits)
qed

lemma decimal_no_leading_zero: "0 < n \<Longrightarrow> hd (decimal n) \<noteq> 48"
proof (induction n rule: decimal.induct)
  case (1 n)
  have ne: "decimal m \<noteq> []" for m by (subst decimal.simps) simp
  show ?case
  proof (cases "n < 10")
    case True
    then have "unat (48 + word_of_nat n :: u8) \<noteq> unat (48 :: u8)" using 1(2) by (simp add: digit_char)
    then show ?thesis using True by (subst decimal.simps) auto
  next
    case False
    then show ?thesis using 1 ne by (subst decimal.simps) auto
  qed
qed

lemma put_rev_cong: "\<forall>j < i. buf j = buf' j \<Longrightarrow> put_rev i buf s = put_rev i buf' s"
  by (induction i arbitrary: s) auto

definition write_out :: "u8 list \<Rightarrow> bench \<Rightarrow> bench" where
  "write_out cs s = s\<lparr>debug_out := debug_out s @ cs\<rparr>"

lemma putch_out: "putch c s = write_out [c] s"
  by (simp add: putch_def write_out_def)

lemma write_out_out [simp]: "write_out ds (write_out cs s) = write_out (cs @ ds) s" "write_out [] s = s"
  by (simp_all add: write_out_def)

lemma puts_n_out: "puts_n cs s = write_out (map of_char cs) s"
  by (induction cs arbitrary: s) (simp_all add: puts_n_def putch_out)

lemma ucast_digit: "(ucast (v mod 10 :: u32) :: u8) = word_of_nat (unat v mod 10)"
proof -
  have "unat (v mod 10) = unat v mod 10" by (simp add: unat_mod)
  then have "(word_of_nat (unat (v mod 10)) :: u8) = word_of_nat (unat v mod 10)" by simp
  then show ?thesis by simp
qed

lemma digits_loop_out:
  "put_rev (snd (digits_loop v buf i)) (fst (digits_loop v buf i)) s =
   put_rev i buf (write_out (if v = 0 then [] else decimal (unat v)) s)"
proof (induction v buf i arbitrary: s rule: digits_loop.induct)
  case (1 v buf i)
  show ?case
  proof (cases "v = 0")
    case True
    then show ?thesis by (simp add: digits_loop.simps [of 0])
  next
    case False
    let ?d = "48 + ucast (v mod 10) :: u8"
    have d: "unat (v div 10) = unat v div 10" by (simp add: unat_div)
    have z: "v div 10 = 0 \<longleftrightarrow> unat v < 10" by (simp add: d word_unat_eq_iff div_eq_0_iff)
    have step: "digits_loop v buf i = digits_loop (v div 10) (buf(i := ?d)) (i + 1)"
      using False by (subst digits_loop.simps) simp
    have "put_rev (snd (digits_loop v buf i)) (fst (digits_loop v buf i)) s =
        put_rev i (buf(i := ?d)) (write_out ((if v div 10 = 0 then [] else decimal (unat (v div 10))) @ [?d]) s)"
      unfolding step 1 [OF False] by (simp add: putch_out)
    also have "(if v div 10 = 0 then [] else decimal (unat (v div 10))) @ [?d] = decimal (unat v)"
      by (subst (2) decimal.simps) (simp add: z d ucast_digit)
    also have "put_rev i (buf(i := ?d)) (write_out (decimal (unat v)) s) =
        put_rev i buf (write_out (decimal (unat v)) s)"
      by (rule put_rev_cong) simp
    finally show ?thesis using False by simp
  qed
qed

lemma print_u32_out: "print_u32 v s = write_out (decimal (unat v)) s"
proof (cases "v = 0")
  case True
  then show ?thesis by (simp add: print_u32_def putch_out decimal.simps)
next
  case False
  then show ?thesis using digits_loop_out [of v "\<lambda>_. 0" 0 s] by (simp add: print_u32_def case_prod_unfold)
qed

text \<open>The ten places of \<open>buf\<close> are enough: the index ends at the number of digits.\<close>

lemma digits_loop_index:
  "snd (digits_loop v buf i) = i + (if v = 0 then 0 else length (decimal (unat v)))"
proof (induction v buf i rule: digits_loop.induct)
  case (1 v buf i)
  show ?case
  proof (cases "v = 0")
    case True
    then show ?thesis by (simp add: digits_loop.simps [of 0])
  next
    case False
    have d: "unat (v div 10) = unat v div 10" by (simp add: unat_div)
    have z: "v div 10 = 0 \<longleftrightarrow> unat v < 10" by (simp add: d word_unat_eq_iff div_eq_0_iff)
    have step: "digits_loop v buf i = digits_loop (v div 10) (buf(i := 48 + ucast (v mod 10))) (i + 1)"
      using False by (subst digits_loop.simps) simp
    show ?thesis
      unfolding step 1 [OF False] using False decimal.simps [of "unat v"] by (simp add: z d)
  qed
qed

lemma digits_fit: "snd (digits_loop v buf 0) \<le> 10"
proof -
  have "unat v < 10 ^ 10" using unsigned_less [of v, where ?'a = nat] by simp
  from decimal_length [OF this] show ?thesis by (simp add: digits_loop_index)
qed

theorem print_u32_decimal:
  "debug_out (print_u32 v s) = debug_out s @ decimal (unat v) \<and>
   decimal_value (decimal (unat v)) = unat v \<and> snd (digits_loop v (\<lambda>_. 0) 0) \<le> 10"
  by (simp add: print_u32_out write_out_def decimal_value_decimal digits_fit)

end
