(* ===== verification/Bench_Sort.thy ===== *)
theory Bench_Sort
  imports Sorter Bench_Console
begin

text \<open>
  sw/bench_sort.c: the pseudo-random test data, insertion sort, bubble sort and \<open>main\<close>. An array is
  a list; its accesses are in range where the number of elements asked for is at most its length.
  Both sorts are interpretations of the interface of theory Sorter.
\<close>

section \<open>Test data\<close>

definition xorshift32 :: "u32 \<Rightarrow> u32" where
  "xorshift32 state =
     (let x = state; x = x XOR push_bit 13 x; x = x XOR drop_bit 17 x; x = x XOR push_bit 5 x in x)"

text \<open>The loop of \<open>fill_array\<close>, with the number of iterations left and the generator's state.\<close>

fun fill_from :: "nat \<Rightarrow> nat \<Rightarrow> u32 \<Rightarrow> u32 list \<Rightarrow> u32 list" where
  "fill_from 0 i state arr = arr"
| "fill_from (Suc k) i state arr =
     (let x = xorshift32 state in fill_from k (i + 1) x (arr[i := x AND 0xFFFF]))"

definition fill_array :: "u32 list \<Rightarrow> nat \<Rightarrow> u32 \<Rightarrow> u32 list" where
  "fill_array arr n seed = fill_from n 0 seed arr"

section \<open>Insertion sort\<close>

text \<open>The inner loop: the first argument is \<open>j + 1\<close>, so 0 is the exit on \<open>j < 0\<close>.\<close>

fun shift_up :: "u32 \<Rightarrow> nat \<Rightarrow> u32 list \<Rightarrow> nat \<times> u32 list" where
  "shift_up key 0 arr = (0, arr)"
| "shift_up key (Suc j) arr =
     (if arr ! j > key then shift_up key j (arr[j + 1 := arr ! j]) else (Suc j, arr))"

definition insert_at :: "nat \<Rightarrow> u32 list \<Rightarrow> u32 list" where
  "insert_at i arr = (let key = arr ! i; (j1, arr') = shift_up key i arr in arr'[j1 := key])"

definition insertion_sort :: "u32 list \<Rightarrow> nat \<Rightarrow> u32 list" where
  "insertion_sort arr n = fold insert_at [1..<n] arr"

section \<open>Bubble sort\<close>

definition bubble_step :: "nat \<Rightarrow> u32 list \<times> bool \<Rightarrow> u32 list \<times> bool" where
  "bubble_step j = (\<lambda>(arr, swapped).
     if arr ! j > arr ! (j + 1)
     then (let tmp = arr ! j in (arr[j := arr ! (j + 1), j + 1 := tmp], True))
     else (arr, swapped))"

definition bubble_pass :: "nat \<Rightarrow> u32 list \<Rightarrow> u32 list \<times> bool" where
  "bubble_pass m arr = fold bubble_step [0..<m] (arr, False)"

text \<open>The outer loop by the number \<open>n - 1 - i\<close> of comparisons of its next pass, which is also the
  number of passes left.\<close>

fun bubble_from :: "nat \<Rightarrow> u32 list \<Rightarrow> u32 list" where
  "bubble_from 0 arr = arr"
| "bubble_from (Suc m) arr =
     (let (arr', swapped) = bubble_pass (Suc m) arr in if \<not> swapped then arr' else bubble_from m arr')"

definition bubble_sort :: "u32 list \<Rightarrow> nat \<Rightarrow> u32 list" where
  "bubble_sort arr n = bubble_from (n - 1) arr"

section \<open>Insertion sort meets the interface\<close>

lemma filter_le_sorted:
  "sorted (xs @ [x]) \<Longrightarrow> x \<le> key \<Longrightarrow> filter (\<lambda>y. y \<le> key) xs = xs \<and> filter (\<lambda>y. key < y) xs = []"
  by (auto simp: sorted_append filter_id_conv filter_empty_conv intro: order.trans)

lemma shift_up_list:
  "sorted xs \<Longrightarrow> shift_up key (length xs) (xs @ h # ys) = (k, arr) \<Longrightarrow>
   arr[k := key] = filter (\<lambda>x. x \<le> key) xs @ key # filter (\<lambda>x. key < x) xs @ ys"
proof (induction xs arbitrary: h ys k arr rule: rev_induct)
  case (snoc x xs)
  show ?case
  proof (cases "x > key")
    case True
    then have "shift_up key (length xs) (xs @ x # x # ys) = (k, arr)"
      using snoc.prems(2) by (simp add: nth_append list_update_append)
    from snoc.IH [OF _ this] snoc.prems(1) True show ?thesis by (simp add: sorted_append)
  next
    case False
    with snoc.prems filter_le_sorted [of xs x key] show ?thesis
      by (auto simp: nth_append list_update_append not_less)
  qed
qed auto

lemma insert_at_list:
  assumes "sorted xs"
  shows "insert_at (length xs) (xs @ key # ys) =
    filter (\<lambda>x. x \<le> key) xs @ key # filter (\<lambda>x. key < x) xs @ ys"
  using shift_up_list [OF assms, of key key ys]
  by (auto simp: insert_at_def nth_append split: prod.split)

lemma insert_at_sorts:
  assumes "i < length arr" "sorted (take i arr)"
  shows "sorted (take (Suc i) (insert_at i arr))"
    and "mset (take (Suc i) (insert_at i arr)) = mset (take (Suc i) arr)"
    and "drop (Suc i) (insert_at i arr) = drop (Suc i) arr" and "length (insert_at i arr) = length arr"
proof -
  let ?xs = "take i arr" and ?key = "arr ! i" and ?ys = "drop (Suc i) arr"
  define r where "r = filter (\<lambda>x. x \<le> ?key) ?xs @ ?key # filter (\<lambda>x. ?key < x) ?xs"
  have l: "length ?xs = i" using assms by simp
  have i: "insert_at i arr = r @ ?ys"
    using insert_at_list [OF assms(2), of ?key ?ys] id_take_nth_drop [OF assms(1)] l by (simp add: r_def)
  have m: "mset r = add_mset ?key (mset ?xs)"
    by (simp add: r_def not_le [symmetric] mset_filter multiset_partition [symmetric])
  from arg_cong [OF m, of size] have lr: "length r = Suc i" using l by simp
  have "sorted r"
    using assms(2) by (auto simp: r_def sorted_append sorted_wrt_filter intro: order.trans less_imp_le)
  with i m lr show "sorted (take (Suc i) (insert_at i arr))"
    "mset (take (Suc i) (insert_at i arr)) = mset (take (Suc i) arr)"
    "drop (Suc i) (insert_at i arr) = drop (Suc i) arr" "length (insert_at i arr) = length arr"
    using assms(1) by (simp_all add: take_Suc_conv_app_nth)
qed

lemma mset_take_Suc:
  "mset (take k xs) = mset (take k ys) \<Longrightarrow> drop k xs = drop k ys \<Longrightarrow> length xs = length ys \<Longrightarrow>
   mset (take (Suc k) xs) = mset (take (Suc k) ys)"
proof (cases "k < length xs")
  case True
  assume a: "mset (take k xs) = mset (take k ys)" "drop k xs = drop k ys" "length xs = length ys"
  then have "xs ! k = ys ! k" using True by (metis hd_drop_conv_nth)
  with a True show ?thesis by (simp add: take_Suc_conv_app_nth)
qed simp

lemma drop_Suc_eq: "drop k xs = drop k ys \<Longrightarrow> drop (Suc k) xs = drop (Suc k) ys"
  by (metis drop_Suc tl_drop)

lemma insertion_prefix:
  "Suc k \<le> length arr \<Longrightarrow>
   (let r = fold insert_at [1..<Suc k] arr
    in sorted (take (Suc k) r) \<and> mset (take (Suc k) r) = mset (take (Suc k) arr) \<and>
       drop (Suc k) r = drop (Suc k) arr \<and> length r = length arr)"
proof (induction k)
  case 0
  then show ?case by (cases arr) auto
next
  case (Suc k)
  let ?r = "fold insert_at [1..<Suc k] arr"
  have IH: "sorted (take (Suc k) ?r)" "mset (take (Suc k) ?r) = mset (take (Suc k) arr)"
    "drop (Suc k) ?r = drop (Suc k) arr" "length ?r = length arr"
    using Suc by (simp_all add: Let_def del: upt_Suc)
  have "fold insert_at [1..<Suc (Suc k)] arr = insert_at (Suc k) ?r" by simp
  with insert_at_sorts [of "Suc k" ?r] IH Suc.prems mset_take_Suc [OF IH(2,3,4)] drop_Suc_eq [OF IH(3)]
  show ?case by (simp add: Let_def del: upt_Suc)
qed

interpretation insertion: sorter insertion_sort
proof unfold_locales
  fix n and arr :: "u32 list"
  assume n: "n \<le> length arr"
  have "sorted (take n (insertion_sort arr n)) \<and> mset (take n (insertion_sort arr n)) = mset (take n arr) \<and>
      drop n (insertion_sort arr n) = drop n arr"
    using insertion_prefix [of "n - 1" arr] n
    by (cases n) (auto simp: insertion_sort_def Let_def simp del: upt_Suc)
  then show "mset (take n (insertion_sort arr n)) = mset (take n arr)"
    "sorted (take n (insertion_sort arr n))" "drop n (insertion_sort arr n) = drop n arr" by blast+
qed

section \<open>Bubble sort meets the interface\<close>

text \<open>A pass over the first \<open>m + 1\<close> elements moves the greatest of them to the end, and finds no
  exchange only when they were sorted.\<close>

definition pass_inv :: "nat \<Rightarrow> u32 list \<Rightarrow> u32 list \<times> bool \<Rightarrow> bool" where
  "pass_inv m arr = (\<lambda>(r, swapped). length r = length arr \<and> drop (Suc m) r = drop (Suc m) arr \<and>
     mset (take (Suc m) r) = mset (take (Suc m) arr) \<and> (\<forall>x \<in> set (take m r). x \<le> r ! m) \<and>
     (\<not> swapped \<longrightarrow> r = arr \<and> sorted (take (Suc m) arr)))"

lemma take_Suc_Suc:
  "Suc m < length xs \<Longrightarrow> take (Suc (Suc m)) xs = take m xs @ [xs ! m, xs ! Suc m]"
  by (simp add: take_Suc_conv_app_nth)

lemma bubble_step_inv:
  assumes inv: "pass_inv m arr (r, sw)" and m: "Suc m < length arr"
  shows "pass_inv (Suc m) arr (bubble_step m (r, sw))"
proof -
  have l: "length r = length arr" and d: "drop (Suc m) r = drop (Suc m) arr"
    and ms: "mset (take (Suc m) r) = mset (take (Suc m) arr)" and mx: "\<forall>x \<in> set (take m r). x \<le> r ! m"
    and ns: "\<not> sw \<Longrightarrow> r = arr \<and> sorted (take (Suc m) arr)"
    using inv by (auto simp: pass_inv_def)
  have d2: "drop (Suc (Suc m)) r = drop (Suc (Suc m)) arr" by (rule drop_Suc_eq [OF d])
  have ms2: "mset (take (Suc (Suc m)) r) = mset (take (Suc (Suc m)) arr)" by (rule mset_take_Suc [OF ms d l])
  have ts: "take (Suc m) r = take m r @ [r ! m]" using l m by (simp add: take_Suc_conv_app_nth)
  show ?thesis
  proof (cases "r ! m > r ! Suc m")
    case True
    let ?r = "r[m := r ! Suc m, Suc m := r ! m]"
    have "take (Suc (Suc m)) ?r = take m r @ [r ! Suc m, r ! m]" "take (Suc m) ?r = take m r @ [r ! Suc m]"
      "?r ! Suc m = r ! m"
      using l m by (simp_all add: take_Suc_conv_app_nth nth_list_update)
    moreover have "drop (Suc (Suc m)) ?r = drop (Suc (Suc m)) r" by simp
    ultimately show ?thesis
      using True l d2 ms2 mx l m add_mset_commute [of "r ! m" "r ! Suc m"]
      by (auto simp: pass_inv_def bubble_step_def take_Suc_Suc less_imp_le)
  next
    case False
    have "sorted (take (Suc (Suc m)) arr)" if "\<not> sw"
    proof -
      have "r = arr" "sorted (take (Suc m) arr)" using ns that by auto
      with False mx ts m show ?thesis
        by (auto simp: take_Suc_Suc sorted_append not_less intro: order.trans)
    qed
    then show ?thesis
      using False l d2 ms2 mx ts ns by (auto simp: pass_inv_def bubble_step_def not_less intro: order.trans)
  qed
qed

lemma bubble_pass_inv: "m < length arr \<Longrightarrow> pass_inv m arr (bubble_pass m arr)"
proof (induction m)
  case 0
  then show ?case by (cases arr) (simp_all add: bubble_pass_def pass_inv_def)
next
  case (Suc m)
  obtain r sw where r: "bubble_pass m arr = (r, sw)" by force
  then have "bubble_pass (Suc m) arr = bubble_step m (r, sw)" by (simp add: bubble_pass_def)
  with bubble_step_inv [of m arr r sw] Suc r show ?case by simp
qed

lemma bubble_from_sorts:
  "m < length arr \<Longrightarrow>
   sorted (take (Suc m) (bubble_from m arr)) \<and>
   mset (take (Suc m) (bubble_from m arr)) = mset (take (Suc m) arr) \<and>
   drop (Suc m) (bubble_from m arr) = drop (Suc m) arr \<and> length (bubble_from m arr) = length arr"
proof (induction m arbitrary: arr)
  case 0
  then show ?case by (cases arr) auto
next
  case (Suc m)
  obtain r sw where r: "bubble_pass (Suc m) arr = (r, sw)" by force
  with bubble_pass_inv [OF Suc.prems] have inv: "pass_inv (Suc m) arr (r, sw)" by simp
  show ?case
  proof (cases sw)
    case False
    with r inv show ?thesis by (auto simp: pass_inv_def)
  next
    case True
    let ?b = "bubble_from m r"
    have lr: "length r = length arr" "Suc m < length r" using inv Suc.prems by (auto simp: pass_inv_def)
    then have IH: "sorted (take (Suc m) ?b)" "mset (take (Suc m) ?b) = mset (take (Suc m) r)"
      "drop (Suc m) ?b = drop (Suc m) r" "length ?b = length r" using Suc.IH [of r] by auto
    have e: "?b ! Suc m = r ! Suc m" using IH(3,4) lr by (metis hd_drop_conv_nth)
    have "set (take (Suc m) ?b) = set (take (Suc m) r)" using IH(2) by (metis set_mset_mset)
    then have "\<forall>x \<in> set (take (Suc m) ?b). x \<le> ?b ! Suc m" using inv e by (auto simp: pass_inv_def)
    then have "sorted (take (Suc (Suc m)) ?b)"
      using IH(1,4) lr by (simp add: take_Suc_conv_app_nth [of "Suc m"] sorted_append)
    moreover have "bubble_from (Suc m) arr = ?b" using r True by simp
    ultimately show ?thesis
      using mset_take_Suc [OF IH(2,3,4)] drop_Suc_eq [OF IH(3)] IH(4) inv by (simp add: pass_inv_def)
  qed
qed

interpretation bubble: sorter bubble_sort
proof unfold_locales
  fix n and arr :: "u32 list"
  assume n: "n \<le> length arr"
  have "sorted (take n (bubble_sort arr n)) \<and> mset (take n (bubble_sort arr n)) = mset (take n arr) \<and>
      drop n (bubble_sort arr n) = drop n arr"
    using bubble_from_sorts [of "n - 1" arr] n by (cases n) (auto simp: bubble_sort_def)
  then show "mset (take n (bubble_sort arr n)) = mset (take n arr)"
    "sorted (take n (bubble_sort arr n))" "drop n (bubble_sort arr n) = drop n arr" by blast+
qed

section \<open>main\<close>

definition ARRAY_SIZE :: nat where "ARRAY_SIZE = 32"

text \<open>\<open>for (iter = 0; iter < 5; iter++) { fill_array(arr, ARRAY_SIZE, seed + iter); sort(arr, ARRAY_SIZE); }\<close>\<close>

definition workload :: "(u32 list \<Rightarrow> nat \<Rightarrow> u32 list) \<Rightarrow> u32 \<Rightarrow> u32 list \<Rightarrow> u32 list" where
  "workload sort_array seed arr =
     fold (\<lambda>iter arr. sort_array (fill_array arr ARRAY_SIZE (seed + word_of_nat iter)) ARRAY_SIZE) [0..<5] arr"

definition measured ::
  "string \<Rightarrow> (u32 list \<Rightarrow> nat \<Rightarrow> u32 list) \<Rightarrow> u32 \<Rightarrow> u32 list \<times> bench \<Rightarrow> u32 list \<times> bench" where
  "measured title sort_array seed = (\<lambda>(arr, s).
     (let s = puts_n title s;
          s = irq_disable s;
          (c0, s) = rdcycle s;
          (i0, s) = rdinstret s;
          arr = workload sort_array seed arr;
          (c1, s) = rdcycle s;
          (i1, s) = rdinstret s;
          s = irq_enable s;
          s = puts_n ''cycles : '' s; s = print_u32 (c1 - c0) s; s = putch 10 s;
          s = puts_n ''instret: '' s; s = print_u32 (i1 - i0) s; s = putch 10 s;
          s = puts_n ''sorted : '' s;
          s = puts_n (if is_sorted arr ARRAY_SIZE \<noteq> 0 then ''yes'' else ''NO'') s;
          s = putch 10 s
      in (arr, s)))"

text \<open>The state in which \<open>main\<close> stays in \<open>while (1) ;\<close>.\<close>

definition bench_sort_main :: "bench \<Rightarrow> bench" where
  "bench_sort_main s =
     (let arr = replicate ARRAY_SIZE 0;
          (arr, s) = measured ''=== insertion sort 32x5 ===\<newline>'' insertion_sort 0xDEAD0000 (arr, s);
          (arr, s) = measured ''=== bubble sort 32x5 ===\<newline>'' bubble_sort 0xCAFE0000 (arr, s);
          s = puts_n ''DONE\<newline>'' s
      in s\<lparr>io_done := Some 0\<rparr>)"

lemma fill_from_length [simp]: "length (fill_from k i st arr) = length arr"
  by (induction k arbitrary: i st arr) (simp_all add: Let_def)

lemma fill_array_length [simp]: "length (fill_array arr n seed) = length arr"
  by (simp add: fill_array_def)

context sorter
begin

lemma workload_sorted:
  assumes "length arr = ARRAY_SIZE"
  shows "length (workload sort_array seed arr) = ARRAY_SIZE \<and>
    is_sorted (workload sort_array seed arr) ARRAY_SIZE = 1"
proof -
  let ?f = "\<lambda>iter arr. sort_array (fill_array arr ARRAY_SIZE (seed + word_of_nat iter)) ARRAY_SIZE"
  have l: "length (fold ?f is arr) = ARRAY_SIZE" for "is"
    using assms by (induction "is" arbitrary: arr) (simp_all add: sort_length)
  have "workload sort_array seed arr = ?f 4 (fold ?f [0..<4] arr)"
    by (simp add: workload_def upt_rec numeral_eq_Suc)
  then show ?thesis using l [of "[0..<4]"] by (simp add: sort_length sort_is_sorted)
qed

lemma measured_output:
  assumes "length arr = ARRAY_SIZE"
  shows "\<exists>arr'. length arr' = ARRAY_SIZE \<and> measured title sort_array seed (arr, s) =
     (arr', (write_out (map of_char title @
         map of_char ''cycles : '' @ decimal (unat (cycle_at s (reads s + 2) - cycle_at s (reads s))) @ [10] @
         map of_char ''instret: '' @ decimal (unat (instret_at s (reads s + 3) - instret_at s (reads s + 1))) @ [10] @
         map of_char ''sorted : yes'' @ [10]) s)\<lparr>reads := reads s + 4, mie := True\<rparr>)"
  using workload_sorted [OF assms, of seed]
  by (intro exI [of _ "workload sort_array seed arr"])
     (simp add: measured_def rdcycle_def rdinstret_def irq_disable_def irq_enable_def putch_out
       puts_n_out print_u32_out Let_def, cases s, simp add: write_out_def numeral_3_eq_3)

end

text \<open>What \<open>main\<close> prints: both workloads report a sorted array, whatever the counters read.\<close>

definition report :: "string \<Rightarrow> u32 \<Rightarrow> u32 \<Rightarrow> string \<Rightarrow> u8 list" where
  "report title cycles instret verdict = map of_char title @
     map of_char ''cycles : '' @ decimal (unat cycles) @ [10] @
     map of_char ''instret: '' @ decimal (unat instret) @ [10] @ map of_char verdict @ [10]"

lemma bench_sort_main_output:
  "bench_sort_main s =
     (write_out (report ''=== insertion sort 32x5 ===\<newline>''
                   (cycle_at s (reads s + 2) - cycle_at s (reads s))
                   (instret_at s (reads s + 3) - instret_at s (reads s + 1)) ''sorted : yes'' @
                 report ''=== bubble sort 32x5 ===\<newline>''
                   (cycle_at s (reads s + 6) - cycle_at s (reads s + 4))
                   (instret_at s (reads s + 7) - instret_at s (reads s + 5)) ''sorted : yes'' @
                 map of_char ''DONE\<newline>'') s)\<lparr>io_done := Some 0, reads := reads s + 8, mie := True\<rparr>"
proof -
  define s1 where "s1 = (write_out (report ''=== insertion sort 32x5 ===\<newline>''
      (cycle_at s (reads s + 2) - cycle_at s (reads s))
      (instret_at s (reads s + 3) - instret_at s (reads s + 1)) ''sorted : yes'') s)\<lparr>reads := reads s + 4, mie := True\<rparr>"
  obtain arr1 where a1: "length arr1 = ARRAY_SIZE"
    "measured ''=== insertion sort 32x5 ===\<newline>'' insertion_sort 0xDEAD0000 (replicate ARRAY_SIZE 0, s) = (arr1, s1)"
    using insertion.measured_output [of "replicate ARRAY_SIZE 0"] unfolding s1_def report_def by fastforce
  define s2 where "s2 = (write_out (report ''=== bubble sort 32x5 ===\<newline>''
      (cycle_at s1 (reads s1 + 2) - cycle_at s1 (reads s1))
      (instret_at s1 (reads s1 + 3) - instret_at s1 (reads s1 + 1)) ''sorted : yes'') s1)\<lparr>reads := reads s1 + 4, mie := True\<rparr>"
  obtain arr2 where a2: "measured ''=== bubble sort 32x5 ===\<newline>'' bubble_sort 0xCAFE0000 (arr1, s1) = (arr2, s2)"
    using bubble.measured_output [OF a1(1)] unfolding s2_def report_def by fastforce
  have "bench_sort_main s = (puts_n ''DONE\<newline>'' s2)\<lparr>io_done := Some 0\<rparr>"
    by (simp add: bench_sort_main_def a1 a2 Let_def del: replicate.simps)
  then show ?thesis
    by (cases s) (simp add: s2_def s1_def puts_n_out write_out_def add.commute)
qed

section \<open>The generator\<close>

text \<open>Each of the three steps of \<open>xorshift32\<close> is injective, so no two states meet and the generator
  never falls into the fixed point 0.\<close>

lemma xor_shift_left_inj:
  assumes "0 < k" "x XOR push_bit k x = y XOR push_bit k (y :: u32)"
  shows "x = y"
proof (rule bit_word_eqI)
  fix n assume "n < LENGTH(32)"
  then show "bit x n = bit y n"
  proof (induction n rule: less_induct)
    case (less n)
    have "bit (x XOR push_bit k x) n = bit (y XOR push_bit k y) n" using assms(2) by simp
    with less assms(1) show ?case by (auto simp: bit_simps)
  qed
qed

lemma xor_shift_right_inj:
  assumes "0 < k" "x XOR drop_bit k x = y XOR drop_bit k (y :: u32)"
  shows "x = y"
proof (rule bit_word_eqI)
  have top: "n < 32 \<Longrightarrow> bit x (31 - n) = bit y (31 - n)" for n
  proof (induction n rule: less_induct)
    case (less n)
    have e: "bit (x XOR drop_bit k x) (31 - n) = bit (y XOR drop_bit k y) (31 - n)" using assms(2) by simp
    show ?case
    proof (cases "k \<le> n")
      case True
      then have "n - k < n" "n - k < 32" using less.prems assms(1) by simp_all
      then have "bit x (31 - (n - k)) = bit y (31 - (n - k))" by (rule less.IH)
      moreover have "31 - (n - k) = k + (31 - n)" using True less.prems by simp
      ultimately show ?thesis using e by (auto simp: bit_simps)
    next
      case False
      then have "32 \<le> k + (31 - n)" using less.prems by simp
      then show ?thesis using e by (auto simp: bit_simps beyond32)
    qed
  qed
  fix n assume "n < LENGTH(32)"
  then have "31 - (31 - n) = n" "31 - n < 32" by simp_all
  with top [of "31 - n"] show "bit x n = bit y n" by simp
qed

lemma xorshift32_inj: "xorshift32 x = xorshift32 y \<Longrightarrow> x = y"
  using xor_shift_left_inj [of 13 x y] xor_shift_right_inj [of 17 "x XOR push_bit 13 x" "y XOR push_bit 13 y"]
    xor_shift_left_inj [of 5 "(x XOR push_bit 13 x) XOR drop_bit 17 (x XOR push_bit 13 x)"
      "(y XOR push_bit 13 y) XOR drop_bit 17 (y XOR push_bit 13 y)"]
  by (simp add: xorshift32_def Let_def)

lemma xorshift32_nonzero: "x \<noteq> 0 \<Longrightarrow> xorshift32 x \<noteq> 0"
  using xorshift32_inj [of x 0] by (auto simp: xorshift32_def)

text \<open>C39: insertion_sort, and bubble_sort with its early exit when a pass exchanges nothing, sort the
  first n elements of the array as the library's sort does and leave the rest.\<close>

theorem both_sorts_sort:
  assumes "n \<le> length arr"
  shows "insertion_sort arr n = sort (take n arr) @ drop n arr \<and> bubble_sort arr n = sort (take n arr) @ drop n arr"
  using insertion.sort_eq [OF assms] bubble.sort_eq [OF assms] by simp

lemma both_sorts_sort_witness: "insertion_sort [3, 1, 2, 0] 3 = [1, 2, 3, 0] \<and> bubble_sort [3, 1, 2, 0] 3 = [1, 2, 3, 0]"
  using both_sorts_sort [of 3 "[3, 1, 2, 0]"] by (simp add: word_le_nat_alt)

end
