(* ===== verification/Bench_Compute.thy ===== *)
theory Bench_Compute
  imports Bench_Console
begin

text \<open>
  sw/bench_compute.c: the 4x4 matrix product and the TEA block cipher with the benchmark's \<open>main\<close>.
  A matrix is a function of its two indices. The loops are folds over the values of their
  counters. The product is the sum of products modulo \<open>2 ^ 32\<close>; the cipher is undone by the
  deciphering rounds in reverse order.
\<close>

section \<open>Matrix product\<close>

type_synonym matrix = "nat \<Rightarrow> nat \<Rightarrow> u32"

definition matrix_of :: "u32 list list \<Rightarrow> matrix" where
  "matrix_of rows i j = rows ! i ! j"

definition A :: matrix where
  "A = matrix_of [[1, 2, 3, 4], [5, 6, 7, 8], [9, 10, 11, 12], [13, 14, 15, 16]]"

definition B :: matrix where
  "B = matrix_of [[17, 18, 19, 20], [21, 22, 23, 24], [25, 26, 27, 28], [29, 30, 31, 32]]"

definition matmul_entry :: "matrix \<Rightarrow> matrix \<Rightarrow> nat \<Rightarrow> nat \<Rightarrow> u32" where
  "matmul_entry a b i j = fold (\<lambda>k sum. sum + a i k * b k j) [0..<4] 0"

definition matmul :: "matrix \<Rightarrow> matrix \<Rightarrow> matrix \<Rightarrow> matrix" where
  "matmul c a b =
     fold (\<lambda>i c. fold (\<lambda>j c. c(i := (c i)(j := matmul_entry a b i j))) [0..<4] c) [0..<4] c"

section \<open>TEA\<close>

definition tea_delta :: u32 where "tea_delta = 0x9E3779B9"

definition tea_round :: "u32 \<times> u32 \<times> u32 \<times> u32 \<Rightarrow> u32 \<times> u32 \<times> u32 \<Rightarrow> u32 \<times> u32 \<times> u32" where
  "tea_round = (\<lambda>(k0, k1, k2, k3) (v0, v1, sum).
     (let sum = sum + tea_delta;
          v0 = v0 + ((push_bit 4 v1 + k0) XOR (v1 + sum) XOR (drop_bit 5 v1 + k1));
          v1 = v1 + ((push_bit 4 v0 + k2) XOR (v0 + sum) XOR (drop_bit 5 v0 + k3))
      in (v0, v1, sum)))"

definition tea_encrypt :: "u32 \<times> u32 \<times> u32 \<times> u32 \<Rightarrow> u32 \<times> u32 \<Rightarrow> u32 \<times> u32" where
  "tea_encrypt key v =
     (let (v0, v1, sum) = (tea_round key ^^ 32) (fst v, snd v, 0) in (v0, v1))"

definition tea_key :: "u32 \<times> u32 \<times> u32 \<times> u32" where
  "tea_key = (0xDEADBEEF, 0xCAFEBABE, 0x01234567, 0x89ABCDEF)"

text \<open>The published deciphering routine, the reference for the cipher.\<close>

definition tea_unround :: "u32 \<times> u32 \<times> u32 \<times> u32 \<Rightarrow> u32 \<times> u32 \<times> u32 \<Rightarrow> u32 \<times> u32 \<times> u32" where
  "tea_unround = (\<lambda>(k0, k1, k2, k3) (v0, v1, sum).
     (let v1 = v1 - ((push_bit 4 v0 + k2) XOR (v0 + sum) XOR (drop_bit 5 v0 + k3));
          v0 = v0 - ((push_bit 4 v1 + k0) XOR (v1 + sum) XOR (drop_bit 5 v1 + k1))
      in (v0, v1, sum - tea_delta)))"

definition tea_decrypt :: "u32 \<times> u32 \<times> u32 \<times> u32 \<Rightarrow> u32 \<times> u32 \<Rightarrow> u32 \<times> u32" where
  "tea_decrypt key v =
     (let (v0, v1, sum) = (tea_unround key ^^ 32) (fst v, snd v, 0xC6EF3720) in (v0, v1))"

section \<open>main\<close>

definition counters :: "bench \<Rightarrow> (u32 \<times> u32) \<times> bench" where
  "counters s = (let (c, s) = rdcycle s; (i, s) = rdinstret s in ((c, i), s))"

definition print_counts :: "u32 \<times> u32 \<Rightarrow> u32 \<times> u32 \<Rightarrow> bench \<Rightarrow> bench" where
  "print_counts = (\<lambda>(c0, i0) (c1, i1) s.
     (let s = puts_n ''cycles : '' s; s = print_u32 (c1 - c0) s; s = putch 10 s;
          s = puts_n ''instret: '' s; s = print_u32 (i1 - i0) s; s = putch 10 s
      in s))"

definition bench_compute_main :: "bench \<Rightarrow> bench" where
  "bench_compute_main s =
     (let s = puts_n ''=== 4x4 matmul x10 ===\<newline>'' s;
          s = irq_disable s;
          (n0, s) = counters s;
          C = ((\<lambda>c. matmul c A B) ^^ 10) (\<lambda>_ _. 0);
          (n1, s) = counters s;
          s = irq_enable s;
          s = print_counts n0 n1 s;
          s = puts_n ''C[0][0]: '' s; s = print_u32 (C 0 0) s; s = putch 10 s;
          s = puts_n ''=== TEA x16 blocks ===\<newline>'' s;
          s = irq_disable s;
          (n0, s) = counters s;
          block = (tea_encrypt tea_key ^^ 16) (0x01020304, 0x05060708);
          (n1, s) = counters s;
          s = irq_enable s;
          s = print_counts n0 n1 s;
          s = puts_n ''DONE\<newline>'' s
      in s\<lparr>io_done := Some 0\<rparr>)"

section \<open>Lemmas\<close>

lemma fold_update:
  "fold (\<lambda>j f. f(j := g j)) [0..<n] f = (\<lambda>j. if j < n then g j else f j)"
  by (induction n) (auto simp: fun_eq_iff)

lemma matmul_eq:
  "matmul c a b i j = (if i < 4 \<and> j < 4 then (\<Sum>k<4. a i k * b k j) else c i j)"
proof -
  have e: "matmul_entry a b i j = (\<Sum>k<4. a i k * b k j)" for i j
    by (simp add: matmul_entry_def upt_rec lessThan_Suc numeral_eq_Suc add.assoc add.commute add.left_commute)
  have row: "fold (\<lambda>j c. c(i := (c i)(j := g i j))) [0..<n] c = c(i := (\<lambda>j. if j < n then g i j else c i j))" for n i g and c :: matrix
    by (induction n) (auto simp: fun_eq_iff)
  have "fold (\<lambda>i c. c(i := (\<lambda>j. if j < 4 then g i j else c i j))) [0..<n] c =
      (\<lambda>i j. if i < n \<and> j < 4 then g i j else c i j)" for n g and c :: matrix
    by (induction n) (auto simp: fun_eq_iff less_Suc_eq)
  then show ?thesis unfolding matmul_def row by (simp add: e)
qed

lemma tea_unround_round: "tea_unround key (tea_round key v) = v"
  by (cases key; cases v) (simp add: tea_unround_def tea_round_def Let_def)

lemma tea_round_sum: "snd (snd ((tea_round key ^^ n) v)) = snd (snd v) + word_of_nat n * tea_delta"
  by (induction n) (auto simp: tea_round_def Let_def case_prod_unfold algebra_simps)

lemma tea_unrounds: "(tea_unround key ^^ n) ((tea_round key ^^ n) v) = v"
proof (induction n)
  case (Suc n)
  have "(tea_unround key ^^ Suc n) ((tea_round key ^^ Suc n) v) =
      (tea_unround key ^^ n) (tea_unround key (tea_round key ((tea_round key ^^ n) v)))"
    by (simp add: funpow_swap1)
  with Suc show ?case by (simp add: tea_unround_round)
qed simp

lemma tea_decrypt_encrypt: "tea_decrypt key (tea_encrypt key v) = v"
proof -
  obtain v0 v1 sum where e: "(tea_round key ^^ 32) (fst v, snd v, 0) = (v0, v1, sum)"
    by (metis prod_cases3)
  then have "sum = 0xC6EF3720"
    using tea_round_sum [of 32 key "(fst v, snd v, 0)"] by (simp add: tea_delta_def)
  with e tea_unrounds [of 32 key "(fst v, snd v, 0)"] show ?thesis
    by (simp add: tea_encrypt_def tea_decrypt_def del: funpow.simps)
qed

text \<open>The published test vector of the all-zero key and block.\<close>

lemma tea_vector: "tea_encrypt (0, 0, 0, 0) (0, 0) = (0x41EA3A0A, 0x94BAA940)"
  by code_simp

lemma counters_eq:
  "counters s = ((cycle_at s (reads s), instret_at s (reads s + 1)), s\<lparr>reads := reads s + 2\<rparr>)"
  by (simp add: counters_def rdcycle_def rdinstret_def)

definition counts_text :: "u32 \<Rightarrow> u32 \<Rightarrow> u8 list" where
  "counts_text c i = map of_char ''cycles : '' @ decimal (unat c) @ [10] @
     map of_char ''instret: '' @ decimal (unat i) @ [10]"

lemma print_counts_out: "print_counts (c0, i0) (c1, i1) s = write_out (counts_text (c1 - c0) (i1 - i0)) s"
  by (simp add: print_counts_def counts_text_def puts_n_out print_u32_out putch_out Let_def)

lemma matmul_AB_00: "((\<lambda>c. matmul c A B) ^^ 10) c 0 0 = 250"
proof -
  have "((\<lambda>c. matmul c A B) ^^ 10) c = matmul (((\<lambda>c. matmul c A B) ^^ 9) c) A B"
    by (simp add: eval_nat_numeral)
  then show ?thesis
    by (simp add: matmul_eq A_def B_def matrix_of_def lessThan_nat_numeral lessThan_Suc)
qed

lemma unat_250: "unat (250 :: u32) = 250"
  by simp

lemma print_entry:
  "print_u32 (((\<lambda>c. matmul c A B) ^^ 10) c 0 0) s = write_out (map of_char ''250'') s"
proof -
  have "decimal 250 = map of_char ''250''" by code_simp
  then show ?thesis by (simp only: matmul_AB_00 print_u32_out unat_250)
qed

lemma bench_compute_main_output:
  "bench_compute_main s =
     (write_out (map of_char ''=== 4x4 matmul x10 ===\<newline>'' @
        counts_text (cycle_at s (reads s + 2) - cycle_at s (reads s))
                    (instret_at s (reads s + 3) - instret_at s (reads s + 1)) @
        map of_char ''C[0][0]: '' @ map of_char ''250'' @ [10] @
        map of_char ''=== TEA x16 blocks ===\<newline>'' @
        counts_text (cycle_at s (reads s + 6) - cycle_at s (reads s + 4))
                    (instret_at s (reads s + 7) - instret_at s (reads s + 5)) @
        map of_char ''DONE\<newline>'') s)\<lparr>io_done := Some 0, reads := reads s + 8, mie := True\<rparr>"
  by (cases s)
     (simp add: bench_compute_main_def Let_def counters_eq print_counts_out puts_n_out print_entry putch_out
       irq_disable_def irq_enable_def write_out_def del: funpow.simps, simp add: eval_nat_numeral)

theorem tea_round_trip:
  "tea_decrypt key (tea_encrypt key v) = v \<and> tea_encrypt (0, 0, 0, 0) (0, 0) = (0x41EA3A0A, 0x94BAA940)"
  by (simp add: tea_decrypt_encrypt tea_vector)

theorem matmul_product:
  "matmul c a b i j = (if i < 4 \<and> j < 4 then (\<Sum>k<4. a i k * b k j) else c i j)"
  by (rule matmul_eq)

end
