(* ===== verification/Demos.thy ===== *)
theory Demos
  imports Soc_Bus
begin

text \<open>
  The two demonstration programs: sw/main.c, which rotates a bit over \<open>IO_LED\<close>, and
  sw/dbg_test.c, which counts at address 8 for the debug testbench. Both loop for ever; the
  definitions give the state after a number of rounds.
\<close>

section \<open>sw/main.c\<close>

text \<open>\<open>while (n--) nop;\<close>, with the number of \<open>nop\<close>s executed.\<close>

function delay :: "u32 \<Rightarrow> nat \<Rightarrow> nat" where
  "delay n nops = (if n = 0 then nops else delay (n - 1) (nops + 1))"
  by auto

termination delay
  by (relation "measure (\<lambda>(n, _). unat n)") (simp_all add: measure_unat)

declare delay.simps [simp del]

record leds =
  pattern :: u32
  led_log :: "u32 list"
  idle :: nat

definition led_round :: "leds \<Rightarrow> leds" where
  "led_round s =
     (let p = pattern s
      in s\<lparr>led_log := led_log s @ [p], pattern := push_bit 1 p OR drop_bit 31 p, idle := delay 1000 (idle s)\<rparr>)"

definition led_main :: "nat \<Rightarrow> leds" where
  "led_main rounds = (led_round ^^ rounds) \<lparr>pattern = 0x1, led_log = [], idle = 0\<rparr>"

lemma delay_eq: "delay n nops = nops + unat n"
proof (induction n nops rule: delay.induct)
  case (1 n nops)
  then show ?case
    by (cases "n = 0") (simp_all add: delay.simps [of n] delay.simps [of 0] unat_minus_one Suc_le_eq unat_gt_0)
qed

lemma rotate_one:
  assumes "k < 32"
  shows "push_bit 1 (push_bit k 1) OR drop_bit 31 (push_bit k 1) = (push_bit (Suc k mod 32) 1 :: u32)"
proof (cases "k = 31")
  case True
  then show ?thesis by simp
next
  case False
  with assms show ?thesis by (intro bit_word_eqI) (auto simp: bit_simps bit_times_2)
qed

lemma led_rounds:
  "pattern (led_main k) = push_bit (k mod 32) 1 \<and>
   led_log (led_main k) = map (\<lambda>i. push_bit (i mod 32) 1) [0..<k] \<and> idle (led_main k) = 1000 * k"
proof (induction k)
  case (Suc k)
  have "led_main (Suc k) = led_round (led_main k)" by (simp add: led_main_def)
  moreover have "Suc (k mod 32) mod 32 = Suc k mod 32" by (simp add: mod_Suc_eq)
  ultimately show ?case
    using Suc rotate_one [of "k mod 32"] by (simp add: led_round_def delay_eq Let_def)
qed (simp add: led_main_def)

section \<open>sw/dbg_test.c\<close>

definition COUNTER :: u32 where "COUNTER = 0x8"

definition count_round :: "soc \<Rightarrow> soc" where
  "count_round s = (let (v, s1) = load Word s COUNTER in store Word s1 COUNTER (v + 1))"

definition dbg_test :: "nat \<Rightarrow> soc \<Rightarrow> soc" where
  "dbg_test rounds s = (count_round ^^ rounds) (store Word s COUNTER 0)"

lemma counter_addr: "in_ram COUNTER" "\<not> bit COUNTER 0" "\<not> bit COUNTER 1" "ram_waddr COUNTER = 2"
  by (simp_all add: COUNTER_def in_ram_def ram_waddr_def bits_def)

lemma dbg_test_counts:
  "dbg_test k s = s\<lparr>ram := (ram s)(2 := word_of_nat k)\<rparr>"
  using counter_addr store_word_aligned [OF counter_addr(1-3)]
  by (induction k) (simp_all add: dbg_test_def count_round_def load_word_ram add.commute)

end
