(* ===== verification/Core_Alu.thy ===== *)
theory Core_Alu
  imports Next_Pc
begin

text \<open>
  The arithmetic unit of rtl/attorv32.v for the base instruction set, in its default form with the
  barrel shifter: one right shifter, used for left shifts between two bit reversals. \<open>sra\<close> stands for
  the definition NRV_SRA. The lemmas say which operation each \<open>funct3\<close> selects.
\<close>

definition isALUimm :: "u32 \<Rightarrow> bool" where "isALUimm instr \<longleftrightarrow> opcode5 instr = 4"

section \<open>The barrel shifter\<close>

definition bit_reverse :: "u32 \<Rightarrow> u32" where
  "bit_reverse w = vcat (map (\<lambda>i. (Suc 0, bits i i w)) [0..<32])"

definition shifter_in :: "u32 \<Rightarrow> u32 \<Rightarrow> u32" where
  "shifter_in instr a = (if funct3 instr = 1 then bit_reverse a else a)"

definition shifter :: "bool \<Rightarrow> u32 \<Rightarrow> u32 \<Rightarrow> u32 \<Rightarrow> u32" where
  "shifter sra instr a b =
     (let sh = unat (bits 4 0 b)
      in if sra
         then ucast (signed_drop_bit sh
                (push_bit 32 (of_bool (bit instr 30 \<and> bit a 31)) OR ucast (shifter_in instr a) :: 33 word))
         else drop_bit sh (shifter_in instr a))"

definition leftshift :: "bool \<Rightarrow> u32 \<Rightarrow> u32 \<Rightarrow> u32 \<Rightarrow> u32" where
  "leftshift sra instr a b = bit_reverse (shifter sra instr a b)"

section \<open>The result multiplexer\<close>

definition aluOut_base :: "bool \<Rightarrow> u32 \<Rightarrow> u32 \<Rightarrow> u32 \<Rightarrow> u32" where
  "aluOut_base sra instr rs1 rs2 =
     (let a = rs1; b = aluIn2 instr rs2; f = funct3 instr
      in (if f = 0 then (if bit instr 30 \<and> bit instr 5 then ucast (aluMinus a b) else aluPlus instr a rs2) else 0) OR
         (if f = 1 then leftshift sra instr a b else 0) OR
         (if f = 2 then bit1 (LT a b) else 0) OR
         (if f = 3 then bit1 (LTU a b) else 0) OR
         (if f = 4 then a XOR b else 0) OR
         (if f = 5 then shifter sra instr a b else 0) OR
         (if f = 6 then a OR b else 0) OR
         (if f = 7 then a AND b else 0))"

section \<open>What it computes\<close>

lemma length_ones: "sum_list (map (fst \<circ> (\<lambda>i. (Suc 0, f i))) is) = length is"
  by (induction "is") simp_all

lemma bit_vcat_bits:
  "bit (vcat (map (\<lambda>i. (Suc 0, bits i i w)) is)) n \<longleftrightarrow> n < 32 \<and> n < length is \<and> bit w (rev is ! n)"
proof (induction "is")
  case (Cons i "is")
  then show ?case
    by (cases "n < length is"; cases "n = length is")
      (auto simp: length_ones vec_simps nth_append less_Suc_eq Suc_le_eq)
qed simp

lemma bit_reverse_bit [bit_simps]: "bit (bit_reverse w) n \<longleftrightarrow> n < 32 \<and> bit w (31 - n)"
  using bit_vcat_bits [of w "[0..<32]" n] by (auto simp: bit_reverse_def rev_nth)

lemma shamt_lt: "unat (bits 4 0 (b::u32)) < 32"
  using unat_bits [of 4 0 b] by simp

text \<open>Left shift, logical and arithmetic right shift by the low five bits of the second operand.\<close>

lemma bit_ext33:
  "bit (push_bit 32 (of_bool s) OR ucast (w::u32) :: 33 word) n \<longleftrightarrow> n < 32 \<and> bit w n \<or> n = 32 \<and> s"
  using bit_imp_le_length [of w n] by (auto simp: bit_simps)

lemma bit_sra33:
  assumes "n < 32" "k < 32"
  shows "bit (ucast (signed_drop_bit k (w :: 33 word)) :: u32) n = bit w (min (k + n) 32)"
  using assms by (cases "k + n \<le> 32") (auto simp: bit_simps min_def le_diff_conv intro: arg_cong [of _ _ "bit w"])

lemma bit_sra32:
  assumes "n < 32"
  shows "bit (signed_drop_bit k (w :: u32)) n = bit w (min (k + n) 31)"
  using assms by (cases "k + n \<le> 31") (auto simp: bit_simps min_def le_diff_conv intro: arg_cong [of _ _ "bit w"])

lemma bit_shifter:
  assumes "n < 32"
  shows "bit (shifter sra instr a b) n \<longleftrightarrow>
    (let i = unat (bits 4 0 b) + n
     in if i < 32 then bit (shifter_in instr a) i else sra \<and> bit instr 30 \<and> bit a 31)"
  using assms shamt_lt [of b]
  by (auto simp: shifter_def bit_sra33 bit_ext33 Let_def min_def bit_drop_bit_eq beyond32)

lemma shifter_right:
  assumes "funct3 instr \<noteq> 1"
  shows "shifter sra instr a b =
    (if sra \<and> bit instr 30 then signed_drop_bit (unat (bits 4 0 b)) a else drop_bit (unat (bits 4 0 b)) a)"
proof (rule bit_word_eqI)
  fix n assume n: "n < LENGTH(32)"
  then show "bit (shifter sra instr a b) n = bit (if sra \<and> bit instr 30
      then signed_drop_bit (unat (bits 4 0 b)) a else drop_bit (unat (bits 4 0 b)) a) n"
    using assms by (auto simp: bit_shifter shifter_in_def bit_sra32 bit_drop_bit_eq beyond32 Let_def min_def)
qed

lemma shifter_left:
  assumes "funct3 instr = 1" "\<not> (sra \<and> bit instr 30)"
  shows "leftshift sra instr a b = push_bit (unat (bits 4 0 b)) a"
proof (rule bit_word_eqI)
  fix n assume n: "n < LENGTH(32)"
  then have "bit (leftshift sra instr a b) n \<longleftrightarrow> bit (shifter sra instr a b) (31 - n)"
    by (simp add: leftshift_def bit_reverse_bit)
  also have "\<dots> \<longleftrightarrow> unat (bits 4 0 b) + (31 - n) < 32 \<and> bit (bit_reverse a) (unat (bits 4 0 b) + (31 - n))"
    using assms n by (auto simp: bit_shifter shifter_in_def Let_def)
  also have "\<dots> \<longleftrightarrow> bit (push_bit (unat (bits 4 0 b)) a) n"
    using n by (auto simp: bit_reverse_bit bit_push_bit_iff)
  finally show "bit (leftshift sra instr a b) n = bit (push_bit (unat (bits 4 0 b)) a) n" .
qed

text \<open>The operation that \<open>funct3\<close> and the alternate bit select, as the instruction set defines them.\<close>

definition alu_reference :: "u32 \<Rightarrow> bool \<Rightarrow> u32 \<Rightarrow> u32 \<Rightarrow> u32" where
  "alu_reference f alt a b =
     (if f = 0 then (if alt then a - b else a + b)
      else if f = 1 then push_bit (unat b mod 32) a
      else if f = 2 then of_bool (sint a < sint b)
      else if f = 3 then of_bool (a < b)
      else if f = 4 then a XOR b
      else if f = 5 then (if alt then signed_drop_bit (unat b mod 32) a else drop_bit (unat b mod 32) a)
      else if f = 6 then a OR b else a AND b)"

lemma shamt_mod: "unat (bits 4 0 (b::u32)) = unat b mod 32"
  by (simp add: bits_def take_bit_eq_mod unat_mod_distrib)

lemma less8_cases:
  assumes "unat (w::u32) < 8"
  shows "w = 0 \<or> w = 1 \<or> w = 2 \<or> w = 3 \<or> w = 4 \<or> w = 5 \<or> w = 6 \<or> w = 7"
proof -
  have "unat w = 0 \<or> unat w = 1 \<or> unat w = 2 \<or> unat w = 3 \<or> unat w = 4 \<or> unat w = 5 \<or> unat w = 6 \<or> unat w = 7"
    using assms by arith
  then show ?thesis by (auto simp: word_unat_eq_iff)
qed

lemma ucast_aluMinus: "(ucast (aluMinus a b) :: u32) = a - b"
proof (cases "b \<le> a")
  case False
  have "(ucast (NOT (ucast w :: 33 word)) :: u32) = NOT w" for w :: u32
    by (rule bit_word_eqI) (simp add: bit_simps)
  with False show ?thesis by (simp add: aluMinus_cases not_eq_complement)
next
  case True
  have "(ucast (ucast w :: 33 word) :: u32) = w" for w :: u32
    by (rule bit_word_eqI) (simp add: bit_simps)
  with True show ?thesis by (simp add: aluMinus_cases)
qed

lemma funct3_cases:
  "funct3 i = 0 \<or> funct3 i = 1 \<or> funct3 i = 2 \<or> funct3 i = 3 \<or> funct3 i = 4 \<or> funct3 i = 5 \<or> funct3 i = 6 \<or> funct3 i = 7"
  by (rule less8_cases) (use unat_bits [of 14 12 i] in \<open>simp add: funct3_def\<close>)

lemma alu_reg_bit5: "isALUreg instr \<Longrightarrow> bit instr 5"
proof -
  assume "isALUreg instr"
  then have "bit (opcode5 instr) 3" by (simp add: isALUreg_def)
  then show "bit instr 5" by (simp add: opcode5_def bit_bits)
qed

lemma aluOut_register:
  assumes "isALUreg instr" "funct3 instr = 1 \<longrightarrow> \<not> (sra \<and> bit instr 30)"
  shows "aluOut_base sra instr a b = alu_reference (funct3 instr) (bit instr 30 \<and> (funct3 instr = 5 \<longrightarrow> sra)) a b"
proof -
  have s: "aluIn2 instr b = b" using assms(1) by (simp add: aluIn2_def)
  consider "funct3 instr = 0" | "funct3 instr = 1" | "funct3 instr = 2" | "funct3 instr = 3"
    | "funct3 instr = 4" | "funct3 instr = 5" | "funct3 instr = 6" | "funct3 instr = 7"
    using funct3_cases [of instr] by blast
  then show ?thesis
  proof cases
    case 1
    then show ?thesis
      using alu_reg_bit5 [OF assms(1)] by (simp add: aluOut_base_def alu_reference_def s aluPlus_def ucast_aluMinus Let_def)
  next
    case 2
    then show ?thesis using assms(2) by (simp add: aluOut_base_def alu_reference_def s shifter_left shamt_mod Let_def)
  next
    case 6
    then show ?thesis using assms(2)
      by (auto simp: aluOut_base_def alu_reference_def s shifter_right shamt_mod Let_def)
  qed (simp_all add: aluOut_base_def alu_reference_def s LT_less LTU_less bit1_def Let_def)
qed

text \<open>The immediate forms: only the shifts look at the alternate bit.\<close>

lemma alu_imm_bit5: "isALUimm instr \<Longrightarrow> \<not> bit instr 5"
proof -
  assume "isALUimm instr"
  then have "\<not> bit (opcode5 instr) 3" by (simp add: isALUimm_def)
  then show "\<not> bit instr 5" by (simp add: opcode5_def bit_bits)
qed

lemma aluOut_immediate:
  assumes "isALUimm instr" "funct3 instr = 1 \<longrightarrow> \<not> (sra \<and> bit instr 30)"
  shows "aluOut_base sra instr a b =
    alu_reference (funct3 instr) (bit instr 30 \<and> funct3 instr = 5 \<and> sra) a (Iimm instr)"
proof -
  have s: "aluIn2 instr b = Iimm instr"
    using assms(1) by (simp add: aluIn2_def isALUreg_def isBranch_def isALUimm_def)
  consider "funct3 instr = 0" | "funct3 instr = 1" | "funct3 instr = 2" | "funct3 instr = 3"
    | "funct3 instr = 4" | "funct3 instr = 5" | "funct3 instr = 6" | "funct3 instr = 7"
    using funct3_cases [of instr] by blast
  then show ?thesis
  proof cases
    case 1
    then show ?thesis
      using alu_imm_bit5 [OF assms(1)] by (simp add: aluOut_base_def alu_reference_def s aluPlus_def Let_def)
  next
    case 2
    then show ?thesis using assms(2) by (simp add: aluOut_base_def alu_reference_def s shifter_left shamt_mod Let_def)
  next
    case 6
    then show ?thesis using assms(2)
      by (auto simp: aluOut_base_def alu_reference_def s shifter_right shamt_mod Let_def)
  qed (simp_all add: aluOut_base_def alu_reference_def s LT_less LTU_less bit1_def Let_def)
qed

section \<open>Properties\<close>

text \<open>C18: The result multiplexer of the ALU, with its one right shifter between two bit reversals and
  its 33-bit subtractor, computes for register and immediate instructions of the base set the
  operation that funct3 and the alternate bit stand for in the instruction set. Built with
  NRV_SRA that includes the arithmetic right shift; without it SRA and SRAI compute what SRL and
  SRLI do. Subtraction exists only for register instructions, and the other operations ignore
  the alternate bit. Excepted is one reserved encoding, the left shift with the alternate bit
  set, in a build with NRV_SRA.\<close>

lemma aluOut_reference:
  assumes "isALUreg instr \<or> isALUimm instr" "funct3 instr = 1 \<longrightarrow> \<not> (sra \<and> bit instr 30)"
  shows "aluOut_base sra instr a b =
    alu_reference (funct3 instr) (bit instr 30 \<and> (funct3 instr = 5 \<and> sra \<or> funct3 instr = 0 \<and> isALUreg instr)) a
      (if isALUreg instr then b else Iimm instr)"
proof (cases "isALUreg instr")
  case True
  then show ?thesis using aluOut_register [OF True assms(2), of a b] by (auto simp: alu_reference_def)
next
  case False
  then show ?thesis using aluOut_immediate [OF _ assms(2), of a b] assms(1) by (simp add: conj_commute)
qed

lemma aluOut_reference_witness:
  "aluOut_base True 0x40f5d593 0x80000000 0 = signed_drop_bit 15 0x80000000 \<and>
   aluOut_base False 0x40f5d593 0x80000000 0 = 0x10000 \<and> aluOut_base True 0x40b50533 3 5 = - 2"
proof -
  have d: "isALUimm 0x40f5d593" "\<not> isALUreg 0x40f5d593" "funct3 0x40f5d593 = 5" "bit (0x40f5d593 :: u32) 30"
    "Iimm 0x40f5d593 = 0x40f" "isALUreg 0x40b50533" "funct3 0x40b50533 = 0" "bit (0x40b50533 :: u32) 30" by code_simp+
  show ?thesis
    using aluOut_reference [of "0x40f5d593" True "0x80000000" 0] aluOut_reference [of "0x40f5d593" False "0x80000000" 0]
      aluOut_reference [of "0x40b50533" True 3 5] d
    by (simp add: alu_reference_def drop_bit_eq_div)
qed

end
