(* ===== verification/Core_Multiplier.thy ===== *)
theory Core_Multiplier
  imports Core_Alu
begin

text \<open>
  The multipliers of rtl/attorv32.v: the single-cycle parallel multiplier and the serial shift-add
  one (NRV_SERIAL_MUL) with its clocked registers. \<open>f\<close> is the instruction's \<open>funct3\<close>: 0 to 3 for
  MUL, MULH, MULHSU and MULHU. A word that the code writes as a concatenation is \<open>push_bit\<close> and \<open>OR\<close>.
\<close>

type_synonym u64 = "64 word"

section \<open>The product of the instruction set\<close>

definition signed_first :: "u32 \<Rightarrow> bool" where "signed_first f \<longleftrightarrow> f = 1 \<or> f = 2"
definition signed_second :: "u32 \<Rightarrow> bool" where "signed_second f \<longleftrightarrow> f = 1"

definition value_as :: "bool \<Rightarrow> u32 \<Rightarrow> int" where
  "value_as sg w = (if sg then sint w else uint w)"

definition product :: "u32 \<Rightarrow> u32 \<Rightarrow> u32 \<Rightarrow> u64" where
  "product f a b = word_of_int (value_as (signed_first f) a * value_as (signed_second f) b)"

section \<open>The parallel multiplier\<close>

definition multiply :: "u32 \<Rightarrow> u32 \<Rightarrow> u32 \<Rightarrow> u64" where
  "multiply f a b =
     (let sign1 = bit a 31 \<and> f = 1;
          sign2 = bit b 31 \<and> (f = 1 \<or> f = 2);
          signed1 = (push_bit 32 (of_bool sign1) OR ucast a :: 33 word);
          signed2 = (push_bit 32 (of_bool sign2) OR ucast b :: 33 word)
      in word_of_int (sint signed1 * sint signed2))"

section \<open>The serial multiplier\<close>

record mul_unit =
  mul_pm :: u64
  mul_mcand :: u32
  mul_count :: "6 word"
  mul_neg :: bool
  mul_negate_pending :: bool

definition mul_sign1 :: "u32 \<Rightarrow> u32 \<Rightarrow> bool" where
  "mul_sign1 f a \<longleftrightarrow> bit a 31 \<and> (f = 1 \<or> f = 2)"

definition mul_sign2 :: "u32 \<Rightarrow> u32 \<Rightarrow> bool" where
  "mul_sign2 f b \<longleftrightarrow> bit b 31 \<and> f = 1"

definition mul_load :: "u32 \<Rightarrow> u32 \<Rightarrow> u32 \<Rightarrow> mul_unit" where
  "mul_load f a b =
     \<lparr>mul_pm = ucast (if mul_sign2 f b then - b else b),
      mul_mcand = (if mul_sign1 f a then - a else a), mul_count = 32,
      mul_neg = (mul_sign1 f a \<noteq> mul_sign2 f b), mul_negate_pending = False\<rparr>"

definition mul_busy :: "mul_unit \<Rightarrow> bool" where
  "mul_busy m \<longleftrightarrow> mul_count m \<noteq> 0 \<or> mul_negate_pending m"

definition mul_new_upper :: "mul_unit \<Rightarrow> 33 word" where
  "mul_new_upper m =
     (let upper = ucast (drop_bit 32 (mul_pm m)) :: 33 word
      in if bit (mul_pm m) 0 then upper + ucast (mul_mcand m) else upper)"

definition mul_clk :: "mul_unit \<Rightarrow> mul_unit" where
  "mul_clk m =
     (if mul_count m \<noteq> 0
      then m\<lparr>mul_pm := push_bit 31 (ucast (mul_new_upper m)) OR drop_bit 1 (take_bit 32 (mul_pm m)),
             mul_count := mul_count m - 1,
             mul_negate_pending := (if mul_count m = 1 then mul_neg m else mul_negate_pending m)\<rparr>
      else if mul_negate_pending m
      then m\<lparr>mul_pm := - mul_pm m, mul_negate_pending := False\<rparr>
      else m)"

text \<open>The core waits in \<open>S_WAIT\<close> until the unit is idle.\<close>

function mul_wait :: "mul_unit \<Rightarrow> mul_unit" where
  "mul_wait m = (if mul_busy m then mul_wait (mul_clk m) else m)"
  by auto

lemma count_down: "(c :: 6 word) \<noteq> 0 \<Longrightarrow> unat (c - 1) = unat c - 1"
  by (simp add: unat_minus_one)

termination mul_wait
  by (relation "measure (\<lambda>m. 2 * unat (mul_count m) + of_bool (mul_negate_pending m))")
    (auto simp: mul_busy_def mul_clk_def count_down unat_gt_0)

declare mul_wait.simps [simp del]

definition serial_multiply :: "u32 \<Rightarrow> u32 \<Rightarrow> u32 \<Rightarrow> u64" where
  "serial_multiply f a b = mul_pm (mul_wait (mul_load f a b))"

section \<open>The serial multiplier computes the product\<close>

text \<open>After \<open>k\<close> of the 32 shifts.\<close>

definition mul_at :: "nat \<Rightarrow> nat \<Rightarrow> nat \<Rightarrow> nat" where
  "mul_at x y k = x * (y mod 2 ^ k) * 2 ^ (32 - k) + y div 2 ^ k"

lemma mul_at_step:
  assumes "k < 32"
  shows "mul_at x y (Suc k) = (mul_at x y k + (if odd (y div 2 ^ k) then x * 2 ^ 32 else 0)) div 2"
    and "odd (mul_at x y k) = odd (y div 2 ^ k)"
proof -
  obtain j where j: "32 = Suc (k + j)" using less_imp_Suc_add [OF assms] by blast
  then have n: "32 - k = Suc j" "32 - Suc k = j" by linarith+
  let ?q = "y div 2 ^ k" and ?r = "y mod 2 ^ k"
  show "odd (mul_at x y k) = odd ?q" by (simp add: mul_at_def n)
  have m: "y mod 2 ^ Suc k = 2 ^ k * (?q mod 2) + ?r" by (simp add: mod_mult2_eq [of y "2 ^ k" 2, simplified mult.commute [of "2 ^ k" 2]])
  have d: "y div 2 ^ Suc k = ?q div 2" by (simp add: div_mult2_eq [of y "2 ^ k" 2, simplified mult.commute [of "2 ^ k" 2]])
  have p: "(2::nat) ^ 32 = 2 ^ k * (2 * 2 ^ j)" unfolding j by (simp add: power_add)
  have "mul_at x y k + (if odd ?q then x * 2 ^ 32 else 0) =
      2 * (x * (2 ^ k * (?q mod 2) + ?r) * 2 ^ j) + ?q"
    unfolding mul_at_def n p by (cases "odd ?q") (simp_all add: algebra_simps odd_iff_mod_2_eq_one even_iff_mod_2_eq_zero)
  moreover have "mul_at x y (Suc k) = x * (2 ^ k * (?q mod 2) + ?r) * 2 ^ j + ?q div 2"
    unfolding mul_at_def n m d ..
  moreover have "\<dots> = (2 * (x * (2 ^ k * (?q mod 2) + ?r) * 2 ^ j) + ?q) div 2" by simp
  ultimately show "mul_at x y (Suc k) = (mul_at x y k + (if odd ?q then x * 2 ^ 32 else 0)) div 2"
    by (simp only:)
qed

lemma mul_at_ends: "y < 2 ^ 32 \<Longrightarrow> mul_at x y 0 = y" "y < 2 ^ 32 \<Longrightarrow> mul_at x y 32 = x * y"
  by (simp_all add: mul_at_def)

lemma mul_at_bound:
  assumes "x < 2 ^ 32" "y < 2 ^ 32"
  shows "k \<le> 32 \<Longrightarrow> mul_at x y k < 2 ^ 64"
proof (induction k)
  case 0
  then show ?case using assms by (simp add: mul_at_ends)
next
  case (Suc k)
  then have "mul_at x y k < 2 ^ 64" "x * 2 ^ 32 < 2 ^ 64" using assms by simp_all
  moreover have "a < N \<Longrightarrow> b < N \<Longrightarrow> (a + (if c then b else 0)) div 2 < N" for a b N :: nat and c by auto
  ultimately show ?case using Suc.prems unfolding mul_at_step(1) [OF Suc_le_lessD [OF Suc.prems]] by blast
qed

lemma unat_bound: "unat (w :: u32) < 2 ^ 32" "unat (v :: u64) < 2 ^ 64"
proof -
  have "unat w < 2 ^ LENGTH(32)" "unat v < 2 ^ LENGTH(64)" by (rule unsigned_less)+
  then show "unat w < 2 ^ 32" "unat v < 2 ^ 64" by simp_all
qed

lemma odd_unat: "odd (unat w) = bit w 0"
  by (simp add: bit_unsigned_iff flip: bit_0)

lemma unat_new_upper:
  "unat (mul_new_upper m) = unat (mul_pm m) div 2 ^ 32 + (if odd (unat (mul_pm m)) then unat (mul_mcand m) else 0)"
proof -
  have b: "unat (mul_pm m) div 2 ^ 32 < 2 ^ 32" "unat (mul_mcand m) < 2 ^ 32"
    using unat_bound(2) [of "mul_pm m"] unat_bound(1) by (simp_all add: less_mult_imp_div_less)
  have "unat (ucast (drop_bit 32 (mul_pm m)) :: 33 word) = unat (mul_pm m) div 2 ^ 32"
    using b(1) unat_drop_bit_eq [of 32 "mul_pm m"]
    by (simp add: unsigned_ucast_eq drop_bit_eq_div take_bit_nat_eq_self del: drop_bit_numeral_bit0)
  moreover have "unat (ucast (mul_mcand m) :: 33 word) = unat (mul_mcand m)"
    using b(2) by (simp add: unsigned_ucast_eq take_bit_nat_eq_self)
  ultimately show ?thesis
    using b by (simp add: mul_new_upper_def odd_unat unat_plus_if' Let_def)
qed

lemma mul_clk_pm:
  assumes "mul_count m \<noteq> 0"
  shows "unat (mul_pm (mul_clk m)) =
    (unat (mul_pm m) + (if odd (unat (mul_pm m)) then unat (mul_mcand m) * 2 ^ 32 else 0)) div 2"
proof -
  let ?u = "mul_new_upper m" and ?p = "mul_pm m"
  have "unat ?u < 2 ^ LENGTH(33)" by (rule unsigned_less)
  then have u: "unat ?u < 2 ^ 33" by simp
  have "mul_pm (mul_clk m) = push_bit 31 (ucast ?u) OR drop_bit 1 (take_bit 32 ?p)"
    using assms by (simp add: mul_clk_def)
  also have "\<dots> = push_bit 31 (ucast ?u) + drop_bit 1 (take_bit 32 ?p)"
    by (rule disjunctive_add_eq_or [symmetric]) (auto simp: bit_eq_iff bit_simps)
  finally have e: "mul_pm (mul_clk m) = push_bit 31 (ucast ?u) + drop_bit 1 (take_bit 32 ?p)" .
  have "unat (push_bit 31 (ucast ?u) :: u64) = unat ?u * 2 ^ 31"
    using u by (simp add: push_bit_eq_mult unat_word_ariths unsigned_ucast_eq take_bit_nat_eq_self)
  moreover have "unat (drop_bit 1 (take_bit 32 ?p)) = unat ?p mod 2 ^ 32 div 2"
    using unat_drop_bit_eq [of 1 "take_bit 32 ?p"] unsigned_take_bit_eq [of 32 ?p]
    by (simp only: drop_bit_eq_div take_bit_eq_mod) (simp add: unat_div_distrib unat_mod_distrib)
  moreover have "unat ?u * 2 ^ 31 + unat ?p mod 2 ^ 32 div 2 < 2 ^ 64"
  proof -
    have "unat ?p mod 2 ^ 32 < 2 ^ 32" by simp
    then have "unat ?p mod 2 ^ 32 div 2 < 2 ^ 31" by simp
    with u show ?thesis by simp
  qed
  ultimately have "unat (mul_pm (mul_clk m)) = unat ?u * 2 ^ 31 + unat ?p mod 2 ^ 32 div 2"
    unfolding e by (simp add: unat_plus_if')
  also have "\<dots> = (unat ?u * 2 ^ 32 + unat ?p mod 2 ^ 32) div 2" by simp
  also have "unat ?u * 2 ^ 32 + unat ?p mod 2 ^ 32 =
      unat ?p + (if odd (unat ?p) then unat (mul_mcand m) * 2 ^ 32 else 0)"
    unfolding unat_new_upper by (simp add: algebra_simps)
  finally show ?thesis .
qed

lemma mul_clk_shift:
  assumes "mul_count m \<noteq> 0"
  shows "mul_mcand (mul_clk m) = mul_mcand m" "mul_neg (mul_clk m) = mul_neg m"
    "mul_count (mul_clk m) = mul_count m - 1"
    "mul_negate_pending (mul_clk m) = (if mul_count m = 1 then mul_neg m else mul_negate_pending m)"
  using assms by (simp_all add: mul_clk_def)

text \<open>The whole run: 32 shifts, then the negation when the signs differ.\<close>

lemma mul_shifts:
  assumes "k \<le> 32" "unat (mul_mcand m) = x" "unat (mul_pm m) = y" "y < 2 ^ 32" "mul_count m = 32"
  shows "unat (mul_pm ((mul_clk ^^ k) m)) = mul_at x y k \<and> unat (mul_count ((mul_clk ^^ k) m)) = 32 - k \<and>
    mul_mcand ((mul_clk ^^ k) m) = mul_mcand m \<and> mul_neg ((mul_clk ^^ k) m) = mul_neg m \<and>
    mul_negate_pending ((mul_clk ^^ k) m) = (if k = 32 then mul_neg m else mul_negate_pending m)"
  using assms(1)
proof (induction k)
  case 0
  then show ?case using assms by (simp add: mul_at_ends)
next
  case (Suc k)
  let ?m = "(mul_clk ^^ k) m"
  have IH: "unat (mul_pm ?m) = mul_at x y k" "unat (mul_count ?m) = 32 - k" "mul_mcand ?m = mul_mcand m"
      "mul_neg ?m = mul_neg m" "mul_negate_pending ?m = mul_negate_pending m"
    using Suc by auto
  have k: "k < 32" using Suc.prems by simp
  have c: "mul_count ?m \<noteq> 0" using IH(2) k by auto
  have "mul_count ?m = 1 \<longleftrightarrow> Suc k = 32" using IH(2) k by (auto simp: word_unat_eq_iff)
  moreover have "unat (mul_pm (mul_clk ?m)) = mul_at x y (Suc k)"
    using mul_clk_pm [OF c] mul_at_step [OF k, of x y] IH(1,3) assms(2) by simp
  moreover have "unat (mul_count (mul_clk ?m)) = 32 - Suc k"
    using c IH(2) by (simp add: mul_clk_shift count_down)
  ultimately show ?case using IH(3-5) k mul_clk_shift [OF c] by auto
qed

lemma mul_wait_shifts:
  "(\<forall>j < k. mul_busy ((mul_clk ^^ j) m)) \<Longrightarrow> mul_wait m = mul_wait ((mul_clk ^^ k) m)"
proof (induction k)
  case (Suc k)
  then have "mul_wait m = mul_wait ((mul_clk ^^ k) m)" "mul_busy ((mul_clk ^^ k) m)" by simp_all
  then show ?case using mul_wait.simps [of "(mul_clk ^^ k) m"] by simp
qed simp

lemma serial_multiply_abs:
  "serial_multiply f a b =
     (let x = (if mul_sign1 f a then - a else a); y = (if mul_sign2 f b then - b else b);
          p = of_nat (unat x * unat y)
      in if mul_sign1 f a \<noteq> mul_sign2 f b then - p else p)"
proof -
  let ?m = "mul_load f a b" and ?e = "(mul_clk ^^ 32) (mul_load f a b)"
  define x where "x = (if mul_sign1 f a then - a else a)"
  define y where "y = (if mul_sign2 f b then - b else b)"
  have m: "unat (mul_mcand ?m) = unat x" "unat (mul_pm ?m) = unat y" "mul_count ?m = 32"
    using unat_bound(1) [of y] by (simp_all add: mul_load_def x_def y_def unsigned_ucast_eq take_bit_nat_eq_self)
  note s = mul_shifts [OF _ m(1,2) unat_bound(1) m(3)]
  have "mul_busy ((mul_clk ^^ j) ?m)" if "j < 32" for j
    using s [of j] that by (auto simp: mul_busy_def)
  then have w: "mul_wait ?m = mul_wait ?e" using mul_wait_shifts [of 32 ?m] by blast
  have "unat (mul_pm ?e) = unat x * unat y" using s [of 32] mul_at_ends(2) [OF unat_bound(1)] by simp
  then have p: "mul_pm ?e = of_nat (unat x * unat y)" by (metis of_nat_unat ucast_id)
  have e: "mul_count ?e = 0" "mul_negate_pending ?e = mul_neg ?m" using s [of 32] by (auto simp: unat_eq_zero)
  have "mul_pm (mul_wait ?e) = (if mul_neg ?m then - mul_pm ?e else mul_pm ?e)"
    using e by (subst mul_wait.simps, subst mul_wait.simps) (simp add: mul_busy_def mul_clk_def)
  moreover have "mul_neg ?m = (mul_sign1 f a \<noteq> mul_sign2 f b)" by (simp add: mul_load_def)
  ultimately show ?thesis
    using w p by (simp add: serial_multiply_def Let_def flip: x_def y_def)
qed


lemma uint_take32 [simp]: "take_bit 32 (uint (w::u32)) = uint w"
  using uint_lt2p [of w] by (simp add: take_bit_int_eq_self)

lemma sint_signed: "sint (w::u32) = uint w - (if bit w 31 then 2 ^ 32 else 0)"
  by (simp add: sint_top)

lemma value_as_abs:
  "value_as sg w = (if bit w 31 \<and> sg then - int (unat (- w)) else int (unat w))"
proof (cases "bit w 31")
  case True
  then have "w \<noteq> 0" by auto
  then have "uint w \<noteq> 0" by (metis unsigned_eq_0_iff)
  moreover have "uint w mod 2 ^ 32 = uint w" using uint_take32 [of w] by (simp add: take_bit_eq_mod)
  ultimately have "uint (- w) = 2 ^ 32 - uint w" by (simp add: uint_word_ariths zmod_zminus1_eq_if)
  then show ?thesis using True by (simp add: value_as_def sint_signed)
qed (simp add: value_as_def sint_signed)

lemma serial_multiply_product: "serial_multiply f a b = product f a b"
  by (auto simp: serial_multiply_abs product_def value_as_abs mul_sign1_def mul_sign2_def signed_first_def
    signed_second_def Let_def)

section \<open>The parallel multiplier exchanges the signs of MULHSU\<close>

lemma uint_extended:
  "uint (push_bit 32 (of_bool s) OR ucast (w::u32) :: 33 word) = (if s then 2 ^ 32 else 0) + uint w"
proof -
  have w: "uint w < 2 ^ 32" using uint_lt2p [of w] by simp
  then have u: "uint (ucast w :: 33 word) = uint w" by (simp add: unsigned_ucast_eq take_bit_int_eq_self)
  have "push_bit 32 (of_bool s) OR ucast w = push_bit 32 (of_bool s) + (ucast w :: 33 word)"
    by (rule disjunctive_add_eq_or [symmetric]) (auto simp: bit_eq_iff bit_simps dest: bit_imp_le_length)
  then show ?thesis using w u by (cases s) (simp_all add: uint_plus_if')
qed

lemma sint_extended:
  "sint (push_bit 32 (of_bool s) OR ucast (w::u32) :: 33 word) = uint w - (if s then 2 ^ 32 else 0)"
proof -
  let ?x = "push_bit 32 (of_bool s) OR ucast (w::u32) :: 33 word"
  have "bit ?x 32 = s" by (auto simp: bit_simps dest: bit_imp_le_length)
  moreover have "take_bit 33 (uint ?x) = uint ?x" using uint_lt2p [of ?x] by (simp add: take_bit_int_eq_self)
  moreover have "sint ?x = take_bit 33 (uint ?x) - (if bit ?x 32 then 2 ^ 33 else 0)"
    by (simp only: sint_uint signed_take_bit_eq_take_bit_minus bit_unsigned_iff) simp
  ultimately show ?thesis by (simp only: uint_extended) simp
qed

lemma multiply_signs:
  "multiply f a b = word_of_int (value_as (f = 1) a * value_as (f = 1 \<or> f = 2) b)"
  unfolding multiply_def Let_def sint_extended by (simp only: value_as_def sint_signed) simp

lemma multiply_product: "f \<noteq> 2 \<Longrightarrow> multiply f a b = product f a b"
  by (simp add: multiply_signs product_def signed_first_def signed_second_def)

lemma multiply_mulhsu: "multiply 2 a b = product 2 b a"
  by (simp add: multiply_signs product_def signed_first_def signed_second_def mult.commute)

end
