(* ===== verification/Core_Booth.thy ===== *)
theory Core_Booth
  imports Core_Multiplier
begin

text \<open>
  The radix-4 Booth form of the serial multiplier (NRV_SERIAL_MUL with NRV_RADIX4_MUL): two bits of
  the multiplier per clock, a fixup and a negation. Its 33-bit accumulator holds every partial sum
  when the multiplicand is at most \<open>2 ^ 31\<close>; above that it overflows.
\<close>

section \<open>The radix-4 Booth multiplier\<close>

record booth_unit =
  bth_pm :: u64
  bth_acc :: "33 word"
  bth_mcand :: u32
  bth_count :: "6 word"
  bth_prev :: bool
  bth_fixup :: bool
  bth_neg :: bool
  bth_negate_pending :: bool

definition booth_load :: "u32 \<Rightarrow> u32 \<Rightarrow> u32 \<Rightarrow> booth_unit" where
  "booth_load f a b =
     \<lparr>bth_pm = ucast (if mul_sign2 f b then - b else b), bth_acc = 0,
      bth_mcand = (if mul_sign1 f a then - a else a), bth_count = 16, bth_prev = False, bth_fixup = False,
      bth_neg = (mul_sign1 f a \<noteq> mul_sign2 f b), bth_negate_pending = False\<rparr>"

definition booth_busy :: "booth_unit \<Rightarrow> bool" where
  "booth_busy m \<longleftrightarrow> bth_count m \<noteq> 0 \<or> bth_fixup m \<or> bth_negate_pending m"

definition booth_new_acc :: "booth_unit \<Rightarrow> 33 word" where
  "booth_new_acc m =
     (let b1 = bit (bth_pm m) 1; b0 = bit (bth_pm m) 0; p = bth_prev m;
          one = ucast (bth_mcand m); two = push_bit 1 (ucast (bth_mcand m))
      in if \<not> b1 \<and> (b0 \<noteq> p) then bth_acc m + one
         else if \<not> b1 \<and> b0 \<and> p then bth_acc m + two
         else if b1 \<and> (b0 \<noteq> p) then bth_acc m - one
         else if b1 \<and> \<not> b0 \<and> \<not> p then bth_acc m - two
         else bth_acc m)"

definition booth_shifted_acc :: "booth_unit \<Rightarrow> 33 word" where
  "booth_shifted_acc m = signed_drop_bit 2 (booth_new_acc m)"

definition booth_shifted_lo :: "booth_unit \<Rightarrow> u32" where
  "booth_shifted_lo m = push_bit 30 (ucast (booth_new_acc m)) OR drop_bit 2 (ucast (bth_pm m))"

definition booth_clk :: "booth_unit \<Rightarrow> booth_unit" where
  "booth_clk m =
     (if bth_count m \<noteq> 0
      then m\<lparr>bth_acc := booth_shifted_acc m,
             bth_pm := push_bit 32 (ucast (booth_shifted_acc m)) OR ucast (booth_shifted_lo m),
             bth_prev := bit (bth_pm m) 1, bth_count := bth_count m - 1,
             bth_fixup := (bth_fixup m \<or> bth_count m = 1)\<rparr>
      else if bth_fixup m
      then (if bth_prev m
            then m\<lparr>bth_acc := bth_acc m + ucast (bth_mcand m),
                   bth_pm := push_bit 32 (ucast (ucast (bth_acc m) + bth_mcand m)) OR take_bit 32 (bth_pm m)\<rparr>
            else m\<lparr>bth_pm := push_bit 32 (ucast (bth_acc m)) OR take_bit 32 (bth_pm m)\<rparr>)
           \<lparr>bth_fixup := False, bth_negate_pending := bth_neg m\<rparr>
      else if bth_negate_pending m
      then m\<lparr>bth_pm := - (push_bit 32 (ucast (bth_acc m)) OR take_bit 32 (bth_pm m)), bth_negate_pending := False\<rparr>
      else m)"

function booth_wait :: "booth_unit \<Rightarrow> booth_unit" where
  "booth_wait m = (if booth_busy m then booth_wait (booth_clk m) else m)"
  by auto

termination booth_wait
  by (relation "measure (\<lambda>m. 3 * unat (bth_count m) + 2 * of_bool (bth_fixup m) + of_bool (bth_negate_pending m))")
    (auto simp: booth_busy_def booth_clk_def count_down unat_gt_0)

declare booth_wait.simps [simp del]

definition booth_multiply :: "u32 \<Rightarrow> u32 \<Rightarrow> u32 \<Rightarrow> u64" where
  "booth_multiply f a b = bth_pm (booth_wait (booth_load f a b))"

lemma booth_wait_steps:
  "list_all (\<lambda>i. booth_busy ((booth_clk ^^ i) m)) [0..<k] \<Longrightarrow> booth_wait m = booth_wait ((booth_clk ^^ k) m)"
proof (induction k)
  case (Suc k)
  then have "booth_wait m = booth_wait ((booth_clk ^^ k) m)" "booth_busy ((booth_clk ^^ k) m)" by simp_all
  then show ?case using booth_wait.simps [of "(booth_clk ^^ k) m"] by simp
qed simp


lemmas booth_eval = booth_clk_def booth_shifted_acc_def booth_shifted_lo_def booth_new_acc_def Let_def

lemma booth_high_wrong: "booth_multiply 3 0xffffffff 2 = 0x3fffffffe"
  by (simp add: booth_multiply_def booth_load_def mul_sign1_def mul_sign2_def booth_wait.simps booth_busy_def booth_eval)


text \<open>
  The accumulator and the low half as one number. Each step adds the digit's multiple of the
  multiplicand to the upper part and divides by four, as long as the sum fits the 33 bits.
\<close>

definition booth_value :: "booth_unit \<Rightarrow> int" where
  "booth_value m = sint (bth_acc m) * 2 ^ 32 + uint (ucast (bth_pm m) :: u32)"

definition booth_digit :: "booth_unit \<Rightarrow> int" where
  "booth_digit m = of_bool (bit (bth_pm m) 0) + of_bool (bth_prev m) - 2 * of_bool (bit (bth_pm m) 1)"

lemma sint_fits33:
  "word_of_int i = (w :: 33 word) \<Longrightarrow> - (2 ^ 32) \<le> i \<Longrightarrow> i < 2 ^ 32 \<Longrightarrow> sint w = i"
  using signed_take_bit_int_eq_self [of 32 i] by (auto simp: sint_sbintrunc')

lemma booth_new_acc_sum:
  "booth_new_acc m = word_of_int (sint (bth_acc m) + booth_digit m * uint (bth_mcand m))"
  by (simp add: booth_new_acc_def booth_digit_def push_bit_eq_mult Let_def)

lemma sint_new_acc:
  assumes "- (2 ^ 32) \<le> sint (bth_acc m) + booth_digit m * uint (bth_mcand m)"
    "sint (bth_acc m) + booth_digit m * uint (bth_mcand m) < 2 ^ 32"
  shows "sint (booth_new_acc m) = sint (bth_acc m) + booth_digit m * uint (bth_mcand m)"
  using assms by (intro sint_fits33 booth_new_acc_sum [symmetric])

lemma uint_shifted_lo:
  "uint (booth_shifted_lo m) = sint (booth_new_acc m) mod 4 * 2 ^ 30 + uint (ucast (bth_pm m) :: u32) div 4"
proof -
  let ?n = "booth_new_acc m" and ?l = "ucast (bth_pm m) :: u32"
  have l: "uint ?l < 2 ^ 32" using uint_lt2p [of ?l] by simp
  have "uint (booth_shifted_lo m) = push_bit 30 (take_bit 2 (sint ?n)) OR drop_bit 2 (uint ?l)"
  proof (rule bit_eqI)
    fix i
    show "bit (uint (booth_shifted_lo m)) i = bit (push_bit 30 (take_bit 2 (sint ?n)) OR drop_bit 2 (uint ?l)) i"
      by (cases "i < 32") (auto simp: booth_shifted_lo_def bit_simps dest: bit_imp_le_length)
  qed
  also have "\<dots> = push_bit 30 (take_bit 2 (sint ?n)) + drop_bit 2 (uint ?l)"
    by (rule disjunctive_add_eq_or [symmetric]) (auto simp: bit_eq_iff bit_simps dest: bit_imp_le_length)
  also have "\<dots> = sint ?n mod 4 * 2 ^ 30 + uint ?l div 4"
    by (simp add: push_bit_eq_mult take_bit_eq_mod drop_bit_eq_div)
  finally show ?thesis .
qed

lemma sint_shifted_acc: "sint (booth_shifted_acc m) = sint (booth_new_acc m) div 4"
  by (simp add: booth_shifted_acc_def sint_signed_drop_bit_eq drop_bit_eq_div)

lemma mult_regroup: "x * 2 ^ 32 + (y * 2 ^ 30 + l) = (4 * x + y) * 2 ^ 30 + (l::int)" by simp

lemma booth_shift_value:
  assumes "bth_count m \<noteq> 0"
  shows "booth_value (booth_clk m) = (sint (booth_new_acc m) * 2 ^ 32 + uint (ucast (bth_pm m) :: u32)) div 4"
proof -
  let ?n = "sint (booth_new_acc m)" and ?l = "uint (ucast (bth_pm m) :: u32)"
  have "(ucast (push_bit 32 (ucast (booth_shifted_acc m)) OR ucast (booth_shifted_lo m) :: u64) :: u32) = booth_shifted_lo m"
    by (rule bit_word_eqI) (auto simp: bit_simps)
  then have "booth_value (booth_clk m) = ?n div 4 * 2 ^ 32 + (?n mod 4 * 2 ^ 30 + ?l div 4)"
    using assms by (simp add: booth_value_def booth_clk_def sint_shifted_acc uint_shifted_lo)
  also have "\<dots> = (4 * (?n div 4) + ?n mod 4) * 2 ^ 30 + ?l div 4"
    by (rule mult_regroup)
  also have "\<dots> = ?n * 2 ^ 30 + ?l div 4" by (simp only: mult_div_mod_eq)
  also have "\<dots> = (?n * 2 ^ 32 + ?l) div 4" by simp
  finally show ?thesis .
qed


lemma booth_clk_shift:
  assumes "bth_count m \<noteq> 0"
  shows "bth_mcand (booth_clk m) = bth_mcand m" "bth_neg (booth_clk m) = bth_neg m"
    "bth_count (booth_clk m) = bth_count m - 1" "bth_prev (booth_clk m) = bit (bth_pm m) 1"
    "bth_negate_pending (booth_clk m) = bth_negate_pending m"
    "bth_fixup (booth_clk m) = (bth_fixup m \<or> bth_count m = 1)"
  using assms by (simp_all add: booth_clk_def)

definition booth_part :: "int \<Rightarrow> nat \<Rightarrow> bool \<Rightarrow> int" where
  "booth_part y k p = y mod 4 ^ k - of_bool p * 4 ^ k"

definition booth_inv :: "int \<Rightarrow> int \<Rightarrow> bool \<Rightarrow> nat \<Rightarrow> booth_unit \<Rightarrow> bool" where
  "booth_inv x y s k m \<longleftrightarrow>
     booth_value m = x * booth_part y k (bth_prev m) * 4 ^ (16 - k) + y div 4 ^ k \<and>
     (if bth_prev m then - (4 ^ k) \<le> 2 * booth_part y k True \<and> booth_part y k True < 0
      else 2 * booth_part y k False \<le> 4 ^ k) \<and>
     uint (bth_mcand m) = x \<and> unat (bth_count m) = 16 - k \<and> bth_neg m = s \<and>
     \<not> bth_negate_pending m \<and> bth_fixup m = (k = 16)"

lemma booth_part_step:
  fixes y :: int and k :: nat
  defines "q \<equiv> y div 4 ^ k"
  shows "booth_part y (Suc k) (odd (q div 2)) =
    booth_part y k p + (of_bool (odd q) + of_bool p - 2 * of_bool (odd (q div 2))) * 4 ^ k"
    and "odd (q div 2) \<Longrightarrow> - (4 ^ Suc k) \<le> 2 * booth_part y (Suc k) True \<and> booth_part y (Suc k) True < 0"
    and "even (q div 2) \<Longrightarrow> 2 * booth_part y (Suc k) False \<le> 4 ^ Suc k"
proof -
  have "y mod (4 ^ k * 4) = 4 ^ k * (q mod 4) + y mod 4 ^ k" unfolding q_def by (rule zmod_zmult2_eq) simp
  moreover have "q mod 4 = 2 * (q div 2 mod 2) + q mod 2" using zmod_zmult2_eq [of 2 q 2] by simp
  moreover have "z mod 2 = of_bool (odd z)" for z :: int by (simp add: mod_2_eq_odd)
  ultimately have m: "y mod 4 ^ Suc k = (2 * of_bool (odd (q div 2)) + of_bool (odd q)) * 4 ^ k + y mod 4 ^ k"
    by (simp add: mult.commute)
  have "(0::int) < 4 ^ k" by simp
  with pos_mod_bound [OF this, of y] have b: "0 \<le> y mod 4 ^ k" "y mod 4 ^ k < 4 ^ k" "y mod 4 ^ k \<le> 4 ^ k" "y mod 4 ^ k < 2 * 4 ^ k"
    by (simp, simp, linarith, linarith)
  show "booth_part y (Suc k) (odd (q div 2)) =
    booth_part y k p + (of_bool (odd q) + of_bool p - 2 * of_bool (odd (q div 2))) * 4 ^ k"
    unfolding booth_part_def m by (simp add: algebra_simps)
  show "- (4 ^ Suc k) \<le> 2 * booth_part y (Suc k) True \<and> booth_part y (Suc k) True < 0" if "odd (q div 2)"
    using that b unfolding booth_part_def m by (cases "odd q") simp_all
  show "2 * booth_part y (Suc k) False \<le> 4 ^ Suc k" if "even (q div 2)"
    using that b unfolding booth_part_def m by (cases "odd q") simp_all
qed

lemma int_quotient_less: "(a::int) < c * b \<Longrightarrow> 0 < b \<Longrightarrow> a div b < c"
proof (rule ccontr)
  assume a: "a < c * b" "0 < b" "\<not> a div b < c"
  then have "c * b \<le> a div b * b" by simp
  also have "\<dots> \<le> a" using a(2) by (simp add: minus_mod_eq_div_mult [symmetric])
  finally show False using a(1) by simp
qed

text \<open>The accumulator is the part of the product so far, and the step stays within 33 bits.\<close>

lemma booth_acc_value:
  assumes "booth_inv x y s k m" "k \<le> 16" "0 \<le> y" "y < 2 ^ 32"
  shows "sint (bth_acc m) = x * booth_part y k (bth_prev m) div 4 ^ k"
    and "uint (ucast (bth_pm m) :: u32) = booth_value m mod 2 ^ 32"
proof -
  have l: "uint (ucast (bth_pm m) :: u32) < 2 ^ 32" "0 \<le> uint (ucast (bth_pm m) :: u32)"
    using uint_lt2p [of "ucast (bth_pm m) :: u32"] by simp_all
  show "uint (ucast (bth_pm m) :: u32) = booth_value m mod 2 ^ 32"
    unfolding booth_value_def using l by simp
  have p: "(2::int) ^ 32 = 4 ^ (16 - k) * 4 ^ k"
    using power_add [of "4::int" "16 - k" k] assms(2) by simp
  have "0 \<le> y div 4 ^ k" "y div 4 ^ k < 4 ^ (16 - k)"
    using assms(3,4) unfolding p by (simp_all add: pos_imp_zdiv_nonneg_iff int_quotient_less)
  then have "booth_value m div 4 ^ (16 - k) = x * booth_part y k (bth_prev m)"
    using assms(1) by (simp add: booth_inv_def)
  moreover have "sint (bth_acc m) = booth_value m div 2 ^ 32"
    unfolding booth_value_def using l by simp
  ultimately show "sint (bth_acc m) = x * booth_part y k (bth_prev m) div 4 ^ k"
    unfolding p by (simp add: zdiv_zmult2_eq)
qed


lemma booth_fits:
  assumes "booth_inv x y s k m" "0 \<le> x" "x \<le> 2 ^ 31" "0 \<le> y" "k < 16" "y < 2 ^ 32"
  shows "- (2 ^ 32) \<le> sint (bth_acc m) + booth_digit m * x" "sint (bth_acc m) + booth_digit m * x < 2 ^ 32"
proof -
  let ?a = "sint (bth_acc m)" and ?P = "booth_part y k (bth_prev m)"
  have a: "?a = x * ?P div 4 ^ k" using booth_acc_value(1) [OF assms(1)] assms(4-6) by simp
  have c: "(0::int) < 4 ^ k" by simp
  have d: "?a * 4 ^ k \<le> x * ?P" "x * ?P < (?a + 1) * 4 ^ k"
    unfolding a distrib_right using pos_mod_bound [OF c, of "x * ?P"] pos_mod_sign [OF c, of "x * ?P"]
      div_mult_mod_eq [of "x * ?P" "4 ^ k"] by linarith+
  have "- (2 ^ 32) \<le> ?a + booth_digit m * x \<and> ?a + booth_digit m * x < 2 ^ 32"
  proof (cases "bth_prev m")
    case True
    then have P: "- (4 ^ k) \<le> 2 * ?P" "?P < 0" using assms(1) by (simp_all add: booth_inv_def)
    have "x * - (4 ^ k) \<le> x * (2 * ?P)" using P(1) assms(2) by (rule mult_left_mono)
    then have "- x * 4 ^ k < (2 * (?a + 1)) * 4 ^ k" using d(2) by (simp add: algebra_simps)
    then have "- x < 2 * (?a + 1)" by (simp only: mult_less_cancel_right_pos c)
    moreover have "x = 0 \<or> ?a < 0"
    proof (cases "x = 0")
      case False
      then have "x * ?P < 0" using P(2) assms(2) by (simp add: mult_pos_neg)
      then have "?a * 4 ^ k < 0 * 4 ^ k" using d(1) by simp
      then have "?a < 0" by (simp only: mult_less_cancel_right_pos c)
      then show ?thesis ..
    qed simp
    moreover have "?a \<le> 0" if "x = 0" using that a by simp
    ultimately show ?thesis using True assms(2,3) by (auto simp: booth_digit_def)
  next
    case False
    then have P: "2 * ?P \<le> 4 ^ k" "0 \<le> ?P" using assms(1) by (simp_all add: booth_inv_def booth_part_def)
    have "x * (2 * ?P) \<le> x * 4 ^ k" using P(1) assms(2) by (rule mult_left_mono)
    then have "(2 * ?a) * 4 ^ k \<le> x * 4 ^ k" using d(1) by (simp only: mult.assoc mult.left_commute [of x 2])
    then have "2 * ?a \<le> x" by (simp only: mult_le_cancel_right_pos c)
    moreover have "0 \<le> ?a" unfolding a using P(2) assms(2) by (simp add: pos_imp_zdiv_nonneg_iff)
    ultimately show ?thesis using False assms(2,3) by (auto simp: booth_digit_def)
  qed
  then show "- (2 ^ 32) \<le> ?a + booth_digit m * x" "?a + booth_digit m * x < 2 ^ 32" by simp_all
qed


lemma low_bits:
  assumes "(v::int) mod 4 = q mod 4"
  shows "bit (v mod 2 ^ 32) 0 = odd q" "bit (v mod 2 ^ 32) 1 = odd (q div 2)"
proof -
  have "v mod 2 ^ 32 mod 4 = q mod 4" using assms mod_mod_cancel [of 4 "2 ^ 32" v] by simp
  then have "take_bit 2 (v mod 2 ^ 32) = take_bit 2 q" by (simp add: take_bit_eq_mod)
  then have "bit (v mod 2 ^ 32) i = bit q i" if "i < 2" for i
    using that by (metis bit_take_bit_iff)
  from this [of 0] this [of 1] show "bit (v mod 2 ^ 32) 0 = odd q" "bit (v mod 2 ^ 32) 1 = odd (q div 2)"
    by (simp_all add: bit_iff_odd)
qed

lemma booth_inv_step:
  assumes I: "booth_inv x y s k m" and xy: "0 \<le> x" "x \<le> 2 ^ 31" "0 \<le> y" "y < 2 ^ 32" and k: "k < 16"
  shows "booth_inv x y s (Suc k) (booth_clk m)"
proof -
  define q where "q = y div 4 ^ k"
  let ?P = "booth_part y k (bth_prev m)" and ?l = "uint (ucast (bth_pm m) :: u32)"
  have n: "4 ^ (16 - k) = 4 * (4::int) ^ (15 - k)" using power_Suc [of "4::int" "15 - k"] Suc_diff_le [of k 15] k by simp
  have V: "booth_value m = x * ?P * 4 ^ (16 - k) + q" using I by (simp add: booth_inv_def q_def)
  have l: "?l = booth_value m mod 2 ^ 32" using booth_acc_value(2) [OF I _ xy(3,4)] k by simp
  have c: "bth_count m \<noteq> 0" "uint (bth_mcand m) = x" using I k by (auto simp: booth_inv_def)
  have "booth_value m mod 4 = q mod 4" unfolding V n by (simp add: mult.left_commute [of _ 4])
  from low_bits [OF this] have "bit ?l 0 = odd q" "bit ?l 1 = odd (q div 2)" unfolding l .
  then have b: "bit (bth_pm m) 0 = odd q" "bit (bth_pm m) 1 = odd (q div 2)" by (simp_all add: bit_simps)
  have p32: "(2::int) ^ 32 = 4 ^ k * 4 ^ (16 - k)" using power_add [of "4::int" k "16 - k"] k by simp
  have "booth_value (booth_clk m) = ((sint (bth_acc m) + booth_digit m * x) * 2 ^ 32 + ?l) div 4"
    unfolding booth_shift_value [OF c(1)] using sint_new_acc [of m] booth_fits [OF I xy(1-3) k xy(4)] c(2) by simp
  also have "\<dots> = (booth_value m + booth_digit m * x * (4 ^ k * 4 ^ (16 - k))) div 4"
    by (simp add: booth_value_def algebra_simps flip: p32)
  also have "\<dots> = (q + 4 * (x * (?P + booth_digit m * 4 ^ k) * 4 ^ (15 - k))) div 4"
    unfolding V n by (simp add: algebra_simps)
  also have "\<dots> = x * (?P + booth_digit m * 4 ^ k) * 4 ^ (16 - Suc k) + y div 4 ^ Suc k"
    by (simp add: q_def zdiv_zmult2_eq [of 4 y "4 ^ k", simplified mult.commute [of "4 ^ k" 4]])
  also have "?P + booth_digit m * 4 ^ k = booth_part y (Suc k) (odd (q div 2))"
    unfolding q_def booth_part_step(1) [of y k "bth_prev m"] by (simp add: booth_digit_def b [unfolded q_def] del: One_nat_def)
  finally have v: "booth_value (booth_clk m) =
      x * booth_part y (Suc k) (odd (q div 2)) * 4 ^ (16 - Suc k) + y div 4 ^ Suc k" .
  have "unat (bth_count m - 1) = 16 - Suc k" "bth_count m = 1 \<longleftrightarrow> Suc k = 16"
    using I k count_down [OF c(1)] by (auto simp: booth_inv_def word_unat_eq_iff)
  then show ?thesis
    using I v k booth_part_step(2,3) [of y k]
    unfolding booth_inv_def booth_clk_shift [OF c(1)] b(2) by (simp add: q_def)
qed


lemma booth_inv_run:
  "booth_inv x y s 0 m \<Longrightarrow> 0 \<le> x \<Longrightarrow> x \<le> 2 ^ 31 \<Longrightarrow> 0 \<le> y \<Longrightarrow> y < 2 ^ 32 \<Longrightarrow> k \<le> 16 \<Longrightarrow>
    booth_inv x y s k ((booth_clk ^^ k) m)"
  by (induction k) (simp_all add: booth_inv_step)

lemma push_bit_scast: "push_bit 32 (ucast (v :: 33 word)) = (push_bit 32 (scast v) :: u64)"
  by (rule bit_word_eqI) (auto simp: bit_simps)

lemma push_bit_sum32:
  "push_bit 32 (ucast (ucast (v :: 33 word) + w :: u32)) = (push_bit 32 (ucast (v + ucast w)) :: u64)"
proof -
  have "ucast v + w = (ucast (v + ucast w) :: u32)"
    by (simp add: word_uint_eq_iff uint_word_ariths unsigned_ucast_eq take_bit_eq_mod mod_mod_cancel mod_simps)
  then show ?thesis by (auto intro!: bit_word_eqI simp: bit_simps)
qed

text \<open>The fixup adds the last digit; then the sign.\<close>

lemma booth_inv_end:
  assumes "booth_inv x y s 16 m" "0 \<le> y" "y < 2 ^ 32"
  shows "bth_pm (booth_wait m) = word_of_int (if s then - (x * y) else x * y)"
proof -
  let ?l = "ucast (bth_pm m) :: u32"
  have I: "booth_value m = x * booth_part y 16 (bth_prev m)" "uint (bth_mcand m) = x" "bth_count m = 0"
    "bth_neg m = s" "\<not> bth_negate_pending m" "bth_fixup m"
    using assms by (auto simp: booth_inv_def unat_eq_zero)
  define a where "a = (if bth_prev m then bth_acc m + ucast (bth_mcand m) else bth_acc m)"
  have pm: "push_bit 32 (ucast v) OR take_bit 32 (bth_pm m) = (word_of_int (sint v * 2 ^ 32 + uint ?l) :: u64)"
    for v :: "33 word"
  proof -
    have "push_bit 32 (ucast v) OR take_bit 32 (bth_pm m) = push_bit 32 (scast v) + (ucast ?l :: u64)"
      unfolding push_bit_scast [symmetric]
      by (subst disjunctive_add_eq_or) (auto simp: bit_eq_iff bit_simps)
    then show ?thesis by (simp add: push_bit_eq_mult)
  qed
  have m1: "booth_clk m = m\<lparr>bth_acc := a, bth_pm := push_bit 32 (ucast a) OR take_bit 32 (bth_pm m),
      bth_fixup := False, bth_negate_pending := s\<rparr>"
    using I by (simp add: booth_clk_def a_def push_bit_sum32)
  have l: "uint ?l = booth_value m mod 2 ^ 32"
    using booth_acc_value(2) [OF assms(1) _ assms(2,3)] by simp
  have c: "sint (bth_acc m) = booth_value m div 2 ^ 32"
    using booth_acc_value(1) [OF assms(1) _ assms(2,3)] I(1) by simp
  define p where "p = (of_bool (bth_prev m) :: int)"
  have v: "booth_value m = x * y - p * x * 2 ^ 32"
    using assms(2,3) unfolding I(1) by (simp add: booth_part_def p_def algebra_simps)
  have "a = word_of_int (sint (bth_acc m) + p * x)" using I(2) by (auto simp: a_def p_def)
  moreover have "sint (bth_acc m) + p * x = x * y div 2 ^ 32"
    unfolding c v using div_mult_self1 [of "2 ^ 32" "x * y" "- (p * x)"] by simp
  moreover have x: "0 \<le> x" "x < 2 ^ 32" using I(2) uint_lt2p [of "bth_mcand m"] by auto
  have "0 \<le> x * y" "x * y < 2 ^ 32 * 2 ^ 32"
    using x(1) assms(2) mult_strict_mono' [OF x(2) assms(3) x(1) assms(2)] by simp_all
  then have "0 \<le> x * y div 2 ^ 32" "x * y div 2 ^ 32 < 2 ^ 32"
    by (auto intro: int_quotient_less simp: pos_imp_zdiv_nonneg_iff)
  ultimately have "sint a = x * y div 2 ^ 32" by (intro sint_fits33) simp_all
  moreover have "uint ?l = x * y mod 2 ^ 32"
    unfolding l v using mod_mult_self1 [of "x * y" "- (p * x)" "2 ^ 32"] by simp
  ultimately have "sint a * 2 ^ 32 + uint ?l = x * y" by (simp only: div_mult_mod_eq)
  with pm [of a] have e: "push_bit 32 (ucast a) OR take_bit 32 (bth_pm m) = (word_of_int (x * y) :: u64)"
    by (simp only:)
  have k: "push_bit 32 (ucast a) OR take_bit 32 (push_bit 32 (ucast a) OR take_bit 32 (bth_pm m)) =
      push_bit 32 (ucast a) OR take_bit 32 (bth_pm m)"
    by (rule bit_word_eqI) (auto simp: bit_simps)
  have w: "booth_wait m = booth_wait (booth_clk m)" using I(6) by (subst booth_wait.simps) (simp add: booth_busy_def)
  show ?thesis
  proof (cases s)
    case False
    then have "booth_wait (booth_clk m) = booth_clk m"
      using I(3) by (subst booth_wait.simps) (simp add: booth_busy_def m1)
    then show ?thesis using False e w by (simp add: m1)
  next
    case True
    then have c: "booth_clk (booth_clk m) = (booth_clk m)
        \<lparr>bth_pm := - (push_bit 32 (ucast a) OR take_bit 32 (bth_pm m)), bth_negate_pending := False\<rparr>"
      unfolding m1 using I(3) k by (simp add: booth_clk_def)
    have "booth_wait (booth_clk m) = booth_wait (booth_clk (booth_clk m))"
      using True I(3) by (subst booth_wait.simps) (simp add: booth_busy_def m1)
    also have "\<dots> = booth_clk (booth_clk m)"
      unfolding c using I(3) by (subst booth_wait.simps) (simp add: booth_busy_def m1)
    finally show ?thesis using True e w by (simp add: c)
  qed
qed

lemma ucast_up_down [simp]: "(ucast (ucast (y::u32) :: u64) :: u32) = y"
  by (rule bit_word_eqI) (auto simp: bit_simps)

lemma booth_abs:
  assumes "unat (if mul_sign1 f a then - a else a) \<le> 2 ^ 31"
  shows "booth_multiply f a b = serial_multiply f a b"
proof -
  define x where "x = (if mul_sign1 f a then - a else a)"
  define y where "y = (if mul_sign2 f b then - b else b)"
  let ?m = "booth_load f a b" and ?s = "mul_sign1 f a \<noteq> mul_sign2 f b"
  have "unat x \<le> 2 ^ 31" using assms unfolding x_def [symmetric] .
  then have "int (unat x) \<le> int (2 ^ 31)" by (simp only: of_nat_le_iff)
  then have u: "uint x \<le> 2 ^ 31" unfolding uint_nat by simp
  have b: "0 \<le> uint x" "uint x \<le> 2 ^ 31" "0 \<le> uint y" "uint y < 2 ^ 32"
    using u uint_lt2p [of y] by simp_all
  have "booth_inv (uint x) (uint y) ?s 0 ?m"
    by (simp add: booth_inv_def booth_value_def booth_part_def booth_load_def flip: x_def y_def) 
  from booth_inv_run [OF this b] have R: "k \<le> 16 \<Longrightarrow> booth_inv (uint x) (uint y) ?s k ((booth_clk ^^ k) ?m)" for k .
  have "booth_busy ((booth_clk ^^ k) ?m)" if "k < 16" for k
    using R [of k] that by (auto simp: booth_inv_def booth_busy_def)
  then have "booth_wait ?m = booth_wait ((booth_clk ^^ 16) ?m)"
    by (intro booth_wait_steps) (simp add: list_all_iff)
  then have "booth_multiply f a b = word_of_int (if ?s then - (uint x * uint y) else uint x * uint y)"
    using booth_inv_end [OF R b(3,4)] by (simp add: booth_multiply_def)
  then show ?thesis by (simp add: serial_multiply_abs Let_def flip: x_def y_def)
qed

end
