(* ===== verification/Core_Muldiv.thy ===== *)
theory Core_Muldiv
  imports Core_Booth "HOL-Library.Signed_Division"
begin

text \<open>
  The restoring divider of rtl/attorv32.v and the result multiplexer of the M extension, over
  whichever multiplier the core is built with. \<open>f\<close> is \<open>funct3\<close>: 4 to 7 are DIV, DIVU, REM and REMU.
\<close>

section \<open>The divider\<close>

text \<open>One bit of the quotient per clock; \<open>divResult\<close> is a register of its own, loaded at every clock.\<close>

record div_unit =
  dividend :: u32
  divisor :: "63 word"
  quotient :: u32
  quotient_msk :: u32
  divResult :: u32

definition divstep_do :: "div_unit \<Rightarrow> bool" where
  "divstep_do d \<longleftrightarrow> divisor d \<le> ucast (dividend d)"

definition dividendN :: "div_unit \<Rightarrow> u32" where
  "dividendN d = (if divstep_do d then dividend d - ucast (divisor d) else dividend d)"

definition quotientN :: "div_unit \<Rightarrow> u32" where
  "quotientN d = (if divstep_do d then quotient d OR quotient_msk d else quotient d)"

definition div_sign :: "u32 \<Rightarrow> u32 \<Rightarrow> u32 \<Rightarrow> bool" where
  "div_sign f a b \<longleftrightarrow> \<not> bit f 0 \<and> (if bit f 1 then bit a 31 else bit a 31 \<noteq> bit b 31 \<and> b \<noteq> 0)"

definition div_load :: "u32 \<Rightarrow> u32 \<Rightarrow> u32 \<Rightarrow> div_unit \<Rightarrow> div_unit" where
  "div_load f a b d =
     \<lparr>dividend = (if \<not> bit f 0 \<and> bit a 31 then - a else a),
      divisor = push_bit 31 (ucast (if \<not> bit f 0 \<and> bit b 31 then - b else b)),
      quotient = 0, quotient_msk = 0x80000000,
      divResult = (if bit f 1 then dividendN d else quotientN d)\<rparr>"

definition div_clk :: "u32 \<Rightarrow> div_unit \<Rightarrow> div_unit" where
  "div_clk f d =
     \<lparr>dividend = dividendN d, divisor = drop_bit 1 (divisor d), quotient = quotientN d,
      quotient_msk = drop_bit 1 (quotient_msk d),
      divResult = (if bit f 1 then dividendN d else quotientN d)\<rparr>"

definition div_busy :: "div_unit \<Rightarrow> bool" where
  "div_busy d \<longleftrightarrow> quotient_msk d \<noteq> 0"

function div_wait :: "u32 \<Rightarrow> div_unit \<Rightarrow> div_unit" where
  "div_wait f d = (if div_busy d then div_wait f (div_clk f d) else d)"
  by auto

lemma unat_half: "unat (drop_bit 1 w) = unat w div 2"
  using unat_drop_bit_eq [of 1 w] by (simp only: drop_bit_eq_div power_one_right)

termination div_wait
proof (relation "measure (\<lambda>(f, d). unat (quotient_msk d))")
  show "((f, div_clk f d), f, d) \<in> measure (\<lambda>(f, d). unat (quotient_msk d))" if "div_busy d" for f d
    using that unat_half [of "quotient_msk d"] by (simp add: div_busy_def div_clk_def unat_gt_0)
qed simp

declare div_wait.simps [simp del]

definition serial_divide :: "u32 \<Rightarrow> u32 \<Rightarrow> u32 \<Rightarrow> div_unit \<Rightarrow> u32" where
  "serial_divide f a b d =
     (let r = divResult (div_wait f (div_load f a b d)) in if div_sign f a b then - r else r)"

text \<open>
  After \<open>k\<close> steps the quotient so far times the divisor, plus what is left of the dividend, is the
  dividend; with divisor zero every step subtracts nothing and sets its bit.
\<close>

definition div_inv :: "nat \<Rightarrow> nat \<Rightarrow> nat \<Rightarrow> div_unit \<Rightarrow> bool" where
  "div_inv n m k d \<longleftrightarrow>
     unat (quotient d) * m + unat (dividend d) = n \<and> 2 ^ (32 - k) dvd unat (quotient d) \<and>
     unat (quotient d) + 2 ^ (32 - k) \<le> 2 ^ 32 \<and>
     (unat (dividend d) < m * 2 ^ (32 - k) \<or> m = 0 \<and> unat (quotient d) + 2 ^ (32 - k) = 2 ^ 32) \<and>
     unat (quotient_msk d) = 2 ^ (32 - k) div 2 \<and> unat (divisor d) = m * 2 ^ (32 - k) div 2"

lemma or_low_bit:
  assumes "2 ^ Suc j dvd unat (q::u32)" "unat w = 2 ^ j" "unat q + 2 ^ j < 2 ^ 32"
  shows "unat (q OR w) = unat q + 2 ^ j"
proof -
  have b: "bit x n = odd (unat x div 2 ^ n)" for x :: u32 and n
    by (simp add: bit_iff_odd bit_unsigned_iff flip: bit_iff_odd)
  obtain t where t: "unat q = 2 ^ Suc j * t" using assms(1) ..
  have "\<not> bit q j" unfolding b t by simp
  moreover have "bit w n \<longleftrightarrow> n = j" for n unfolding b assms(2) by (simp flip: bit_iff_odd add: bit_simps)
  ultimately have "q AND w = 0" by (intro bit_word_eqI) (auto simp: bit_and_iff)
  then have "q OR w = q + w" by (rule disjunctive_add_eq_or [symmetric])
  then show ?thesis using assms by (simp add: unat_plus_if')
qed

lemma div_inv_step:
  assumes "div_inv n m k d" "k < 32"
  shows "div_inv n m (Suc k) (div_clk f d)"
proof -
  define j where "j = 31 - k"
  have j: "32 - k = Suc j" "32 - Suc k = j" "31 - k = j" "j < 32" using assms(2) by (auto simp: j_def)
  let ?q = "unat (quotient d)" and ?r = "unat (dividend d)"
  have I: "?q * m + ?r = n" "2 ^ Suc j dvd ?q" "?q + 2 ^ Suc j \<le> 2 ^ 32"
    "?r < m * 2 ^ Suc j \<or> m = 0 \<and> ?q + 2 ^ Suc j = 2 ^ 32"
    "unat (quotient_msk d) = 2 ^ j" "unat (divisor d) = m * 2 ^ j"
    using assms(1) unfolding div_inv_def j by (simp_all add: mult.left_commute [of m 2])
  have c: "unat (ucast (dividend d) :: 63 word) = ?r"
    using unat_bound(1) [of "dividend d"] by (simp add: unsigned_ucast_eq take_bit_nat_eq_self)
  have s: "divstep_do d \<longleftrightarrow> m * 2 ^ j \<le> ?r" by (simp add: divstep_do_def word_le_nat_alt c I(6))
  have dv: "2 ^ j dvd ?q" using I(2) by (rule dvd_trans [rotated]) simp
  have h: "unat (drop_bit 1 (quotient_msk d)) = 2 ^ j div 2" "unat (drop_bit 1 (divisor d)) = m * 2 ^ j div 2"
    unfolding unat_half I(5,6) by (rule refl)+
  show ?thesis
  proof (cases "divstep_do d")
    case True
    have q: "unat (quotient d OR quotient_msk d) = ?q + 2 ^ j"
    proof (intro or_low_bit I)
      have "(0::nat) < 2 ^ j" by simp
      then show "?q + 2 ^ j < 2 ^ 32" using I(3) by (simp only: power_Suc)
    qed
    have "unat (ucast (divisor d) :: u32) = m * 2 ^ j"
      using True s unat_bound(1) [of "dividend d"] by (simp add: unsigned_ucast_eq I(6) take_bit_nat_eq_self)
    then have r: "unat (dividend d - ucast (divisor d)) = ?r - m * 2 ^ j"
      using True s by (simp add: unat_sub word_le_nat_alt)
    have "(?q + 2 ^ j) * m + (?r - m * 2 ^ j) = n" using True s I(1) by (simp add: algebra_simps)
    then show ?thesis
      using True s I(3,4) dv h
      by (auto simp: div_inv_def j div_clk_def dividendN_def quotientN_def q r)
  next
    case False
    then show ?thesis
      using s I(1,3) dv h by (auto simp: div_inv_def j div_clk_def dividendN_def quotientN_def)
  qed
qed

lemma div_inv_end:
  assumes "div_inv n m 32 d"
  shows "unat (quotient d) = (if m = 0 then 2 ^ 32 - 1 else n div m) \<and> unat (dividend d) = n mod m \<and> \<not> div_busy d"
proof -
  have I: "unat (quotient d) * m + unat (dividend d) = n"
    "unat (dividend d) < m \<or> m = 0 \<and> unat (quotient d) + 1 = 2 ^ 32" "unat (quotient_msk d) = 0"
    using assms by (simp_all add: div_inv_def)
  show ?thesis
  proof (cases "m = 0")
    case True
    then show ?thesis using I by (auto simp: div_busy_def unat_eq_zero)
  next
    case False
    then have "unat (dividend d) < m" using I by simp
    then have "n div m = unat (quotient d)" "n mod m = unat (dividend d)"
      using False unfolding I(1) [symmetric] by simp_all
    then show ?thesis using False I(3) by (simp add: div_busy_def unat_eq_zero)
  qed
qed

lemma div_wait_steps:
  "(\<forall>i < k. div_busy ((div_clk f ^^ i) d)) \<Longrightarrow> div_wait f d = div_wait f ((div_clk f ^^ k) d)"
proof (induction k)
  case (Suc k)
  then have "div_wait f d = div_wait f ((div_clk f ^^ k) d)" "div_busy ((div_clk f ^^ k) d)" by simp_all
  then show ?case using div_wait.simps [of f "(div_clk f ^^ k) d"] by simp
qed simp

lemma div_inv_run: "div_inv n m 0 d \<Longrightarrow> k \<le> 32 \<Longrightarrow> div_inv n m k ((div_clk f ^^ k) d)"
  by (induction k) (simp_all add: div_inv_step)

lemma div_inv_busy: "div_inv n m k d \<Longrightarrow> k < 32 \<Longrightarrow> div_busy d"
proof -
  assume "div_inv n m k d" "k < 32"
  then have "unat (quotient_msk d) = 2 ^ (31 - k)" 
    using Suc_diff_le [of k 31] by (simp add: div_inv_def)
  then show "div_busy d" by (auto simp: div_busy_def)
qed

lemma div_inv_start:
  assumes "unat (if \<not> bit f 0 \<and> bit a 31 then - a else a) = n" "unat (if \<not> bit f 0 \<and> bit b 31 then - b else b) = m"
  shows "div_inv n m 0 (div_load f a b d)"
proof -
  define x where "x = (if \<not> bit f 0 \<and> bit a 31 then - a else a)"
  define y where "y = (if \<not> bit f 0 \<and> bit b 31 then - b else b)"
  have xy: "unat x = n" "unat y = m" using assms by (simp_all add: x_def y_def)
  have "n < 2 ^ 32" "m < 2 ^ 32" unfolding xy [symmetric] by (rule unat_bound)+
  note xy = xy this
  have "unat (ucast y :: 63 word) = m" using xy by (simp add: unsigned_ucast_eq take_bit_nat_eq_self)
  then have "unat (push_bit 31 (ucast y) :: 63 word) = m * 2 ^ 31"
    using xy by (simp add: push_bit_eq_mult unat_word_ariths)
  then show ?thesis using xy by (auto simp: div_inv_def div_load_def simp flip: x_def y_def)
qed

lemma serial_divide_abs:
  assumes "unat (if \<not> bit f 0 \<and> bit a 31 then - a else a) = n" "unat (if \<not> bit f 0 \<and> bit b 31 then - b else b) = m"
  shows "serial_divide f a b d =
    (let r = of_nat (if bit f 1 then n mod m else if m = 0 then 2 ^ 32 - 1 else n div m)
     in if div_sign f a b then - r else r)"
proof -
  let ?d = "\<lambda>k. (div_clk f ^^ k) (div_load f a b d)"
  have I: "k \<le> 32 \<Longrightarrow> div_inv n m k (?d k)" for k by (rule div_inv_run [OF div_inv_start [OF assms]])
  have "div_wait f (div_load f a b d) = div_wait f (?d 32)"
    by (rule div_wait_steps) (use I div_inv_busy in \<open>auto intro: div_inv_busy [OF I]\<close>)
  also have "\<dots> = ?d 32" using div_inv_end [OF I [of 32]] by (subst div_wait.simps) simp
  finally have w: "div_wait f (div_load f a b d) = ?d 32" .
  have "divResult (?d (Suc 31)) = (if bit f 1 then dividend (?d (Suc 31)) else quotient (?d (Suc 31)))"
    unfolding funpow.simps o_apply by (simp only: div_clk_def div_unit.simps)
  moreover have x: "of_nat (unat (dividend (?d 32))) = (of_nat (n mod m) :: u32)"
    "of_nat (unat (quotient (?d 32))) = (of_nat (if m = 0 then 2 ^ 32 - 1 else n div m) :: u32)"
    using div_inv_end [OF I [of 32]] by simp_all
  then have "dividend (?d 32) = of_nat (n mod m)" "quotient (?d 32) = of_nat (if m = 0 then 2 ^ 32 - 1 else n div m)"
    by (metis of_nat_unat ucast_id)+
  moreover have "Suc 31 = 32" by simp
  ultimately have "divResult (?d 32) = of_nat (if bit f 1 then n mod m else if m = 0 then 2 ^ 32 - 1 else n div m)"
    by (simp only: if_distrib [of of_nat]) 
  then show ?thesis by (simp add: serial_divide_def w)
qed

text \<open>The quotients and remainders of the instruction set.\<close>

definition div_reference :: "u32 \<Rightarrow> u32 \<Rightarrow> u32 \<Rightarrow> u32" where
  "div_reference f a b =
     (if f = 4 then (if b = 0 then - 1 else word_of_int (sint a sdiv sint b))
      else if f = 5 then (if b = 0 then - 1 else a div b)
      else if f = 6 then (if b = 0 then a else word_of_int (sint a smod sint b))
      else (if b = 0 then a else a mod b))"

lemma sint_abs: "sint (w::u32) = (if bit w 31 then - int (unat (- w)) else int (unat w))"
  using value_as_abs [of True w] by (simp add: value_as_def)

lemma unat_nonzero: "b \<noteq> 0 \<Longrightarrow> 0 < unat (b::u32)" "b \<noteq> 0 \<Longrightarrow> 0 < unat (- b)"
  by (simp_all add: unat_gt_0)

lemma signed_quotient:
  "0 < m \<Longrightarrow> ((if s then - int n else int n) sdiv (if t then - int m else int m)) =
     (if (s \<noteq> t) then - int (n div m) else int (n div m))"
  by (cases s; cases t; cases "n = 0") (simp_all add: signed_divide_int_def sgn_if zdiv_int)

lemma signed_remainder:
  "((if s then - int n else int n) smod (if t then - int m else int m)) =
     (if s then - int (n mod m) else int (n mod m))"
  by (cases s; cases t; cases "n = 0") (simp_all add: signed_modulo_int_def sgn_if zmod_int)

lemma serial_divide_reference:
  assumes "f = 4 \<or> f = 5 \<or> f = 6 \<or> f = 7"
  shows "serial_divide f a b d = div_reference f a b"
proof -
  define n where "n = unat (if \<not> bit f 0 \<and> bit a 31 then - a else a)"
  define m where "m = unat (if \<not> bit f 0 \<and> bit b 31 then - b else b)"
  note e = serial_divide_abs [OF n_def [symmetric] m_def [symmetric], of d]
  have z: "m = 0 \<longleftrightarrow> b = 0" by (auto simp: m_def unat_eq_zero)
  have top: "(of_nat (2 ^ 32 - 1) :: u32) = - 1" by simp
  have bits: "bit (4::u32) 0 = False" "bit (4::u32) 1 = False" "bit (5::u32) 0" "bit (5::u32) 1 = False"
    "bit (6::u32) 0 = False" "bit (6::u32) 1" "bit (7::u32) 0" "bit (7::u32) 1" by code_simp+
  have sa: "sint a = (if bit a 31 then - int n else int n)" "sint b = (if bit b 31 then - int m else int m)" if "\<not> bit f 0"
    using that by (simp_all add: n_def m_def sint_abs)
  have ua: "n = unat a" "m = unat b" if "bit f 0" using that by (simp_all add: n_def m_def)
  have dm: "(of_nat (unat a div unat b) :: u32) = a div b" "(of_nat (unat a mod unat b) :: u32) = a mod b"
    by (metis unat_div_distrib of_nat_unat ucast_id, metis unat_mod_distrib of_nat_unat ucast_id)
  show ?thesis using assms
  proof (elim disjE)
    assume f: "f = 4"
    show ?thesis
    proof (cases "b = 0")
      case False
      with z have "0 < m" by simp
      from signed_quotient [OF this, of "bit a 31" n "bit b 31"] sa show ?thesis
        unfolding e unfolding f using False z by (simp add: bits div_sign_def div_reference_def Let_def)
    qed (use z top in \<open>unfold e, simp add: f bits div_sign_def div_reference_def Let_def\<close>)
  next
    assume f: "f = 6"
    show ?thesis
    proof (cases "b = 0")
      case False
      from signed_remainder [of "bit a 31" n "bit b 31" m] sa show ?thesis
        unfolding e unfolding f using False z by (simp add: bits div_sign_def div_reference_def Let_def)
    next
      case True
      have "word_of_int (sint a) = a" by simp
      then show ?thesis using True z sa unfolding e by (simp add: f bits div_sign_def div_reference_def Let_def split: if_splits)
    qed
  next
    assume f: "f = 5"
    show ?thesis using z top ua unfolding e by (simp add: f bits div_sign_def div_reference_def Let_def dm)
  next
    assume f: "f = 7"
    show ?thesis using z ua unfolding e by (simp add: f bits div_sign_def div_reference_def Let_def dm)
  qed
qed

section \<open>The result of the M instructions\<close>

definition aluOut_muldiv ::
  "(u32 \<Rightarrow> u32 \<Rightarrow> u32 \<Rightarrow> u64) \<Rightarrow> u32 \<Rightarrow> u32 \<Rightarrow> u32 \<Rightarrow> div_unit \<Rightarrow> u32" where
  "aluOut_muldiv mul f a b d =
     (if f = 0 then ucast (mul f a b) else 0) OR
     (if f = 1 \<or> f = 2 \<or> f = 3 then ucast (drop_bit 32 (mul f a b)) else 0) OR
     (if bit f 2 then serial_divide f a b d else 0)"

definition muldiv_reference :: "u32 \<Rightarrow> u32 \<Rightarrow> u32 \<Rightarrow> u32" where
  "muldiv_reference f a b =
     (if f = 0 then ucast (product f a b)
      else if unat f < 4 then ucast (drop_bit 32 (product f a b))
      else div_reference f a b)"

text \<open>What the multiplexer needs of a multiplier: on the operands it covers, the product.\<close>

locale multiplier =
  fixes mul :: "u32 \<Rightarrow> u32 \<Rightarrow> u32 \<Rightarrow> u64" and covers :: "u32 \<Rightarrow> u32 \<Rightarrow> u32 \<Rightarrow> bool"
  assumes mul_product: "covers f a b \<Longrightarrow> mul f a b = product f a b"
begin

lemma muldiv:
  assumes "unat f < 8" "unat f < 4 \<longrightarrow> covers f a b"
  shows "aluOut_muldiv mul f a b d = muldiv_reference f a b"
proof -
  consider "f = 0" | "f = 1 \<or> f = 2 \<or> f = 3" | "f = 4 \<or> f = 5 \<or> f = 6 \<or> f = 7"
    using less8_cases [OF assms(1)] by blast
  then show ?thesis
  proof cases
    case 3
    then have "bit f 2" "\<not> unat f < 4" "f \<noteq> 0 \<and> f \<noteq> 1 \<and> f \<noteq> 2 \<and> f \<noteq> 3" by auto
    then show ?thesis using serial_divide_reference [OF 3] by (simp add: aluOut_muldiv_def muldiv_reference_def)
  qed (use assms(2) in \<open>auto simp: aluOut_muldiv_def muldiv_reference_def mul_product\<close>)
qed

end

interpretation serial: multiplier serial_multiply "\<lambda>f a b. True"
  by unfold_locales (rule serial_multiply_product)

interpretation parallel: multiplier multiply "\<lambda>f a b. f \<noteq> 2"
  by unfold_locales (rule multiply_product)

interpretation booth: multiplier booth_multiply "\<lambda>f a b. unat (if mul_sign1 f a then - a else a) \<le> 2 ^ 31"
  by unfold_locales (simp only: booth_abs serial_multiply_product)

lemma ucast_minus_1: "(ucast (- 1 :: u32) :: u64) = 0xFFFFFFFF"
  by code_simp

lemma ucast_mask_32: "(ucast (mask 32 :: u64) :: u32) = 0xFFFFFFFF"
  by code_simp

lemmas reference_eval = muldiv_reference_def product_def value_as_def signed_first_def signed_second_def
  div_reference_def ucast_minus_1 ucast_mask_32

lemma muldiv_mulhsu: "aluOut_muldiv multiply 2 a b d = muldiv_reference 2 b a"
  by (simp add: aluOut_muldiv_def muldiv_reference_def multiply_mulhsu)

section \<open>Properties\<close>

text \<open>C19: With the serial multiplier the core computes all eight instructions of the M extension as
  the instruction set defines them: the low or high half of the signed, unsigned or mixed
  product, quotients and remainders rounded toward zero, division by zero and the signed
  overflow included, whatever was in the unit's registers before.\<close>

lemma serial_muldiv:
  assumes "unat f < 8"
  shows "aluOut_muldiv serial_multiply f a b d = muldiv_reference f a b"
  by (rule serial.muldiv) (use assms in simp_all)

definition sample_divider :: div_unit where
  "sample_divider = \<lparr>dividend = 0, divisor = 0, quotient = 0, quotient_msk = 0, divResult = 0\<rparr>"

lemma serial_muldiv_witness:
  "aluOut_muldiv serial_multiply 2 0xffffffff 1 sample_divider = 0xffffffff \<and>
   aluOut_muldiv serial_multiply 6 (- 17) 5 sample_divider = - 2"
  using serial_muldiv [of 2 "0xffffffff" 1 sample_divider] serial_muldiv [of 6 "- 17" 5 sample_divider]
  by (simp add: reference_eval)

lemma parallel_muldiv:
  assumes "unat f < 8"
  shows "aluOut_muldiv multiply f a b d = (if f = 2 then muldiv_reference f b a else muldiv_reference f a b)"
  using parallel.muldiv [OF assms] muldiv_mulhsu by simp

lemma parallel_muldiv_witness:
  "aluOut_muldiv multiply 2 0xffffffff 1 sample_divider = 0 \<and> muldiv_reference 2 0xffffffff 1 = 0xffffffff"
  using parallel_muldiv [of 2 "0xffffffff" 1 sample_divider] by (simp add: reference_eval)

lemma booth_muldiv:
  assumes "unat f < 8" "unat f < 4 \<longrightarrow> unat (if mul_sign1 f a then - a else a) \<le> 2 ^ 31"
  shows "aluOut_muldiv booth_multiply f a b d = muldiv_reference f a b"
  by (rule booth.muldiv) (use assms in auto)

lemma booth_muldiv_witness:
  "aluOut_muldiv booth_multiply 3 2 0xffffffff sample_divider = 1 \<and>
   aluOut_muldiv booth_multiply 1 0x80000000 2 sample_divider = 0xffffffff"
  using booth_muldiv [of 3 2 "0xffffffff" sample_divider] booth_muldiv [of 1 "0x80000000" 2 sample_divider]
  by (simp add: reference_eval mul_sign1_def)

lemma booth_mulhu_overflow:
  "aluOut_muldiv booth_multiply 3 0xffffffff 2 d = 3 \<and> muldiv_reference 3 0xffffffff 2 = 1"
  by (simp add: aluOut_muldiv_def booth_high_wrong reference_eval)

end
