(* ===== verification/Core_Traps.thy ===== *)
theory Core_Traps
  imports Core_Alu
begin

text \<open>
  The trap logic and the control and status registers of rtl/attorv32.v: which requests are accepted
  in \<open>S_EXECUTE\<close>, what they save, and what a CSR instruction reads and writes. \<open>ex\<close> says that the
  state machine is in \<open>S_EXECUTE\<close>; the address width is that of the debug SoC.
\<close>

record pins =
  interrupt_request :: bool
  nmi_request :: bool
  dbg_halt_req :: bool
  io_rdata :: u32

record csrs =
  csr_mstatus :: bool
  csr_mepc :: "14 word"
  csr_mcause :: bool
  mcause_irq :: bool
  mcause_ecall :: bool
  mcause_nmi :: bool
  dbg_halt_mask :: bool

section \<open>Requests\<close>

definition interrupt_accepted :: "bool \<Rightarrow> pins \<Rightarrow> csrs \<Rightarrow> bool" where
  "interrupt_accepted ex p s \<longleftrightarrow> interrupt_request p \<and> csr_mstatus s \<and> \<not> csr_mcause s \<and> ex"

definition env_trap_accepted :: "bool \<Rightarrow> u32 \<Rightarrow> csrs \<Rightarrow> bool" where
  "env_trap_accepted ex instr s \<longleftrightarrow> is_env_trap instr \<and> ex \<and> \<not> csr_mcause s"

definition nmi_accepted :: "bool \<Rightarrow> pins \<Rightarrow> csrs \<Rightarrow> bool" where
  "nmi_accepted ex p s \<longleftrightarrow> nmi_request p \<and> \<not> csr_mcause s \<and> ex"

definition dbg_halt_accepted :: "bool \<Rightarrow> pins \<Rightarrow> csrs \<Rightarrow> bool" where
  "dbg_halt_accepted ex p s \<longleftrightarrow> dbg_halt_req p \<and> \<not> dbg_halt_mask s \<and> ex"

definition trap_entry :: "bool \<Rightarrow> pins \<Rightarrow> u32 \<Rightarrow> csrs \<Rightarrow> bool" where
  "trap_entry ex p instr s \<longleftrightarrow>
     interrupt_accepted ex p s \<or> env_trap_accepted ex instr s \<or> nmi_accepted ex p s \<or> dbg_halt_accepted ex p s"

definition wfi_stall :: "bool \<Rightarrow> pins \<Rightarrow> u32 \<Rightarrow> bool" where
  "wfi_stall ex p instr \<longleftrightarrow> is_wfi instr \<and> ex \<and> \<not> (interrupt_request p \<or> nmi_request p \<or> dbg_halt_req p)"

section \<open>CSR instructions\<close>

definition sel_csr :: "u32 \<Rightarrow> u32 \<Rightarrow> bool" where
  "sel_csr n instr \<longleftrightarrow> bits 31 20 instr = n"

definition mcause_read :: "csrs \<Rightarrow> u32" where
  "mcause_read s =
     (if \<not> csr_mcause s then 0
      else if mcause_nmi s then 0x80000000
      else if mcause_irq s then 0x8000000B
      else if mcause_ecall s then 0x0000000B
      else 0x00000003)"

definition CSR_read :: "u32 \<Rightarrow> csrs \<Rightarrow> u32" where
  "CSR_read instr s =
     (if sel_csr 0x300 instr then push_bit 3 (of_bool (csr_mstatus s)) else 0) OR
     (if sel_csr 0x341 instr then ucast (csr_mepc s) else 0) OR
     (if sel_csr 0x342 instr then mcause_read s else 0)"

definition CSR_modifier :: "u32 \<Rightarrow> u32 \<Rightarrow> u32" where
  "CSR_modifier instr rs1 = (if bit instr 14 then bits 19 15 instr else rs1)"

definition CSR_write :: "u32 \<Rightarrow> u32 \<Rightarrow> csrs \<Rightarrow> u32" where
  "CSR_write instr rs1 s =
     (if bits 13 12 instr = 2 then CSR_modifier instr rs1 OR CSR_read instr s
      else if bits 13 12 instr = 3 then NOT (CSR_modifier instr rs1) AND CSR_read instr s
      else CSR_modifier instr rs1)"

definition csr_wr_en :: "bool \<Rightarrow> u32 \<Rightarrow> bool" where
  "csr_wr_en ex instr \<longleftrightarrow> isSYSTEM instr \<and> funct3 instr \<noteq> 0 \<and> ex"

section \<open>The registers at a clock edge\<close>

definition csr_clk :: "bool \<Rightarrow> pins \<Rightarrow> u32 \<Rightarrow> u32 \<Rightarrow> 14 word \<Rightarrow> 14 word \<Rightarrow> csrs \<Rightarrow> csrs" where
  "csr_clk ex p instr rs1 pc pc_new s =
     (let trap = trap_entry ex p instr s; wr = csr_wr_en ex instr; v = CSR_write instr rs1 s;
          irq = interrupt_accepted ex p s; nmi = nmi_accepted ex p s; halt = dbg_halt_accepted ex p s;
          return = is_mret instr \<and> ex
      in \<lparr>csr_mstatus = (if wr \<and> sel_csr 0x300 instr then bit v 3 else csr_mstatus s),
          csr_mepc = (if trap then (if irq \<or> nmi \<or> halt then pc_new else pc)
                      else if wr \<and> sel_csr 0x341 instr then ucast v else csr_mepc s),
          csr_mcause = (if trap then True else if return then False else csr_mcause s),
          mcause_irq = (if trap then irq else mcause_irq s),
          mcause_ecall = (if trap then env_trap_accepted ex instr s \<and> is_ecall instr else mcause_ecall s),
          mcause_nmi = (if trap then nmi else mcause_nmi s),
          dbg_halt_mask = (if halt then True else if return then False else dbg_halt_mask s)\<rparr>)"

end
