(* ===== verification/Selftest.thy ===== *)
theory Selftest
  imports Core_Muldiv Core_Traps Isr
begin

text \<open>
  The self-test firmware sw/selftest.c: the conditions of its CHECKs, in their order, over the
  machine operations that the C operators compile to, the memory of the SoC, and the tick source, the
  interrupts and the handler that advance the tick counter.
  The operations are a record, so that the tests can be run on the instruction set's arithmetic and
  on the units of rtl/attorv32.v.
\<close>

section \<open>Checks\<close>

text \<open>
  \<open>CHECK\<close> counts and, on a false condition, writes the number to IO_DONE and never returns:
  \<open>Inl\<close> is that number, \<open>Inr\<close> the count to go on with.
\<close>

fun run_checks :: "bool list \<Rightarrow> u32 \<Rightarrow> u32 + u32" where
  "run_checks [] test_id = Inr test_id"
| "run_checks (c # cs) test_id = (let test_id = test_id + 1 in if c then run_checks cs test_id else Inl test_id)"

definition done_fail :: "u32 \<Rightarrow> u32" where "done_fail test_id = test_id"
definition done_pass :: u32 where "done_pass = 0"

section \<open>The operations under test\<close>

record arith =
  op_add :: "u32 \<Rightarrow> u32 \<Rightarrow> u32"
  op_sub :: "u32 \<Rightarrow> u32 \<Rightarrow> u32"
  op_and :: "u32 \<Rightarrow> u32 \<Rightarrow> u32"
  op_or :: "u32 \<Rightarrow> u32 \<Rightarrow> u32"
  op_xor :: "u32 \<Rightarrow> u32 \<Rightarrow> u32"
  op_slt :: "u32 \<Rightarrow> u32 \<Rightarrow> u32"
  op_sltu :: "u32 \<Rightarrow> u32 \<Rightarrow> u32"
  op_sll :: "u32 \<Rightarrow> u32 \<Rightarrow> u32"
  op_srl :: "u32 \<Rightarrow> u32 \<Rightarrow> u32"
  op_sra :: "u32 \<Rightarrow> u32 \<Rightarrow> u32"
  br_eq :: "u32 \<Rightarrow> u32 \<Rightarrow> bool"
  br_ne :: "u32 \<Rightarrow> u32 \<Rightarrow> bool"
  br_lt :: "u32 \<Rightarrow> u32 \<Rightarrow> bool"
  br_ltu :: "u32 \<Rightarrow> u32 \<Rightarrow> bool"
  op_m :: "u32 \<Rightarrow> u32 \<Rightarrow> u32 \<Rightarrow> u32"

text \<open>\<open>op_m f\<close> is the instruction of the M extension with \<open>funct3\<close> \<open>f\<close>.\<close>

definition test_alu :: "arith \<Rightarrow> bool list" where
  "test_alu m =
     (let a = 0x12345678; b = 0x0000abcd; neg = - 1; x = 100
      in [op_add m a b = 0x12350245,
          op_sub m a b = 0x1233AAAB,
          op_and m a b = 0x00000248,
          op_or m a b = 0x1234FFFD,
          op_xor m a b = 0x1234FDB5,
          op_slt m neg 0 = 1,
          op_sltu m neg 1 = 0,
          op_add m x 23 = 123,
          op_add m x 2047 = 2147,
          op_add m x (- 2048) = 100 - 2048,
          op_and m x 0xff = 100])"

definition test_shifts :: "arith \<Rightarrow> bool list" where
  "test_shifts m =
     (let x = 0x87654321; v = 0xdeadbeef; s = 12; z = 0
      in [op_sll m x 0 = 0x87654321,
          op_sll m x 1 = 0x0ECA8642,
          op_sll m x 4 = 0x76543210,
          op_sll m x 16 = 0x43210000,
          op_sll m x 31 = 0x80000000,
          op_srl m x 0 = 0x87654321,
          op_srl m x 1 = 0x43B2A190,
          op_srl m x 4 = 0x08765432,
          op_srl m x 16 = 0x00008765,
          op_srl m x 31 = 0x00000001,
          op_sll m v s = push_bit 12 0xdeadbeef,
          op_srl m v s = drop_bit 12 0xdeadbeef,
          op_sll m v z = v,
          op_srl m v z = v])"

definition test_sra :: "arith \<Rightarrow> bool list" where
  "test_sra m =
     (let x = 0x87654321
      in [op_sra m x 0 = 0x87654321, op_sra m x 4 = 0xF8765432, op_sra m x 16 = 0xFFFF8765, op_sra m x 31 = 0xFFFFFFFF])"

definition test_branches :: "arith \<Rightarrow> bool list" where
  "test_branches m =
     (let a = 7; b = 7; c = 9; neg = - 3; pos = 5
      in [br_eq m a b, br_ne m a c, br_lt m neg pos, br_lt m neg pos, br_ltu m pos neg, br_ltu m pos neg])"

definition test_m :: "arith \<Rightarrow> bool list" where
  "test_m m =
     (let mul = op_m m 0; mulh = op_m m 1; mulhsu = op_m m 2; mulhu = op_m m 3;
          divs = op_m m 4; divu = op_m m 5; rems = op_m m 6; remu = op_m m 7;
          a = 0x12345; b = 0x67; x = - 3; y = 5; s1 = 0x80000000; s2 = 2; u1 = 0xFFFFFFFF; u2 = 0xFFFFFFFF;
          ss = - 1; us = 0xFFFFFFFF; n = - 17; d = 5; un = 100; ud = 7; dz_n = 42; dz_d = 0
      in [mul a b = 0x12345 * 0x67,
          mul x y = - 15,
          mulh s1 s2 = 0xFFFFFFFF, mul s1 s2 = 0,
          mulhu u1 u2 = 0xFFFFFFFE, mul u1 u2 = 0x00000001,
          mulhsu ss us = 0xFFFFFFFF, mul ss us = 1,
          divs n d = - 3, rems n d = - 2,
          divu un ud = 14, remu un ud = 2,
          divu dz_n dz_d = 0xFFFFFFFF, remu dz_n dz_d = 42])"

section \<open>Loads and stores\<close>

definition LOAD_sign :: "width \<Rightarrow> u32 \<Rightarrow> bool" where
  "LOAD_sign w d = (if w = Byte then bit d 7 else bit d 15)"

fun LOAD_signed :: "width \<Rightarrow> u32 \<Rightarrow> u32" where
  "LOAD_signed Byte d = vcat [(24, rep 24 (LOAD_sign Byte d)), (8, d)]"
| "LOAD_signed Half d = vcat [(16, rep 16 (LOAD_sign Half d)), (16, d)]"
| "LOAD_signed Word d = d"

definition test_loadstore :: "bool \<Rightarrow> u32 \<Rightarrow> u32 \<Rightarrow> u32 \<Rightarrow> soc \<Rightarrow> bool list" where
  "test_loadstore sra buf8 buf16 buf32 s =
     (let byte = (\<lambda>s i. fst (load Byte s (buf8 + i))); half = (\<lambda>s i. fst (load Half s (buf16 + 2 * i)));
          word = (\<lambda>s i. fst (load Word s (buf32 + 4 * i)));
          s = fold (\<lambda>i s. store Byte s (buf8 + i) (0xA0 + i)) [0, 1, 2, 3] s;
          cs = [byte s 0 = 0xA0, byte s 1 = 0xA1, byte s 2 = 0xA2, byte s 3 = 0xA3];
          s = store Half s buf16 0xBEEF; s = store Half s (buf16 + 2) 0xCAFE;
          cs = cs @ [half s 0 = 0xBEEF, half s 1 = 0xCAFE];
          s = store Word s buf32 0xDEADBEEF; s = store Word s (buf32 + 4) 0x12345678;
          cs = cs @ [word s 0 = 0xDEADBEEF, word s 1 = 0x12345678];
          s = store Byte s buf8 0xFF;
          cs = cs @ [byte s 0 = 0xFF, half s 0 = 0xBEEF]
      in cs @ (if sra then [LOAD_signed Byte (byte s 0) = - 1, LOAD_signed Half (half s 0) = 0xFFFFBEEF] else []))"

section \<open>The breakpoint trap\<close>

text \<open>
  The inline assembly, each instruction with its length in bytes, as a program at \<open>p\<close>; the trap runs
  the handler of isr.c and resumes at \<open>mepc\<close>. \<open>None\<close> is a run that leaves the sequence elsewhere
  than at its end, or does not leave it.
\<close>

datatype asm = Li_t0 u32 | Sw_t0 | C_ebreak

fun asm_at :: "(asm \<times> u32) list \<Rightarrow> u32 \<Rightarrow> u32 \<Rightarrow> (asm \<times> u32) option" where
  "asm_at [] p pc = None"
| "asm_at ((i, n) # r) p pc = (if pc = p then Some (i, n) else asm_at r (p + n) pc)"

record asm_state =
  asm_pc :: u32
  asm_t0 :: u32
  ebreak_marker :: u32
  asm_isr :: isr

definition asm_step :: "asm \<times> u32 \<Rightarrow> asm_state \<Rightarrow> asm_state" where
  "asm_step = (\<lambda>(i, n) s.
     case i of
       Li_t0 v \<Rightarrow> s\<lparr>asm_t0 := v, asm_pc := asm_pc s + n\<rparr>
     | Sw_t0 \<Rightarrow> s\<lparr>ebreak_marker := asm_t0 s, asm_pc := asm_pc s + n\<rparr>
     | C_ebreak \<Rightarrow> (let h = isr_entry 3 ((asm_isr s)\<lparr>mepc := asm_pc s\<rparr>) in s\<lparr>asm_isr := h, asm_pc := mepc h\<rparr>))"

fun asm_run :: "nat \<Rightarrow> (asm \<times> u32) list \<Rightarrow> u32 \<Rightarrow> asm_state \<Rightarrow> asm_state option" where
  "asm_run 0 prog p s = None"
| "asm_run (Suc k) prog p s =
     (case asm_at prog p (asm_pc s) of
        Some i \<Rightarrow> asm_run k prog p (asm_step i s)
      | None \<Rightarrow> if asm_pc s = p + sum_list (map snd prog) then Some s else None)"

definition ebreak_asm :: "u32 \<Rightarrow> u32 \<Rightarrow> (asm \<times> u32) list" where
  "ebreak_asm li sw = [(Li_t0 1, li), (Sw_t0, sw), (C_ebreak, 2), (Li_t0 2, li), (Sw_t0, sw)]"

definition test_ebreak :: "u32 \<Rightarrow> u32 \<Rightarrow> u32 \<Rightarrow> isr \<Rightarrow> bool list" where
  "test_ebreak li sw p h =
     [case asm_run 6 (ebreak_asm li sw) p \<lparr>asm_pc = p, asm_t0 = 0, ebreak_marker = 0, asm_isr = h\<rparr> of
        Some s \<Rightarrow> ebreak_marker s = 2 | None \<Rightarrow> False]"

section \<open>Interrupts\<close>

text \<open>
  The tick source of sim/tb.v, the trap logic of the core and the handler of isr.c, one instruction
  of the program at a time. \<open>raise n\<close> says that the source sets its bit before the \<open>n\<close>-th
  instruction; while a \<open>wfi\<close> stalls, a clock counts like an instruction. The bit is the interrupt
  line. When the interrupt is accepted the handler runs, with the cause the core has saved, and
  returns with \<open>mret\<close>; a tick raised meanwhile is one of the next instruction.
\<close>

record machine =
  clock :: nat
  m_isr :: isr
  m_csrs :: csrs

definition tick_source :: "bool \<Rightarrow> isr \<Rightarrow> isr" where
  "tick_source raise h = (if raise then irq_step Tick h else h)"

definition irq_line :: "isr \<Rightarrow> pins" where
  "irq_line h = \<lparr>interrupt_request = bit (irq_pending h) 0, nmi_request = False, dbg_halt_req = False, io_rdata = 0\<rparr>"

definition instr_clk :: "(nat \<Rightarrow> bool) \<Rightarrow> u32 \<Rightarrow> machine \<Rightarrow> machine" where
  "instr_clk raise i s =
     (let h = tick_source (raise (clock s)) (m_isr s); p = irq_line h;
          c = csr_clk True p i 0 0 0 (m_csrs s); s = s\<lparr>clock := clock s + 1, m_isr := h\<rparr>
      in if wfi_stall True p i then s
         else if trap_entry True p i (m_csrs s)
         then let h' = isr_entry (mcause_read c) h
              in s\<lparr>m_isr := h', m_csrs := csr_clk True (irq_line h') 0x30200073 0 0 0 c\<rparr>
         else s\<lparr>m_csrs := c\<rparr>)"

text \<open>
  \<open>csrsi mstatus, 8\<close>, a load of \<open>tick_count\<close> by the instruction \<open>lw\<close>, and \<open>wfi\<close>, which may stall
  for ever: then there is no result.
\<close>

definition irq_enable :: "(nat \<Rightarrow> bool) \<Rightarrow> machine \<Rightarrow> machine" where
  "irq_enable raise s = instr_clk raise 0x30046073 s"

definition read_tick :: "(nat \<Rightarrow> bool) \<Rightarrow> u32 \<Rightarrow> machine \<Rightarrow> u32 \<times> machine" where
  "read_tick raise lw s = (tick_count (m_isr s), instr_clk raise lw s)"

partial_function (option) wfi_run :: "(nat \<Rightarrow> bool) \<Rightarrow> machine \<Rightarrow> machine option" where
  "wfi_run raise s =
     (if wfi_stall True (irq_line (tick_source (raise (clock s)) (m_isr s))) 0x10500073
      then wfi_run raise (instr_clk raise 0x10500073 s) else Some (instr_clk raise 0x10500073 s))"

text \<open>\<open>rest\<close> are the other instructions of one round of the loop.\<close>

fun wait_ticks :: "nat \<Rightarrow> (nat \<Rightarrow> bool) \<Rightarrow> u32 \<Rightarrow> u32 list \<Rightarrow> u32 \<Rightarrow> machine \<Rightarrow> machine" where
  "wait_ticks 0 raise lw rest t0 s = s"
| "wait_ticks (Suc i) raise lw rest t0 s =
     (let (t, s) = read_tick raise lw s
      in if t0 + 2 \<le> t then s else wait_ticks i raise lw rest t0 (fold (instr_clk raise) rest s))"

definition test_irq :: "(nat \<Rightarrow> bool) \<Rightarrow> u32 \<Rightarrow> u32 list \<Rightarrow> machine \<Rightarrow> bool list \<times> machine" where
  "test_irq raise lw rest s =
     (let s = irq_enable raise s; (t0, s) = read_tick raise lw s;
          s = wait_ticks 100000 raise lw rest t0 s; (t, s) = read_tick raise lw s
      in ([t0 + 1 \<le> t], s))"

definition test_wfi :: "(nat \<Rightarrow> bool) \<Rightarrow> u32 \<Rightarrow> machine \<Rightarrow> bool list option" where
  "test_wfi raise lw s =
     (let s = irq_enable raise s; (t0, s) = read_tick raise lw s
      in map_option (\<lambda>s. [t0 < fst (read_tick raise lw s)]) (wfi_run raise s))"

section \<open>The program\<close>

text \<open>
  What the linker and the compiler fix, the memory, handlers and CSRs the tests start with, and the
  ticks.
\<close>

record platform =
  have_sra :: bool
  have_m :: bool
  at_buf8 :: u32
  at_buf16 :: u32
  at_buf32 :: u32
  at_ebreak :: u32
  li_length :: u32
  sw_length :: u32
  lw_tick :: u32
  loop_rest :: "u32 list"
  memory :: soc
  handlers :: isr
  start_csrs :: csrs
  tick_raised :: "nat \<Rightarrow> bool"

definition irq_part :: "platform \<Rightarrow> bool list \<times> machine" where
  "irq_part p = test_irq (tick_raised p) (lw_tick p) (loop_rest p) \<lparr>clock = 0, m_isr = handlers p, m_csrs = start_csrs p\<rparr>"

definition first_checks :: "arith \<Rightarrow> platform \<Rightarrow> bool list" where
  "first_checks m p =
     test_alu m @ test_shifts m @ (if have_sra p then test_sra m else []) @ test_branches m @
     test_loadstore (have_sra p) (at_buf8 p) (at_buf16 p) (at_buf32 p) (memory p) @
     (if have_m p then test_m m else []) @
     test_ebreak (li_length p) (sw_length p) (at_ebreak p) (handlers p) @ fst (irq_part p)"

text \<open>\<open>main\<close>: the word that ends up in IO_DONE, if any does.\<close>

definition selftest_main :: "arith \<Rightarrow> platform \<Rightarrow> u32 option" where
  "selftest_main m p =
     (case run_checks (first_checks m p) 0 of
        Inl test_id \<Rightarrow> Some (done_fail test_id)
      | Inr n \<Rightarrow>
          map_option (\<lambda>cs. case run_checks cs n of Inl test_id \<Rightarrow> done_fail test_id | Inr _ \<Rightarrow> done_pass)
            (test_wfi (tick_raised p) (lw_tick p) (snd (irq_part p))))"

section \<open>The arithmetic of the instruction set and of the core\<close>

definition isa_arith :: arith where
  "isa_arith =
     \<lparr>op_add = (+), op_sub = (-), op_and = (AND), op_or = (OR), op_xor = (XOR),
      op_slt = (\<lambda>a b. of_bool (sint a < sint b)), op_sltu = (\<lambda>a b. of_bool (a < b)),
      op_sll = (\<lambda>a b. push_bit (unat b mod 32) a), op_srl = (\<lambda>a b. drop_bit (unat b mod 32) a),
      op_sra = (\<lambda>a b. signed_drop_bit (unat b mod 32) a),
      br_eq = (=), br_ne = (\<noteq>), br_lt = (\<lambda>a b. sint a < sint b), br_ltu = (<),
      op_m = muldiv_reference\<rparr>"

text \<open>The register forms of the instructions, executed by the ALU, the comparator and the M units.\<close>

definition R_type :: "u32 \<Rightarrow> bool \<Rightarrow> u32" where
  "R_type f alt = push_bit 30 (of_bool alt) OR push_bit 12 f OR 0x33"

definition B_type :: "u32 \<Rightarrow> u32" where "B_type f = push_bit 12 f OR 0x63"

definition core_arith :: "bool \<Rightarrow> (u32 \<Rightarrow> u32 \<Rightarrow> u32 \<Rightarrow> u64) \<Rightarrow> div_unit \<Rightarrow> arith" where
  "core_arith sra mul d =
     \<lparr>op_add = aluOut_base sra (R_type 0 False), op_sub = aluOut_base sra (R_type 0 True),
      op_and = aluOut_base sra (R_type 7 False), op_or = aluOut_base sra (R_type 6 False),
      op_xor = aluOut_base sra (R_type 4 False), op_slt = aluOut_base sra (R_type 2 False),
      op_sltu = aluOut_base sra (R_type 3 False), op_sll = aluOut_base sra (R_type 1 False),
      op_srl = aluOut_base sra (R_type 5 False), op_sra = aluOut_base sra (R_type 5 True),
      br_eq = predicate (B_type 0), br_ne = predicate (B_type 1), br_lt = predicate (B_type 4),
      br_ltu = predicate (B_type 6), op_m = (\<lambda>f a b. aluOut_muldiv mul f a b d)\<rparr>"


section \<open>Lemmas\<close>

lemma run_checks_result:
  "run_checks cs t =
     (if list_all (\<lambda>c. c) cs then Inr (t + of_nat (length cs))
      else Inl (t + 1 + of_nat (length (takeWhile (\<lambda>c. c) cs))))"
  by (induction cs arbitrary: t) (simp_all add: Let_def)

lemma R_type_fields:
  "list_all (\<lambda>f. list_all (\<lambda>alt. isALUreg (R_type f alt) \<and> funct3 (R_type f alt) = f \<and>
     bit (R_type f alt) 30 = alt) [False, True]) [0, 1, 2, 3, 4, 5, 6, 7]"
  by code_simp

lemma B_type_fields:
  "list_all (\<lambda>f. isBranch (B_type f) \<and> funct3 (B_type f) = f) [0, 1, 4, 6]"
  by code_simp

lemma R_type_alu:
  assumes "f \<in> set [0, 1, 2, 3, 4, 5, 6, 7]" "alt \<longrightarrow> f = 0 \<or> f = 5 \<and> sra"
  shows "aluOut_base sra (R_type f alt) a b = alu_reference f alt a b"
proof -
  have "isALUreg (R_type f alt)" "funct3 (R_type f alt) = f" "bit (R_type f alt) 30 = alt"
    using R_type_fields assms(1) by (cases alt; auto simp: list_all_iff)+
  note r = this
  show ?thesis using aluOut_register [OF r(1), of sra a b] unfolding r(2,3) using assms(2) by (auto simp: alu_reference_def)
qed

lemma B_type_predicate:
  assumes "f \<in> set [0, 1, 4, 6]"
  shows "predicate (B_type f) a b \<longleftrightarrow>
    (if f = 0 then a = b else if f = 1 then a \<noteq> b else if f = 4 then sint a < sint b else a < b)"
  using B_type_fields assms
  by (auto simp: list_all_iff predicate_def aluIn2_def EQ_eq LT_less LTU_less Let_def)

lemma core_ops:
  "op_add (core_arith sra mul d) = op_add isa_arith" "op_sub (core_arith sra mul d) = op_sub isa_arith"
  "op_and (core_arith sra mul d) = op_and isa_arith" "op_or (core_arith sra mul d) = op_or isa_arith"
  "op_xor (core_arith sra mul d) = op_xor isa_arith" "op_slt (core_arith sra mul d) = op_slt isa_arith"
  "op_sltu (core_arith sra mul d) = op_sltu isa_arith" "op_sll (core_arith sra mul d) = op_sll isa_arith"
  "op_srl (core_arith sra mul d) = op_srl isa_arith" "sra \<Longrightarrow> op_sra (core_arith sra mul d) = op_sra isa_arith"
  "br_eq (core_arith sra mul d) = br_eq isa_arith" "br_ne (core_arith sra mul d) = br_ne isa_arith"
  "br_lt (core_arith sra mul d) = br_lt isa_arith" "br_ltu (core_arith sra mul d) = br_ltu isa_arith"
  by (simp_all add: core_arith_def isa_arith_def fun_eq_iff R_type_alu B_type_predicate alu_reference_def)

lemma isa_passes:
  "list_all (\<lambda>c. c) (test_alu isa_arith)" "list_all (\<lambda>c. c) (test_shifts isa_arith)"
  "list_all (\<lambda>c. c) (test_sra isa_arith)" "list_all (\<lambda>c. c) (test_branches isa_arith)"
  by (simp_all add: test_alu_def test_shifts_def test_sra_def test_branches_def isa_arith_def Let_def)

lemma isa_passes_m: "list_all (\<lambda>c. c) (test_m isa_arith)"
  by (simp add: test_m_def isa_arith_def Let_def reference_eval)


text \<open>The M operations at the operands of the test.\<close>

lemma core_test_m:
  assumes "\<And>f a b. unat f < 8 \<Longrightarrow> f = 2 \<longrightarrow> a = - 1 \<and> b = - 1 \<Longrightarrow> f = 3 \<longrightarrow> a = - 1 \<and> b = - 1 \<Longrightarrow>
    f = 0 \<or> f = 1 \<longrightarrow> (a, b) \<in> set [(0x12345, 0x67), (- 3, 5), (0x80000000, 2), (- 1, - 1)] \<Longrightarrow>
    aluOut_muldiv mul f a b d = muldiv_reference f a b"
  shows "test_m (core_arith sra mul d) = test_m isa_arith"
  by (simp add: test_m_def core_arith_def isa_arith_def assms Let_def)


lemma booth_covers_signed: "f = 1 \<or> f = 2 \<Longrightarrow> unat (if mul_sign1 f a then - a else a) \<le> 2 ^ 31"
proof -
  have u: "unat w \<le> 2 ^ 31 \<longleftrightarrow> uint w \<le> 2 ^ 31" for w :: u32
    using of_nat_le_iff [where 'a = int, of "unat w" "2 ^ 31"] by simp
  assume "f = 1 \<or> f = 2"
  then show ?thesis
    using sint_greater_eq [of a] sint_less [of a] sint_abs [of a] unfolding u
    by (auto simp: mul_sign1_def split: if_splits)
qed

lemma neg_words: "(- 1 :: u32) = 0xffffffff" "(- 3 :: u32) = 0xfffffffd"
  by simp_all

lemma ones33: "(ucast (- 1 :: 33 word) :: u64) = 0x1ffffffff" "(ucast (- 1 :: 33 word) :: u32) = - 1"
  by code_simp+

lemmas booth_run = booth_multiply_def booth_load_def mul_sign1_def mul_sign2_def booth_wait.simps booth_busy_def booth_eval ones33

lemma parallel_test_m: "test_m (core_arith sra multiply d) = test_m isa_arith"
proof (rule core_test_m)
  fix f a b :: u32
  assume f: "unat f < 8" and two: "f = 2 \<longrightarrow> a = - 1 \<and> b = - 1"
  show "aluOut_muldiv multiply f a b d = muldiv_reference f a b"
  proof (cases "f = 2")
    case True
    then show ?thesis using two by (simp add: muldiv_mulhsu)
  qed (use f parallel.muldiv in simp)
qed

lemma booth_ones: "booth_multiply 0 (- 1) (- 1) = 0xfffffffe00000001" "booth_multiply 3 (- 1) (- 1) = 0xfffffffe00000001"
proof -
  have "booth_multiply 0 0xffffffff 0xffffffff = 0xfffffffe00000001" "booth_multiply 3 0xffffffff 0xffffffff = 0xfffffffe00000001"
    by (simp_all add: booth_run)
  then show "booth_multiply 0 (- 1) (- 1) = 0xfffffffe00000001" "booth_multiply 3 (- 1) (- 1) = 0xfffffffe00000001"
    unfolding neg_words .
qed

lemma booth_test_m: "test_m (core_arith sra booth_multiply d) = test_m isa_arith"
proof (rule core_test_m)
  fix f a b :: u32
  assume f: "unat f < 8" and 3: "f = 3 \<longrightarrow> a = - 1 \<and> b = - 1"
    and 0: "f = 0 \<or> f = 1 \<longrightarrow> (a, b) \<in> set [(0x12345, 0x67), (- 3, 5), (0x80000000, 2), (- 1, - 1)]"
  consider "f = 0" | "f = 3" | "f = 1 \<or> f = 2" | "\<not> unat f < 4" using less8_cases [OF f] by auto
  then show "aluOut_muldiv booth_multiply f a b d = muldiv_reference f a b"
  proof cases
    case 1
    have "booth_multiply 0 0x12345 0x67 = 0x7530c3" "booth_multiply 0 0xfffffffd 5 = 0xfffffffcfffffff1"
      "booth_multiply 0 0x80000000 2 = 0x100000000" by (simp_all add: booth_run)
    then have "booth_multiply 0 0x12345 0x67 = 0x7530c3" "booth_multiply 0 (- 3) 5 = 0xfffffffcfffffff1"
      "booth_multiply 0 0x80000000 2 = 0x100000000" "booth_multiply 0 (- 1) (- 1) = 0xfffffffe00000001"
      using booth_ones unfolding neg_words by blast+
    then show ?thesis using 1 0 by (auto simp: aluOut_muldiv_def reference_eval)
  next
    case 2
    show ?thesis using 2 3 booth_ones by (auto simp: aluOut_muldiv_def reference_eval)
  next
    case 3
    then show ?thesis using f booth_covers_signed by (intro booth.muldiv) auto
  next
    case 4
    then show ?thesis using f by (intro booth.muldiv) auto
  qed
qed

section \<open>The memory tests\<close>

definition word_slot :: "u32 \<Rightarrow> bool" where
  "word_slot p \<longleftrightarrow> in_ram p \<and> \<not> bit p 0 \<and> \<not> bit p 1"

lemma bit_small:
  "bit (1::u32) n \<longleftrightarrow> n = 0" "bit (2::u32) n \<longleftrightarrow> n = 1" "bit (3::u32) n \<longleftrightarrow> n = 0 \<or> n = 1"
proof -
  show b: "bit (1::u32) n \<longleftrightarrow> n = 0" "bit (2::u32) n \<longleftrightarrow> n = 1" for n
    using bit_exp_iff [where 'a = "32 word", of 1 n] by (auto simp: bit_1_iff)
  have "(3::u32) = 1 OR 2" by simp
  then show "bit (3::u32) n \<longleftrightarrow> n = 0 \<or> n = 1" using b by (simp only: bit_or_iff)
qed

lemma word_slot_bytes:
  assumes "word_slot p" "i \<in> {0, 1, 2, 3}"
  shows "in_ram (p + i)" "ram_waddr (p + i) = ram_waddr p" "i = 0 \<or> i = 2 \<Longrightarrow> \<not> bit (p + i) 0"
proof -
  have i: "bit i n \<Longrightarrow> n = 0 \<or> n = 1" "i = 2 \<Longrightarrow> \<not> bit i 0" for n
    using assms(2) by (auto simp only: bit_small insert_iff empty_iff bit_0_eq bot_apply bot_bool_def)
  have p: "take_bit 12 p = p" "\<not> bit p 0" "\<not> bit p 1" using assms(1) by (simp_all add: word_slot_def in_ram_iff)
  have "p AND i = 0" 
    by (intro bit_word_eqI, unfold bit_and_iff bit_0_eq bot_apply bot_bool_def) (use i(1) p(2,3) in blast)
  then have o: "p + i = p OR i" by (rule disjunctive_add_eq_or)
  have "take_bit 12 (p OR i) = p OR i"
    using p(1) i(1) by (intro bit_word_eqI) (metis bit_take_bit_iff bit_or_iff zero_less_numeral one_less_numeral_iff semiring_norm(76))
  then show "in_ram (p + i)" unfolding o in_ram_iff .
  show "ram_waddr (p + i) = ram_waddr p"
    unfolding o ram_waddr_def using i(1) by (intro bit_word_eqI) (auto simp: bit_bits bit_or_iff)
  show "\<not> bit (p + i) 0" if "i = 0 \<or> i = 2"
    using that i(2) p(2) unfolding o by (auto simp: bit_or_iff)
qed

lemma ram_frame:
  "in_ram a \<Longrightarrow> ram_waddr a \<noteq> ram_waddr b \<Longrightarrow> ram (store w s a v) (ram_waddr b) = ram s (ram_waddr b)"
  by (simp add: store_ram)

lemma test_values:
  "bits 7 0 (0xA0::u32) = 0xA0" "bits 7 0 (0xA1::u32) = 0xA1" "bits 7 0 (0xA2::u32) = 0xA2" "bits 7 0 (0xA3::u32) = 0xA3"
  "bits 7 0 (0xFF::u32) = 0xFF" "bits 15 0 (0xBEEF::u32) = 0xBEEF" "bits 15 0 (0xCAFE::u32) = 0xCAFE"
  "LOAD_signed Byte 0xFF = - 1" "LOAD_signed Half 0xBEEF = 0xFFFFBEEF"
  by code_simp+

lemma loadstore_passes:
  assumes "word_slot p8" "word_slot p16" "word_slot p32" "word_slot (p32 + 4)"
    "distinct [ram_waddr p8, ram_waddr p16, ram_waddr p32, ram_waddr (p32 + 4)]"
  shows "list_all (\<lambda>c. c) (test_loadstore sra p8 p16 p32 s)"
proof -
  define s1 where "s1 = store Byte (store Byte (store Byte (store Byte s p8 0xA0) (p8 + 1) 0xA1) (p8 + 2) 0xA2) (p8 + 3) 0xA3"
  define s2 where "s2 = store Half (store Half s1 p16 0xBEEF) (p16 + 2) 0xCAFE"
  define s3 where "s3 = store Word (store Word s2 p32 0xDEADBEEF) (p32 + 4) 0x12345678"
  define s4 where "s4 = store Byte s3 p8 0xFF"
  note w = word_slot_bytes [OF assms(1)] word_slot_bytes [OF assms(2)]
  have r: "in_ram p8" "in_ram (p8 + 1)" "in_ram (p8 + 2)" "in_ram (p8 + 3)" "in_ram p16" "in_ram (p16 + 2)"
      "in_ram p32" "in_ram (p32 + 4)" "\<not> bit p16 0" "\<not> bit (p16 + 2) 0" "\<not> bit p32 0" "\<not> bit p32 1"
      "\<not> bit (p32 + 4) 0" "\<not> bit (p32 + 4) 1" "ram_waddr (p16 + 2) = ram_waddr p16"
    using assms(1-4) w(1-3) [of 2] w(1) [of 1] w(1) [of 3] w(4-6) [of 2] by (simp_all add: word_slot_def)
  have 1: "byte_at s1 p8 = 0xA0" "byte_at s1 (p8 + 1) = 0xA1" "byte_at s1 (p8 + 2) = 0xA2" "byte_at s1 (p8 + 3) = 0xA3"
    using r by (simp_all add: s1_def byte_at_store_byte test_values)
  have 2: "half_at s2 p16 = 0xBEEF" "half_at s2 (p16 + 2) = 0xCAFE"
    using r by (simp_all add: s2_def half_at_store_half test_values)
  have 3: "ram s3 (ram_waddr p32) = 0xDEADBEEF" "ram s3 (ram_waddr (p32 + 4)) = 0x12345678"
    using r assms(5) by (simp_all add: s3_def store_word_aligned)
  have 4: "byte_at s4 p8 = 0xFF" using r by (simp add: s4_def byte_at_store_byte test_values)
  have "ram s4 (ram_waddr p16) = ram s2 (ram_waddr p16)"
    using r assms(5) by (auto simp: s4_def s3_def ram_frame store_word_aligned)
  then have 5: "half_at s4 p16 = 0xBEEF" using 2 by (simp add: half_at_def)
  show ?thesis
    using 1 2 3 4 5 r
    by (simp add: test_loadstore_def Let_def load_byte_ram load_half_ram load_word_ram test_values
      flip: s1_def s2_def s3_def s4_def del: LOAD_signed.simps)
qed

section \<open>The trap and interrupt tests\<close>

lemma ebreak_passes:
  assumes "li = 2 \<or> li = 4" "sw = 2 \<or> sw = 4" "code_half h (p + li + sw) = 0x9002"
  shows "list_all (\<lambda>c. c) (test_ebreak li sw p h)"
proof -
  have c: "(0x9002 :: u16) AND 3 = 2" "\<not> bit (3::u32) 31" by code_simp+
  have k: "6 = Suc (Suc (Suc (Suc (Suc (Suc 0)))))" by simp
  have e: "mepc (isr_entry 3 (h\<lparr>mepc := p + li + sw\<rparr>)) = p + li + sw + 2"
    using assms(3) c by (simp add: isr_entry_def ebreak_handler_def read_mepc_def write_mepc_def Let_def)
  show ?thesis
    unfolding test_ebreak_def k using assms(1,2) e
    by (elim disjE) (simp_all add: ebreak_asm_def asm_step_def Let_def)
qed

definition ticks :: "machine \<Rightarrow> nat" where "ticks s = unat (tick_count (m_isr s))"

definition ready :: "machine \<Rightarrow> bool" where
  "ready s \<longleftrightarrow> csr_mstatus (m_csrs s) \<and> \<not> csr_mcause (m_csrs s)"

definition pending :: "(nat \<Rightarrow> bool) \<Rightarrow> machine \<Rightarrow> bool" where
  "pending raise s \<longleftrightarrow> raise (clock s) \<or> bit (irq_pending (m_isr s)) 0"

lemma tick_source_fields:
  "bit (irq_pending (tick_source (raise (clock s)) (m_isr s))) 0 = pending raise s"
  "tick_count (tick_source b h) = tick_count h"
  using pending_step(1,2) by (simp_all add: tick_source_def pending_def del: bit_0)

lemma system_words:
  "is_mret 0x30200073" "\<not> is_env_trap 0x30200073" "\<not> csr_wr_en True 0x30200073" "bit (0x8000000B::u32) 31"
  "is_wfi 0x10500073" "\<not> is_mret 0x10500073" "\<not> is_env_trap 0x10500073" "\<not> csr_wr_en True 0x10500073"
  "\<not> is_mret 0x30046073" "\<not> is_env_trap 0x30046073" "\<not> is_wfi 0x30046073" "csr_wr_en True 0x30046073"
  "sel_csr 0x300 0x30046073" "bits 13 12 (0x30046073::u32) = 2" "bit (CSR_modifier 0x30046073 0) 3"
  by code_simp+

text \<open>An instruction that is no environment call and no return, when the core is not in a handler.\<close>

definition plain_op :: "u32 \<Rightarrow> bool" where
  "plain_op i \<longleftrightarrow> \<not> is_mret i \<and> \<not> is_env_trap i \<and> \<not> csr_wr_en True i"

lemma instr_fields:
  fixes raise i s
  defines "h \<equiv> tick_source (raise (clock s)) (m_isr s)" and "b \<equiv> pending raise s"
  assumes "\<not> csr_mcause (m_csrs s)" "\<not> is_mret i" "\<not> is_env_trap i"
  shows "clock (instr_clk raise i s) = clock s + 1"
    and "\<not> csr_mcause (m_csrs (instr_clk raise i s))"
    and "m_isr (instr_clk raise i s) = (if b \<and> csr_mstatus (m_csrs s) then isr_entry 0x8000000B h else h)"
    and "\<not> (is_wfi i \<and> \<not> b) \<Longrightarrow> csr_mstatus (m_csrs (instr_clk raise i s)) =
      (if csr_wr_en True i \<and> sel_csr 0x300 i then bit (CSR_write i 0 (m_csrs s)) 3 else csr_mstatus (m_csrs s))"
    and "is_wfi i \<Longrightarrow> \<not> b \<Longrightarrow> csr_mstatus (m_csrs (instr_clk raise i s)) = csr_mstatus (m_csrs s)"
  using assms(3-5) tick_source_fields(1) [of raise s, folded h_def b_def]
  by (auto simp: instr_clk_def h_def [symmetric] Let_def wfi_stall_def irq_line_def trap_entry_def interrupt_accepted_def
      nmi_accepted_def dbg_halt_accepted_def env_trap_accepted_def csr_clk_def mcause_read_def system_words simp del: bit_0)

lemma instr_tick:
  assumes "\<not> csr_mcause (m_csrs s)" "\<not> is_mret i" "\<not> is_env_trap i"
  shows "tick_count (m_isr (instr_clk raise i s)) = tick_count (m_isr s) + of_bool (pending raise s \<and> csr_mstatus (m_csrs s))"
  using instr_fields(3) [OF assms, of raise] pending_step(4) [OF system_words(4)] tick_source_fields
  by (simp del: bit_0)

lemma ticks_instr:
  assumes "\<not> csr_mcause (m_csrs s)" "\<not> is_mret i" "\<not> is_env_trap i" "ticks s + 1 < 2 ^ 32"
  shows "ticks (instr_clk raise i s) = ticks s + of_bool (pending raise s \<and> csr_mstatus (m_csrs s))"
  using instr_tick [OF assms(1-3), of raise] assms(4) by (simp add: ticks_def unat_word_ariths)

text \<open>\<open>n\<close> instructions: no more than \<open>n\<close> ticks, and one if the source raised its bit.\<close>

definition advances :: "(nat \<Rightarrow> bool) \<Rightarrow> nat \<Rightarrow> machine \<Rightarrow> machine \<Rightarrow> bool" where
  "advances raise n s t \<longleftrightarrow> ready t \<and> clock t = clock s + n \<and> ticks t \<le> ticks s + n \<and> ticks s \<le> ticks t \<and>
     ((\<exists>k. clock s \<le> k \<and> k < clock t \<and> raise k) \<longrightarrow> ticks s < ticks t)"

lemma advances_refl: "ready s \<Longrightarrow> advances raise 0 s s"
  by (simp add: advances_def)

lemma advances_trans: "advances raise n s t \<Longrightarrow> advances raise m t u \<Longrightarrow> advances raise (n + m) s u"
  unfolding advances_def by (metis (no_types, lifting) add.assoc add_le_mono1 le_trans less_le_trans not_less order_le_less_trans)

lemma advances_instr:
  assumes "plain_op i" "ready s" "ticks s + 1 < 2 ^ 32"
  shows "advances raise 1 s (instr_clk raise i s)"
proof -
  have p: "\<not> csr_mcause (m_csrs s)" "\<not> is_mret i" "\<not> is_env_trap i" and e: "\<not> csr_wr_en True i" "csr_mstatus (m_csrs s)"
    using assms(1,2) by (simp_all add: plain_op_def ready_def)
  have "ready (instr_clk raise i s)"
    using instr_fields(2,4,5) [OF p, of raise] e by (auto simp: ready_def)
  then show ?thesis
    using ticks_instr [OF p assms(3), of raise] instr_fields(1) [OF p, of raise] e
    by (auto simp: advances_def pending_def less_Suc_eq_le simp del: bit_0)
qed

lemma advances_block:
  assumes "\<forall>i \<in> set is. plain_op i" "ready s" "ticks s + length is < 2 ^ 32"
  shows "advances raise (length is) s (fold (instr_clk raise) is s)"
  using assms
proof (induction "is" arbitrary: s)
  case (Cons i "is")
  have a: "advances raise 1 s (instr_clk raise i s)" using Cons.prems by (intro advances_instr) auto
  then have "advances raise (length is) (instr_clk raise i s) (fold (instr_clk raise) is (instr_clk raise i s))"
    using Cons.prems by (intro Cons.IH) (auto simp: advances_def)
  from advances_trans [OF a this] show ?case by simp
qed (simp add: advances_refl)

lemma wait_ticks_advances:
  assumes "plain_op lw" "\<forall>i \<in> set rest. plain_op i" "ready s" "ticks s + n * (1 + length rest) + 1 < 2 ^ 32"
  shows "\<exists>k. k \<le> n * (1 + length rest) \<and> advances raise k s (wait_ticks n raise lw rest t0 s) \<and>
    (k = n * (1 + length rest) \<or> unat (t0 + 2) \<le> ticks (wait_ticks n raise lw rest t0 s))"
  using assms(3,4)
proof (induction n arbitrary: s)
  case (Suc n)
  let ?s = "instr_clk raise lw s"
  have a: "advances raise 1 s ?s" using assms(1) Suc.prems by (intro advances_instr) auto
  show ?case
  proof (cases "t0 + 2 \<le> tick_count (m_isr s)")
    case True
    then have "unat (t0 + 2) \<le> ticks ?s" using a by (simp add: advances_def ticks_def word_le_nat_alt)
    then show ?thesis using True a by (intro exI [of _ 1]) (simp add: read_tick_def)
  next
    case False
    let ?t = "fold (instr_clk raise) rest ?s"
    have "advances raise (length rest) ?s ?t"
      using a Suc.prems assms(2) by (intro advances_block) (auto simp: advances_def)
    from advances_trans [OF a this] have b: "advances raise (1 + length rest) s ?t" .
    then obtain k where k: "k \<le> n * (1 + length rest)" "advances raise k ?t (wait_ticks n raise lw rest t0 ?t)"
      "k = n * (1 + length rest) \<or> unat (t0 + 2) \<le> ticks (wait_ticks n raise lw rest t0 ?t)"
      using Suc.IH [of ?t] Suc.prems(2) by (auto simp: advances_def)
    show ?thesis
      using k advances_trans [OF b k(2)] False by (intro exI [of _ "1 + length rest + k"]) (auto simp: read_tick_def)
  qed
qed (auto simp: advances_refl)

lemma irq_enable_fields:
  assumes "\<not> csr_mcause (m_csrs s)" "ticks s + 1 < 2 ^ 32"
  shows "ready (irq_enable raise s)" "ticks (irq_enable raise s) \<le> ticks s + 1"
  using instr_fields(2,4) [OF assms(1) system_words(9,10), of raise] ticks_instr [OF assms(1) system_words(9,10) assms(2), of raise]
  by (simp_all add: irq_enable_def ready_def system_words CSR_write_def bit_or_iff)

lemma irq_passes:
  assumes "plain_op lw" "\<forall>i \<in> set rest. plain_op i" "length rest < 100" "\<not> csr_mcause (m_csrs s)" "ticks s < 2 ^ 31"
    and "\<And>n. \<exists>k < 100000. raise (n + k)"
  shows "list_all (\<lambda>c. c) (fst (test_irq raise lw rest s))" "ready (snd (test_irq raise lw rest s))"
    "ticks (snd (test_irq raise lw rest s)) + 3 < 2 ^ 32"
proof -
  let ?n = "100000 * (1 + length rest)"
  define s1 where "s1 = irq_enable raise s"
  define s2 where "s2 = instr_clk raise lw s1"
  define t0 where "t0 = tick_count (m_isr s1)"
  define s3 where "s3 = wait_ticks 100000 raise lw rest t0 s2"
  have 1: "ready s1" "ticks s1 \<le> ticks s + 1"
    using irq_enable_fields [OF assms(4), of raise] assms(5) by (simp_all add: s1_def)
  have t0: "unat t0 = ticks s1" by (simp add: t0_def ticks_def)
  have 2: "advances raise 1 s1 s2"
    unfolding s2_def by (rule advances_instr) (use 1 assms(1,5) in auto)
  obtain k where k: "k \<le> ?n" "advances raise k s2 s3" "k = ?n \<or> unat (t0 + 2) \<le> ticks s3"
    using wait_ticks_advances [OF assms(1,2), of s2 100000 raise t0] 1 2 assms(3,5) by (auto simp: advances_def s3_def)
  have "advances raise (1 + k) s1 s3" by (rule advances_trans [OF 2 k(2)])
  then have b: "ticks s3 \<le> ticks s1 + 1 + k" "ready s3" by (simp_all add: advances_def)
  have "ticks s2 < ticks s3" if "k = ?n"
  proof -
    obtain j where "j < 100000" "raise (clock s2 + j)" using assms(6) by blast
    then show ?thesis using k(2) that by (auto simp: advances_def)
  qed
  moreover have "unat (t0 + 2) = ticks s1 + 2" "unat (t0 + 1) = ticks s1 + 1"
    using t0 1(2) assms(5) by (simp_all add: unat_word_ariths)
  ultimately have "t0 + 1 \<le> tick_count (m_isr s3)"
    using k(3) 2 by (auto simp: word_le_nat_alt ticks_def [symmetric] advances_def)
  moreover have "test_irq raise lw rest s = ([t0 + 1 \<le> tick_count (m_isr s3)], instr_clk raise lw s3)"
    by (simp add: test_irq_def read_tick_def s1_def [symmetric] t0_def [symmetric] s2_def [symmetric] s3_def [symmetric] Let_def)
  moreover have "advances raise 1 s3 (instr_clk raise lw s3)"
    by (rule advances_instr) (use b k(1) 1(2) assms(1,3,5) in auto)
  ultimately show "list_all (\<lambda>c. c) (fst (test_irq raise lw rest s))" "ready (snd (test_irq raise lw rest s))"
    "ticks (snd (test_irq raise lw rest s)) + 3 < 2 ^ 32"
    using b k(1) 1(2) assms(3,5) by (auto simp: advances_def)
qed

lemma wfi_returns:
  assumes "raise (clock s + k)" "ready s" "ticks s + 1 < 2 ^ 32"
  shows "\<exists>t. wfi_run raise s = Some t \<and> ticks t = ticks s + 1"
  using assms
proof (induction k arbitrary: s)
  case 0
  then have "pending raise s" by (simp add: pending_def)
  then show ?case
    using 0 tick_source_fields(1) [of raise s] ticks_instr [OF _ system_words(6,7), of s raise]
    by (auto simp: wfi_run.simps [of raise s] wfi_stall_def irq_line_def ready_def simp del: bit_0)
next
  case (Suc k)
  let ?t = "instr_clk raise 0x10500073 s"
  have m: "\<not> csr_mcause (m_csrs s)" using Suc.prems by (simp add: ready_def)
  have t: "ticks ?t = ticks s + of_bool (pending raise s)"
    using ticks_instr [OF m system_words(6,7), of raise] Suc.prems(2,3) by (simp add: ready_def)
  have p: "plain_op 0x10500073" by (simp add: plain_op_def system_words)
  show ?case
  proof (cases "pending raise s")
    case True
    then show ?thesis
      using t tick_source_fields(1) [of raise s] by (auto simp: wfi_run.simps [of raise s] wfi_stall_def irq_line_def simp del: bit_0)
  next
    case False
    have "ready ?t" "clock ?t = clock s + 1" using advances_instr [OF p Suc.prems(2,3)] by (simp_all add: advances_def)
    then obtain u where "wfi_run raise ?t = Some u" "ticks u = ticks s + 1"
      using Suc.IH [of ?t] Suc.prems t False by auto
    then show ?thesis
      using False tick_source_fields(1) [of raise s]
      by (auto simp: wfi_run.simps [of raise s] wfi_stall_def irq_line_def system_words simp del: bit_0)
  qed
qed

lemma wfi_passes:
  assumes "plain_op lw" "ready s" "ticks s + 3 < 2 ^ 32" "\<And>n. \<exists>k < 100000. raise (n + k)"
  shows "\<exists>cs. test_wfi raise lw s = Some cs \<and> list_all (\<lambda>c. c) cs \<and> length cs = 1"
proof -
  define s1 where "s1 = irq_enable raise s"
  define s2 where "s2 = instr_clk raise lw s1"
  have 1: "ready s1" "ticks s1 \<le> ticks s + 1"
    using irq_enable_fields [of s raise] assms(2,3) by (simp_all add: s1_def ready_def)
  have 2: "advances raise 1 s1 s2"
    unfolding s2_def by (rule advances_instr) (use 1 assms in auto)
  obtain k where "raise (clock s2 + k)" using assms(4) by blast
  then obtain u where u: "wfi_run raise s2 = Some u" "ticks u = ticks s2 + 1"
    using wfi_returns [of raise s2 k] 1 2 assms(3) by (auto simp: advances_def)
  have "tick_count (m_isr s1) < tick_count (m_isr u)"
    using u(2) 2 by (simp add: word_less_nat_alt ticks_def [symmetric] advances_def)
  then show ?thesis
    using u(1) by (simp add: test_wfi_def read_tick_def s1_def [symmetric] s2_def [symmetric] Let_def)
qed

section \<open>The whole program\<close>

text \<open>
  The buffers are words of RAM of their own, the breakpoint is the compressed one, the loop that waits
  for ticks has at most 100 instructions a round, none of them a system instruction that changes the
  CSRs, the tests start outside a handler with a counter below \<open>2 ^ 31\<close>, and of every 100000
  instructions the tick source raises its bit before one.
\<close>

definition platform_ok :: "platform \<Rightarrow> bool" where
  "platform_ok p \<longleftrightarrow>
     word_slot (at_buf8 p) \<and> word_slot (at_buf16 p) \<and> word_slot (at_buf32 p) \<and> word_slot (at_buf32 p + 4) \<and>
     distinct [ram_waddr (at_buf8 p), ram_waddr (at_buf16 p), ram_waddr (at_buf32 p), ram_waddr (at_buf32 p + 4)] \<and>
     (li_length p = 2 \<or> li_length p = 4) \<and> (sw_length p = 2 \<or> sw_length p = 4) \<and>
     code_half (handlers p) (at_ebreak p + li_length p + sw_length p) = 0x9002 \<and>
     plain_op (lw_tick p) \<and> (\<forall>i \<in> set (loop_rest p). plain_op i) \<and> length (loop_rest p) < 100 \<and>
     \<not> csr_mcause (start_csrs p) \<and> tick_count (handlers p) < 2 ^ 31 \<and>
     (\<forall>n. \<exists>k < 100000. tick_raised p (n + k))"

lemma irq_part_passes:
  assumes "platform_ok p"
  shows "list_all (\<lambda>c. c) (fst (irq_part p))" "ready (snd (irq_part p))" "ticks (snd (irq_part p)) + 3 < 2 ^ 32"
proof -
  let ?s = "\<lparr>clock = 0, m_isr = handlers p, m_csrs = start_csrs p\<rparr>"
  have "ticks ?s < 2 ^ 31" using assms by (simp add: platform_ok_def ticks_def word_less_nat_alt)
  note i = irq_passes [of "lw_tick p" "loop_rest p" ?s "tick_raised p", OF _ _ _ _ this]
  show "list_all (\<lambda>c. c) (fst (irq_part p))" "ready (snd (irq_part p))" "ticks (snd (irq_part p)) + 3 < 2 ^ 32"
    unfolding irq_part_def by (rule i; use assms in \<open>simp add: platform_ok_def\<close>)+
qed

lemma first_checks_pass:
  assumes "platform_ok p" "have_m p \<longrightarrow> test_m (core_arith (have_sra p) mul d) = test_m isa_arith"
  shows "list_all (\<lambda>c. c) (first_checks (core_arith (have_sra p) mul d) p)"
proof -
  let ?m = "core_arith (have_sra p) mul d"
  have "test_alu ?m = test_alu isa_arith" "test_shifts ?m = test_shifts isa_arith" "test_branches ?m = test_branches isa_arith"
    "have_sra p \<Longrightarrow> test_sra ?m = test_sra isa_arith"
    by (simp_all add: test_alu_def test_shifts_def test_sra_def test_branches_def core_ops)
  moreover have "list_all (\<lambda>c. c) (test_loadstore (have_sra p) (at_buf8 p) (at_buf16 p) (at_buf32 p) (memory p))"
    by (rule loadstore_passes) (use assms(1) in \<open>simp_all add: platform_ok_def\<close>)
  moreover have "list_all (\<lambda>c. c) (test_ebreak (li_length p) (sw_length p) (at_ebreak p) (handlers p))"
    by (rule ebreak_passes) (use assms(1) in \<open>simp_all add: platform_ok_def\<close>)
  ultimately show ?thesis
    using assms(2) isa_passes isa_passes_m irq_part_passes(1) [OF assms(1)] by (simp add: first_checks_def)
qed

lemma pass_is_zero:
  assumes "platform_ok p" "list_all (\<lambda>c. c) (first_checks m p)"
  shows "selftest_main m p = Some 0"
proof -
  have "plain_op (lw_tick p)" "\<And>n. \<exists>k < 100000. tick_raised p (n + k)" using assms(1) by (simp_all add: platform_ok_def)
  then obtain cs where "test_wfi (tick_raised p) (lw_tick p) (snd (irq_part p)) = Some cs" "list_all (\<lambda>c. c) cs"
    using wfi_passes [OF _ irq_part_passes(2,3) [OF assms(1)]] by blast
  then show ?thesis using assms(2) by (simp add: selftest_main_def run_checks_result done_pass_def)
qed

definition sample_platform :: platform where
  "sample_platform =
     \<lparr>have_sra = True, have_m = True, at_buf8 = 0x100, at_buf16 = 0x110, at_buf32 = 0x120, at_ebreak = 0x80,
      li_length = 2, sw_length = 4, lw_tick = 0x0007A783, loop_rest = [0x00F77863, 0xFFF70713, 0xFE071AE3],
      memory = \<lparr>ram = (\<lambda>_. 0), rom = (\<lambda>_. 0), bkpt = \<lparr>bp_addr = (\<lambda>_. 0), bp_en = 0, bp_hit = 0, halt_req = False\<rparr>,
                uart = \<lparr>rx_valid = False, rx_data = 0, rx_queue = [], tx_wait = 0, tx_time = 0, tx_log = []\<rparr>\<rparr>,
      handlers = \<lparr>tick_count = 0, irq_pending = 0, mepc = 0, code_half = (\<lambda>_. 0x9002)\<rparr>,
      start_csrs = \<lparr>csr_mstatus = False, csr_mepc = 0, csr_mcause = False, mcause_irq = False, mcause_ecall = False,
                    mcause_nmi = False, dbg_halt_mask = False\<rparr>,
      tick_raised = (\<lambda>n. n mod 5000 = 4999)\<rparr>"

lemma sample_platform_ok: "platform_ok sample_platform"
proof -
  have "\<exists>k < 100000. (n + k) mod 5000 = 4999" for n :: nat
  proof (intro exI conjI)
    show "4999 - n mod 5000 < 100000" by linarith
    have "n mod 5000 < 5000" by (rule mod_less_divisor) simp
    then have e: "n + (4999 - n mod 5000) = 4999 + 5000 * (n div 5000)"
      using div_mult_mod_eq [of n 5000] by linarith
    show "(n + (4999 - n mod 5000)) mod 5000 = 4999" unfolding e by simp
  qed
  moreover have "word_slot 0x100" "word_slot 0x110" "word_slot 0x120" "word_slot 0x124"
    "distinct [ram_waddr 0x100, ram_waddr 0x110, ram_waddr 0x120, ram_waddr 0x124]"
    "list_all plain_op [0x0007A783, 0x00F77863, 0xFFF70713, 0xFE071AE3]" by code_simp+
  ultimately show ?thesis by (simp add: platform_ok_def sample_platform_def)
qed

section \<open>Properties\<close>

text \<open>C40: The self test, run on the core's ALU, comparator, load and store lanes, serial multiplier
  and divider, writes 0, that is PASS. Its interrupts run as well, instruction by instruction,
  with the tick source of tb.v, the trap logic and CSRs of the core and the handlers of isr.c:
  the breakpoint is resumed behind, the loop of test_irq sees a tick, and the wfi stalls until
  an interrupt has been served and then returns. Required: the buffers are words of RAM of their
  own, the breakpoint is the compressed one, the wait loop has at most 100 instructions a round
  and none of them changes the CSRs, the counter starts below 2^31, and the tick source raises
  its bit at least once in every 100000 instructions.\<close>

lemma selftest_passes:
  assumes "platform_ok p"
  shows "selftest_main (core_arith (have_sra p) serial_multiply d) p = Some 0"
proof -
  have "test_m (core_arith (have_sra p) serial_multiply d) = test_m isa_arith"
    by (intro core_test_m serial.muldiv) simp_all
  then show ?thesis by (intro pass_is_zero first_checks_pass assms impI)
qed

lemma selftest_passes_witness:
  "selftest_main (core_arith True serial_multiply sample_divider) sample_platform = Some 0"
  using selftest_passes [OF sample_platform_ok, of sample_divider] by (simp add: sample_platform_def)

lemma selftest_blind:
  assumes "platform_ok p"
  shows "selftest_main (core_arith (have_sra p) multiply d) p = Some 0 \<and>
    op_m (core_arith (have_sra p) multiply d) 2 0xffffffff 1 \<noteq> op_m isa_arith 2 0xffffffff 1 \<and>
    selftest_main (core_arith (have_sra p) booth_multiply d) p = Some 0 \<and>
    op_m (core_arith (have_sra p) booth_multiply d) 3 0xffffffff 2 \<noteq> op_m isa_arith 3 0xffffffff 2"
proof (intro conjI)
  show "selftest_main (core_arith (have_sra p) multiply d) p = Some 0"
    by (intro pass_is_zero first_checks_pass assms impI parallel_test_m)
  show "selftest_main (core_arith (have_sra p) booth_multiply d) p = Some 0"
    by (intro pass_is_zero first_checks_pass assms impI booth_test_m)
  show "op_m (core_arith (have_sra p) multiply d) 2 0xffffffff 1 \<noteq> op_m isa_arith 2 0xffffffff 1"
    by (simp add: core_arith_def isa_arith_def muldiv_mulhsu reference_eval)
  show "op_m (core_arith (have_sra p) booth_multiply d) 3 0xffffffff 2 \<noteq> op_m isa_arith 3 0xffffffff 2"
    by (simp add: core_arith_def isa_arith_def aluOut_muldiv_def booth_high_wrong reference_eval)
qed

lemma selftest_blind_witness:
  "selftest_main (core_arith True multiply sample_divider) sample_platform = Some 0 \<and>
   selftest_main (core_arith True booth_multiply sample_divider) sample_platform = Some 0"
  using selftest_blind [OF sample_platform_ok, of sample_divider] by (simp add: sample_platform_def)

end
