(* ===== verification/Gdb_Bridge.thy ===== *)
theory Gdb_Bridge
  imports Soc_Bus "HOL-Library.Sublist"
begin

text \<open>
  The simulation bridge sim/tb_dbg_gdb.cpp: the command line, the firmware loader, and the loop that
  carries bytes between the debugger's socket and the UART registers of the simulated SoC. The part
  of rtl/attorv32_dbg.v that the loop touches (its BENCH branch) is modelled with it. What the
  processor does in each clock cycle, and what the operating system answers to a read, a write or an
  accept, is the input of that cycle.
\<close>

type_synonym u64 = "64 word"

section \<open>Numbers in text\<close>

definition digit_val :: "char \<Rightarrow> nat" where
  "digit_val c =
     (let n = of_char c :: nat
      in if 48 \<le> n \<and> n \<le> 57 then n - 48
         else if 97 \<le> n \<and> n \<le> 122 then n - 87
         else if 65 \<le> n \<and> n \<le> 90 then n - 55
         else 99)"

definition is_space :: "char \<Rightarrow> bool" where
  "is_space c = (let n = of_char c :: nat in n = 32 \<or> 9 \<le> n \<and> n \<le> 13)"

fun digits_val :: "nat \<Rightarrow> nat \<Rightarrow> string \<Rightarrow> nat" where
  "digits_val base v [] = v"
| "digits_val base v (c # cs) = (if digit_val c < base then digits_val base (v * base + digit_val c) cs else v)"

definition sign_of :: "string \<Rightarrow> bool \<times> string" where
  "sign_of s = (case s of c # cs \<Rightarrow> if c = CHR ''-'' then (True, cs) else if c = CHR ''+'' then (False, cs) else (False, s)
                | [] \<Rightarrow> (False, s))"

definition radix_of :: "nat \<Rightarrow> string \<Rightarrow> nat \<times> string" where
  "radix_of base s =
     (case s of
        z # x # d # cs \<Rightarrow>
          if (base = 0 \<or> base = 16) \<and> z = CHR ''0'' \<and> (x = CHR ''x'' \<or> x = CHR ''X'') \<and> digit_val d < 16
          then (16, d # cs)
          else (if base = 0 then (if z = CHR ''0'' then 8 else 10) else base, s)
      | z # cs \<Rightarrow> (if base = 0 then (if z = CHR ''0'' then 8 else 10) else base, s)
      | [] \<Rightarrow> (if base = 0 then 10 else base, s))"

definition strtoull :: "nat \<Rightarrow> string \<Rightarrow> u64" where
  "strtoull base s =
     (let (neg, s1) = sign_of (dropWhile is_space s); (b, s2) = radix_of base s1; v = digits_val b 0 s2
      in if v < 2 ^ 64 then (if neg then - of_nat v else of_nat v) else - 1)"

definition atoi :: "string \<Rightarrow> int" where
  "atoi s =
     (let (neg, s1) = sign_of (dropWhile is_space s); v = int (digits_val 10 0 s1)
      in if neg then - v else v)"

section \<open>The command line\<close>

record config =
  tcp_port :: int
  max_cycles :: u64
  hex_file :: "string option"
  trace_uart :: bool

definition default_config :: config where
  "default_config = \<lparr>tcp_port = 3333, max_cycles = 100000000, hex_file = None, trace_uart = False\<rparr>"

definition parse_arg :: "config \<Rightarrow> string \<Rightarrow> config" where
  "parse_arg c arg =
     (if take 5 arg = ''+hex='' then c\<lparr>hex_file := Some (drop 5 arg)\<rparr>
      else if take 6 arg = ''+port='' then c\<lparr>tcp_port := atoi (drop 6 arg)\<rparr>
      else if take 9 arg = ''+timeout='' then c\<lparr>max_cycles := strtoull 0 (drop 9 arg)\<rparr>
      else if arg = ''+trace_uart'' then c\<lparr>trace_uart := True\<rparr>
      else c)"

definition parse_args :: "string list \<Rightarrow> config" where
  "parse_args argv = foldl parse_arg default_config (tl argv)"

section \<open>Loading the firmware\<close>

text \<open>\<open>fgets\<close> with the 64-byte buffer: up to 63 characters, ending after a newline.\<close>

fun fgets :: "nat \<Rightarrow> string \<Rightarrow> string \<times> string" where
  "fgets 0 f = ([], f)"
| "fgets (Suc n) [] = ([], [])"
| "fgets (Suc n) (c # f) =
     (if c = CHR 0x0A then ([c], f) else (let (l, r) = fgets n f in (c # l, r)))"

lemma fgets_length: "length (snd (fgets n f)) \<le> length f"
  by (induction n f rule: fgets.induct) (auto split: prod.splits)

definition hex_line :: "(nat \<Rightarrow> u32) \<times> nat \<Rightarrow> string \<Rightarrow> (nat \<Rightarrow> u32) \<times> nat" where
  "hex_line = (\<lambda>(mem, idx) line.
     if hd line = CHR 0x0A \<or> hd line = CHR 0x0D then (mem, idx)
     else let word = ucast (strtoull 16 line) in (if idx < 1024 then mem(idx := word) else mem, idx + 1))"

function hex_lines :: "string \<Rightarrow> (nat \<Rightarrow> u32) \<times> nat \<Rightarrow> (nat \<Rightarrow> u32) \<times> nat" where
  "hex_lines f s = (if f = [] then s else (let (line, r) = fgets 63 f in hex_lines r (hex_line s line)))"
  by auto

lemma fgets_shorter: "f \<noteq> [] \<Longrightarrow> length (snd (fgets (Suc n) f)) < length f"
  using fgets_length [of n "tl f"] by (cases f) (auto split: prod.splits)

termination hex_lines
proof (relation "measure (\<lambda>(f, s). length f)")
  show "f \<noteq> [] \<Longrightarrow> x = fgets 63 f \<Longrightarrow> (line, r) = x \<Longrightarrow> ((r, hex_line s line), f, s) \<in> measure (\<lambda>(f, s). length f)"
    for f s x line r
    using fgets_shorter [of f 62] by (auto simp: numeral_eq_Suc dest: sym)
qed simp

declare hex_lines.simps [simp del]

definition load_hex :: "string \<Rightarrow> (nat \<Rightarrow> u32) \<Rightarrow> (nat \<Rightarrow> u32) \<times> nat" where
  "load_hex f mem = hex_lines f (mem, 0)"

section \<open>The UART of the simulated SoC\<close>

text \<open>The registers and the pin that the bridge and the BENCH branch of attorv32_dbg.v share.\<close>

record dut =
  uart_rx_valid :: bool
  uart_rx_data :: u8
  uart_tx_valid :: bool
  uart_tx_data :: u8
  uart_rx :: bool
  brk_cnt :: "4 word"

text \<open>
  One rising clock edge: \<open>rd_en\<close> when the core reads UART_DATA, \<open>wr\<close> the byte when it writes it.
\<close>

definition brk_step :: "bool \<Rightarrow> 4 word \<Rightarrow> 4 word" where
  "brk_step line n = (if line then 0 else if n \<noteq> 15 then n + 1 else n)"

definition dut_posedge :: "bool \<Rightarrow> bool \<Rightarrow> u8 option \<Rightarrow> dut \<Rightarrow> dut" where
  "dut_posedge resetn rd_en wr d =
     (if \<not> resetn then d\<lparr>uart_tx_valid := False, uart_rx_valid := False, brk_cnt := 0\<rparr>
      else (case wr of Some c \<Rightarrow> d\<lparr>uart_tx_data := c, uart_tx_valid := True\<rparr> | None \<Rightarrow> d\<lparr>uart_tx_valid := False\<rparr>)
        \<lparr>uart_rx_valid := uart_rx_valid d \<and> \<not> rd_en, brk_cnt := brk_step (uart_rx d) (brk_cnt d)\<rparr>)"

definition uart_break :: "dut \<Rightarrow> bool" where
  "uart_break d \<longleftrightarrow> brk_cnt d = 15"

section \<open>The environment of one cycle\<close>

text \<open>
  The stop conditions, the core's FSM state and bus activity, and the answers of the operating
  system to the one read, write and accept that a cycle may make. \<open>core_rd\<close> is the read strobe at
  UART_DATA. accept blocks: \<open>None\<close> stands for a call that never returns, because no debugger connects.
\<close>

datatype sock_read = Data u8 | Eof | Again
datatype sock_write = Wrote | Would_block | Failed

record cycle_env =
  env_quit :: bool
  env_finish :: bool
  core_state :: "2 word"
  core_rd :: bool
  core_wr :: "u8 option"
  env_read :: sock_read
  env_write :: sock_write
  env_accept :: "bool option"

datatype trace = RX u64 u8 | TX u64 u8 | RX_consumed u64

text \<open>
  The bridge's variables, with the bytes that crossed each of its four sides: read from the socket,
  accepted by the socket, taken and written by the core. \<open>loading\<close> says that the core has strobed a
  full receive register in the last cycle: the load's write-back of \<open>S_WAIT\<close> takes what is in the
  register then. \<open>stuck\<close> says that the program is in an accept that never returns.
\<close>

record bridge =
  sim :: dut
  client_fd :: bool
  pending_rx :: int
  break_cycles :: nat
  cycle :: u64
  prev_rx_valid :: bool
  stderr_log :: "trace list"
  net_in :: "u8 list"
  net_out :: "u8 list"
  core_in :: "u8 list"
  core_out :: "u8 list"
  loading :: bool
  stuck :: bool

section \<open>The socket\<close>

definition tcp_try_read :: "sock_read \<Rightarrow> bridge \<Rightarrow> int \<times> bridge" where
  "tcp_try_read r b =
     (if \<not> client_fd b then (- 1, b)
      else case r of
        Data c \<Rightarrow> (uint c, b\<lparr>net_in := net_in b @ [c]\<rparr>)
      | Eof \<Rightarrow> (- 1, b\<lparr>client_fd := False\<rparr>)
      | Again \<Rightarrow> (- 1, b))"

definition tcp_write :: "sock_write \<Rightarrow> u8 \<Rightarrow> bridge \<Rightarrow> bridge" where
  "tcp_write w c b =
     (if \<not> client_fd b then b
      else case w of
        Wrote \<Rightarrow> b\<lparr>net_out := net_out b @ [c]\<rparr>
      | Would_block \<Rightarrow> b
      | Failed \<Rightarrow> b\<lparr>client_fd := False\<rparr>)"

section \<open>The loop\<close>

definition drive_break :: "bridge \<Rightarrow> bridge" where
  "drive_break b =
     (if 0 < break_cycles b
      then b\<lparr>break_cycles := break_cycles b - 1, sim := (sim b)\<lparr>uart_rx := (break_cycles b - 1 = 0)\<rparr>\<rparr>
      else b)"

definition inject_rx :: "bool \<Rightarrow> cycle_env \<Rightarrow> bridge \<Rightarrow> bridge" where
  "inject_rx tr e b =
     (if \<not> uart_rx_valid (sim b) \<and> core_state e \<noteq> 3 \<and> break_cycles b = 0
      then let b = (if pending_rx b < 0 then (let (r, b) = tcp_try_read (env_read e) b in b\<lparr>pending_rx := r\<rparr>) else b)
           in if pending_rx b = 3 then b\<lparr>break_cycles := 20, pending_rx := - 1\<rparr>
              else if 0 \<le> pending_rx b
              then b\<lparr>sim := (sim b)\<lparr>uart_rx_data := word_of_int (pending_rx b), uart_rx_valid := True\<rparr>,
                     stderr_log := stderr_log b @ (if tr then [RX (cycle b) (word_of_int (pending_rx b))] else []),
                     pending_rx := - 1\<rparr>
              else b
      else b)"

definition clock_up :: "cycle_env \<Rightarrow> bridge \<Rightarrow> bridge" where
  "clock_up e b =
     b\<lparr>sim := dut_posedge True (core_rd e) (core_wr e) (sim b),
       core_in := core_in b @ (if loading b \<and> core_state e = 3 then [uart_rx_data (sim b)] else []),
       core_out := core_out b @ (case core_wr e of Some c \<Rightarrow> [c] | None \<Rightarrow> []),
       loading := core_rd e \<and> uart_rx_valid (sim b)\<rparr>"

definition transmit :: "bool \<Rightarrow> cycle_env \<Rightarrow> bridge \<Rightarrow> bridge" where
  "transmit tr e b =
     (if uart_tx_valid (sim b)
      then (let b = tcp_write (env_write e) (uart_tx_data (sim b)) b
            in b\<lparr>stderr_log := stderr_log b @ (if tr then [TX (cycle b) (uart_tx_data (sim b))] else [])\<rparr>)
      else b)"

definition track_rx :: "bool \<Rightarrow> bridge \<Rightarrow> bridge" where
  "track_rx tr b =
     (if tr
      then b\<lparr>stderr_log := stderr_log b @
               (if prev_rx_valid b \<and> \<not> uart_rx_valid (sim b) then [RX_consumed (cycle b)] else []),
             prev_rx_valid := uart_rx_valid (sim b)\<rparr>
      else b)"

definition reaccept :: "cycle_env \<Rightarrow> bridge \<Rightarrow> bridge" where
  "reaccept e b =
     (if client_fd b then b
      else case env_accept e of None \<Rightarrow> b\<lparr>stuck := True\<rparr> | Some ok \<Rightarrow> b\<lparr>client_fd := ok, break_cycles := 20\<rparr>)"

definition bridge_cycle :: "bool \<Rightarrow> cycle_env \<Rightarrow> bridge \<Rightarrow> bridge" where
  "bridge_cycle tr e b =
     (let b = drive_break b;
          b = inject_rx tr e b;
          b = clock_up e b;
          b = transmit tr e b;
          b = track_rx tr b;
          b = b\<lparr>cycle := cycle b + 1\<rparr>
      in reaccept e b)"

text \<open>The state after the loop, or, if it says \<open>stuck\<close>, the state in which the program waits for ever.\<close>

function bridge_loop :: "config \<Rightarrow> (u64 \<Rightarrow> cycle_env) \<Rightarrow> bridge \<Rightarrow> bridge" where
  "bridge_loop c env b =
     (if \<not> stuck b \<and> \<not> env_quit (env (cycle b)) \<and> \<not> env_finish (env (cycle b)) \<and> cycle b < max_cycles c
      then bridge_loop c env (bridge_cycle (trace_uart c) (env (cycle b)) b)
      else b)"
  by auto

lemma bridge_step_cycle:
  "cycle (drive_break b) = cycle b" "cycle (inject_rx tr e b) = cycle b" "cycle (clock_up e b) = cycle b"
  "cycle (transmit tr e b) = cycle b" "cycle (track_rx tr b) = cycle b" "cycle (reaccept e b) = cycle b"
  by (simp_all add: drive_break_def inject_rx_def tcp_try_read_def clock_up_def transmit_def tcp_write_def
    track_rx_def reaccept_def Let_def split: sock_read.splits sock_write.splits option.splits)

lemma cycle_bridge [simp]: "cycle (bridge_cycle tr e b) = cycle b + 1"
  by (simp add: bridge_cycle_def bridge_step_cycle)

lemma loop_decreases:
  "cycle b < max_cycles c \<Longrightarrow> unat (max_cycles c - cycle (bridge_cycle tr e b)) < unat (max_cycles c - cycle b)"
proof -
  assume "cycle b < max_cycles c"
  then have "max_cycles c - cycle b \<noteq> 0" by auto
  from measure_unat [OF this] show ?thesis by (simp add: diff_diff_eq [symmetric])
qed

termination bridge_loop
  by (relation "measure (\<lambda>(c, env, b). unat (max_cycles c - cycle b))") (use loop_decreases in \<open>auto simp del: cycle_bridge\<close>)

declare bridge_loop.simps [simp del]

section \<open>Start\<close>

definition reset_toggle :: "bool \<times> dut \<Rightarrow> bool \<times> dut" where
  "reset_toggle = (\<lambda>(clk, d). (\<not> clk, if \<not> clk then dut_posedge False False None d else d))"

definition bridge_reset :: "dut \<Rightarrow> dut" where
  "bridge_reset d = snd ((reset_toggle ^^ 10) (False, d\<lparr>uart_rx := True\<rparr>))"

definition bridge_start :: "dut \<Rightarrow> bridge" where
  "bridge_start d =
     \<lparr>sim = bridge_reset d, client_fd = True, pending_rx = - 1, break_cycles = 20, cycle = 0,
      prev_rx_valid = False, stderr_log = [], net_in = [], net_out = [], core_in = [], core_out = [],
      loading = False, stuck = False\<rparr>"

text \<open>\<open>None\<close>: the program waits for ever for a connection.\<close>

definition bridge_main ::
  "string list \<Rightarrow> (string \<Rightarrow> string option) \<Rightarrow> bool \<Rightarrow> bool option \<Rightarrow> (u64 \<Rightarrow> cycle_env) \<Rightarrow> dut \<Rightarrow>
    (int + (nat \<Rightarrow> u32) \<times> bridge) option" where
  "bridge_main argv files listen_ok accept_ok env d =
     (let c = parse_args argv; mem = (\<lambda>i. 0);
          ram = (case hex_file c of Some path \<Rightarrow> map_option (\<lambda>f. fst (load_hex f mem)) (files path) | None \<Rightarrow> Some mem)
      in case ram of
           None \<Rightarrow> Some (Inl 1)
         | Some m \<Rightarrow>
             if \<not> listen_ok \<or> accept_ok = Some False then Some (Inl 1)
             else let b = bridge_loop c env (bridge_start d)
                  in if accept_ok = None \<or> stuck b then None else Some (Inr (m, b)))"

section \<open>Bytes from the debugger to the core\<close>

text \<open>
  \<open>received\<close> is what the core has taken, with the byte that is in the receive register or that a load
  is about to write back; nothing is left in \<open>pending_rx\<close> between two cycles.
\<close>

definition received :: "bridge \<Rightarrow> u8 list" where
  "received b = core_in b @ (if loading b \<or> uart_rx_valid (sim b) then [uart_rx_data (sim b)] else [])"

definition wanted :: "bridge \<Rightarrow> u8 list" where
  "wanted b = filter (\<lambda>c. c \<noteq> 3) (net_in b)"

definition settled :: "bridge \<Rightarrow> bool" where
  "settled b \<longleftrightarrow> pending_rx b = - 1 \<and> \<not> (loading b \<and> uart_rx_valid (sim b))"

text \<open>
  The state machine of the core waits in \<open>S_WAIT\<close>, state 3, after the strobe of a load. (A load that
  the debug halt cuts short does not.)
\<close>

definition loads_wait :: "(u64 \<Rightarrow> cycle_env) \<Rightarrow> bool" where
  "loads_wait env \<longleftrightarrow> (\<forall>n. core_rd (env n) \<longrightarrow> core_state (env (n + 1)) = 3)"

lemma uint_u8: "(word_of_int (uint c) :: u8) = c" "0 \<le> uint c" "uint c = 3 \<longleftrightarrow> c = (3::u8)"
  by (simp_all add: word_uint_eq_iff)

lemma inject_bytes:
  fixes tr e
  assumes "pending_rx b = - 1"
  defines "i \<equiv> inject_rx tr e b"
  obtains cs where "wanted i = wanted b @ cs" "core_in i = core_in b" "loading i = loading b" "pending_rx i = - 1"
    "if cs = [] then uart_rx_valid (sim i) = uart_rx_valid (sim b) \<and> uart_rx_data (sim i) = uart_rx_data (sim b)
     else core_state e \<noteq> 3 \<and> \<not> uart_rx_valid (sim b) \<and> uart_rx_valid (sim i) \<and> cs = [uart_rx_data (sim i)]"
proof (cases "\<not> uart_rx_valid (sim b) \<and> core_state e \<noteq> 3 \<and> break_cycles b = 0 \<and> client_fd b \<and> (\<exists>c. env_read e = Data c \<and> c \<noteq> 3)")
  case True
  then obtain c where "env_read e = Data c" "c \<noteq> 3" by blast
  then show ?thesis
    using True that [of "[c]"] uint_u8 by (simp add: i_def inject_rx_def tcp_try_read_def wanted_def assms(1) Let_def)
next
  case False
  then show ?thesis
    using that [of "[]"] uint_u8
    by (auto simp: i_def inject_rx_def tcp_try_read_def wanted_def assms(1) Let_def split: sock_read.splits)
qed

lemma clock_bytes:
  "wanted (clock_up e b) = wanted b" "pending_rx (clock_up e b) = pending_rx b"
  "loading (clock_up e b) \<longleftrightarrow> core_rd e \<and> uart_rx_valid (sim b)"
  "uart_rx_valid (sim (clock_up e b)) \<longleftrightarrow> uart_rx_valid (sim b) \<and> \<not> core_rd e"
  "uart_rx_data (sim (clock_up e b)) = uart_rx_data (sim b)"
  "core_in (clock_up e b) = core_in b @ (if loading b \<and> core_state e = 3 then [uart_rx_data (sim b)] else [])"
  by (simp_all add: clock_up_def dut_posedge_def wanted_def split: option.splits)

lemma subseq_skip: "subseq (xs @ [y]) (xs @ [x, y])"
  by (induction xs) simp_all

lemma edge_bytes:
  assumes "settled b"
  obtains cs where "settled (clock_up e (inject_rx tr e b))" "wanted (clock_up e (inject_rx tr e b)) = wanted b @ cs"
    "subseq (received (clock_up e (inject_rx tr e b))) (received b @ cs)"
    "loading b \<longrightarrow> core_state e = 3 \<Longrightarrow> received (clock_up e (inject_rx tr e b)) = received b @ cs"
proof -
  have p: "pending_rx b = - 1" and l: "\<not> (loading b \<and> uart_rx_valid (sim b))" using assms by (simp_all add: settled_def)
  obtain cs where i: "wanted (inject_rx tr e b) = wanted b @ cs" "core_in (inject_rx tr e b) = core_in b"
      "loading (inject_rx tr e b) = loading b" "pending_rx (inject_rx tr e b) = - 1"
    and c: "if cs = [] then uart_rx_valid (sim (inject_rx tr e b)) = uart_rx_valid (sim b) \<and>
        uart_rx_data (sim (inject_rx tr e b)) = uart_rx_data (sim b)
      else core_state e \<noteq> 3 \<and> \<not> uart_rx_valid (sim b) \<and> uart_rx_valid (sim (inject_rx tr e b)) \<and>
        cs = [uart_rx_data (sim (inject_rx tr e b))]"
    using inject_bytes [OF p, of tr e] by blast
  have r: "received (clock_up e (inject_rx tr e b)) = core_in b @
      (if loading b \<and> core_state e = 3 then [uart_rx_data (sim (inject_rx tr e b))] else []) @
      (if uart_rx_valid (sim (inject_rx tr e b)) then [uart_rx_data (sim (inject_rx tr e b))] else [])"
    by (auto simp: received_def clock_bytes i)
  have "received (clock_up e (inject_rx tr e b)) = received b @ cs" if "loading b \<longrightarrow> core_state e = 3"
    unfolding r using that c l by (auto simp: received_def split: if_splits)
  moreover have "subseq (received (clock_up e (inject_rx tr e b))) (received b @ cs)"
    unfolding r using c l subseq_skip by (auto simp: received_def split: if_splits)
  moreover have "settled (clock_up e (inject_rx tr e b))" by (simp add: settled_def clock_bytes i)
  ultimately show ?thesis using that [of cs] by (simp add: clock_bytes i)
qed

lemma bytes_rest:
  "settled (drive_break b) = settled b" "wanted (drive_break b) = wanted b" "received (drive_break b) = received b"
  "settled (transmit tr e b) = settled b" "wanted (transmit tr e b) = wanted b" "received (transmit tr e b) = received b"
  "settled (track_rx tr b) = settled b" "wanted (track_rx tr b) = wanted b" "received (track_rx tr b) = received b"
  "settled (reaccept e b) = settled b" "wanted (reaccept e b) = wanted b" "received (reaccept e b) = received b"
  "settled (b\<lparr>cycle := n\<rparr>) = settled b" "wanted (b\<lparr>cycle := n\<rparr>) = wanted b" "received (b\<lparr>cycle := n\<rparr>) = received b"
  "loading (drive_break b) = loading b" "loading (transmit tr e b) = loading b" "loading (track_rx tr b) = loading b"
  "loading (reaccept e b) = loading b"
  by (simp_all add: settled_def wanted_def received_def drive_break_def transmit_def tcp_write_def track_rx_def reaccept_def
      Let_def split: sock_write.splits option.splits)

lemma loading_clock: "loading (clock_up e b) \<Longrightarrow> core_rd e"
  by (simp add: clock_up_def)

lemma bytes_cycle:
  assumes "settled b"
  obtains cs where "settled (bridge_cycle tr e b)" "wanted (bridge_cycle tr e b) = wanted b @ cs"
    "subseq (received (bridge_cycle tr e b)) (received b @ cs)"
    "loading b \<longrightarrow> core_state e = 3 \<Longrightarrow> received (bridge_cycle tr e b) = received b @ cs"
    "loading (bridge_cycle tr e b) \<longrightarrow> core_rd e"
proof -
  have "settled (drive_break b)" using assms by (simp add: bytes_rest)
  from edge_bytes [OF this, of e tr] that show ?thesis
    using loading_clock by (auto simp: bridge_cycle_def Let_def bytes_rest)
qed

text \<open>A predicate that every cycle keeps holds after the loop.\<close>

lemma bridge_loop_keeps:
  assumes "\<And>tr b. P b \<Longrightarrow> P (bridge_cycle tr (env (cycle b)) b)"
  shows "P b \<Longrightarrow> P (bridge_loop c env b)"
  using assms by (induction c env b rule: bridge_loop.induct) (subst bridge_loop.simps, auto)

lemma reset_dut:
  "uart_rx_valid (bridge_reset d) = False" "uart_tx_valid (bridge_reset d) = False" "brk_cnt (bridge_reset d) = 0"
  by (simp_all add: bridge_reset_def reset_toggle_def dut_posedge_def eval_nat_numeral)

lemma bytes_start:
  "settled (bridge_start d)" "received (bridge_start d) = []" "wanted (bridge_start d) = []" "\<not> loading (bridge_start d)"
  by (simp_all add: bridge_start_def settled_def received_def wanted_def reset_dut)

lemma arriving_cycle:
  assumes "settled b \<and> subseq (received b) (wanted b)"
  shows "settled (bridge_cycle tr e b) \<and> subseq (received (bridge_cycle tr e b)) (wanted (bridge_cycle tr e b))"
proof -
  obtain cs where c: "settled (bridge_cycle tr e b)" "wanted (bridge_cycle tr e b) = wanted b @ cs"
    "subseq (received (bridge_cycle tr e b)) (received b @ cs)"
    using bytes_cycle [of b tr e] assms by blast
  moreover have "subseq (received b @ cs) (wanted b @ cs)" using assms by simp
  ultimately show ?thesis using subseq_order.order_trans [OF c(3)] by simp
qed

definition delivered :: "(u64 \<Rightarrow> cycle_env) \<Rightarrow> bridge \<Rightarrow> bool" where
  "delivered env b \<longleftrightarrow> settled b \<and> received b = wanted b \<and> (loading b \<longrightarrow> core_state (env (cycle b)) = 3)"

lemma delivered_cycle:
  assumes "loads_wait env" "delivered env b"
  shows "delivered env (bridge_cycle tr (env (cycle b)) b)"
proof -
  let ?e = "env (cycle b)"
  obtain cs where c: "settled (bridge_cycle tr ?e b)" "wanted (bridge_cycle tr ?e b) = wanted b @ cs"
    "received (bridge_cycle tr ?e b) = received b @ cs" "loading (bridge_cycle tr ?e b) \<longrightarrow> core_rd ?e"
    using bytes_cycle [of b tr ?e] assms(2) by (metis delivered_def)
  then show ?thesis using assms by (auto simp: delivered_def loads_wait_def)
qed

section \<open>Bytes from the core to the debugger\<close>

lemma out_frame:
  "net_out (drive_break b) = net_out b" "core_out (drive_break b) = core_out b"
  "net_out (inject_rx tr e b) = net_out b" "core_out (inject_rx tr e b) = core_out b"
  "net_out (track_rx tr b) = net_out b" "core_out (track_rx tr b) = core_out b"
  "net_out (reaccept e b) = net_out b" "core_out (reaccept e b) = core_out b"
  "client_fd (drive_break b) = client_fd b" "client_fd (track_rx tr b) = client_fd b"
  "env_read e \<noteq> Eof \<Longrightarrow> client_fd (inject_rx tr e b) = client_fd b"
  "client_fd b \<Longrightarrow> client_fd (reaccept e b)"
  by (simp_all add: drive_break_def inject_rx_def tcp_try_read_def track_rx_def reaccept_def Let_def
    split: sock_read.splits option.splits)

text \<open>What the core writes in a cycle is in the transmit register right after the edge.\<close>

lemma out_cycle:
  "core_out (bridge_cycle tr e b) = core_out b @ (case core_wr e of Some c \<Rightarrow> [c] | None \<Rightarrow> [])"
  "net_out (bridge_cycle tr e b) = net_out b @
     (case core_wr e of
        Some c \<Rightarrow> if client_fd (inject_rx tr e (drive_break b)) \<and> env_write e = Wrote then [c] else []
      | None \<Rightarrow> [])"
  by (auto simp: bridge_cycle_def Let_def out_frame clock_up_def transmit_def tcp_write_def dut_posedge_def
    split: option.splits sock_write.splits)

lemma connected_cycle:
  "env_read e \<noteq> Eof \<Longrightarrow> env_write e = Wrote \<Longrightarrow> client_fd b \<Longrightarrow> client_fd (bridge_cycle tr e b)"
  by (auto simp: bridge_cycle_def Let_def out_frame clock_up_def transmit_def tcp_write_def dut_posedge_def
    split: option.splits intro!: out_frame(12))

text \<open>A byte the socket cannot take at once is gone.\<close>

lemma would_block_loses:
  "core_wr e = Some c \<Longrightarrow> env_write e = Would_block \<Longrightarrow>
     net_out (bridge_cycle tr e b) = net_out b \<and> core_out (bridge_cycle tr e b) = core_out b @ [c]"
  by (simp add: out_cycle)

definition sent :: "bridge \<Rightarrow> bool" where
  "sent b \<longleftrightarrow> client_fd b \<and> net_out b = core_out b"

lemma sent_cycle:
  "env_read e \<noteq> Eof \<Longrightarrow> env_write e = Wrote \<Longrightarrow> sent b \<Longrightarrow> sent (bridge_cycle tr e b)"
  using connected_cycle [of e b tr] by (auto simp: sent_def out_cycle out_frame split: option.splits)

lemma bridge_loop_sent:
  assumes "\<And>n. env_read (env n) \<noteq> Eof \<and> env_write (env n) = Wrote"
  shows "sent b \<Longrightarrow> sent (bridge_loop c env b)"
  using assms
proof (induction c env b rule: bridge_loop.induct)
  case (1 c env b)
  show ?case by (subst bridge_loop.simps) (use 1 sent_cycle in auto)
qed

text \<open>Whatever the socket does, nothing is sent twice, out of order or invented.\<close>

lemma subseq_cycle:
  "subseq (net_out b) (core_out b) \<Longrightarrow> subseq (net_out (bridge_cycle tr e b)) (core_out (bridge_cycle tr e b))"
  by (auto simp: out_cycle split: option.splits intro: list_emb_prefix)

section \<open>Waiting for a debugger\<close>

lemma stuck_frame:
  "stuck (drive_break b) = stuck b" "stuck (inject_rx tr e b) = stuck b" "stuck (clock_up e b) = stuck b"
  "stuck (transmit tr e b) = stuck b" "stuck (track_rx tr b) = stuck b"
  by (simp_all add: drive_break_def inject_rx_def tcp_try_read_def clock_up_def transmit_def tcp_write_def
    track_rx_def Let_def split: sock_read.splits sock_write.splits)

lemma stuck_cycle: "stuck (bridge_cycle tr e b) \<Longrightarrow> stuck b \<or> env_accept e = None"
  by (auto simp: bridge_cycle_def Let_def reaccept_def stuck_frame split: if_splits option.splits)

lemma bridge_loop_runs:
  assumes "\<And>n. env_accept (env n) \<noteq> None"
  shows "\<not> stuck (bridge_loop c env (bridge_start d))"
  by (rule bridge_loop_keeps) (use stuck_cycle assms in blast, simp add: bridge_start_def)

section \<open>The break\<close>

text \<open>A byte that waits in the receive register, or a core in \<open>S_WAIT\<close>, or a break, keeps the bridge off.\<close>

lemma inject_off:
  "uart_rx_valid (sim b) \<or> core_state e = 3 \<or> 0 < break_cycles b \<Longrightarrow> inject_rx tr e b = b"
  unfolding inject_rx_def by (rule if_not_P) auto

definition in_break :: "nat \<Rightarrow> bridge \<Rightarrow> bool" where
  "in_break k b \<longleftrightarrow> 20 \<le> break_cycles b + k \<and> min 15 k \<le> unat (brk_cnt (sim b))"

lemma brk_step_low: "unat (brk_step False n) = min 15 (unat n + 1)"
proof -
  have "unat n < 16" using unsigned_less [of n] by simp
  moreover have "n \<noteq> 15 \<Longrightarrow> unat n \<noteq> 15" by (auto simp: word_unat_eq_iff)
  ultimately show ?thesis by (auto simp: brk_step_def unat_word_ariths min_def)
qed

lemma break_frame:
  "brk_cnt (sim (clock_up e b)) = brk_step (uart_rx (sim b)) (brk_cnt (sim b))"
  "sim (transmit tr e b) = sim b" "sim (track_rx tr b) = sim b" "sim (reaccept e b) = sim b"
  "break_cycles (clock_up e b) = break_cycles b" "break_cycles (transmit tr e b) = break_cycles b"
  "break_cycles (track_rx tr b) = break_cycles b"
  "break_cycles (reaccept e b) = break_cycles b \<or> break_cycles (reaccept e b) = 20"
  by (auto simp: clock_up_def dut_posedge_def transmit_def tcp_write_def track_rx_def reaccept_def Let_def
    split: option.splits sock_write.splits)

lemma in_break_cycle:
  assumes "in_break k b" "k < 19"
  shows "in_break (Suc k) (bridge_cycle tr e b)"
proof -
  have p: "1 < break_cycles b" using assms by (auto simp: in_break_def)
  then have d: "uart_rx (sim (drive_break b)) = False" "brk_cnt (sim (drive_break b)) = brk_cnt (sim b)"
      "break_cycles (drive_break b) = break_cycles b - 1" by (simp_all add: drive_break_def)
  then have i: "inject_rx tr e (drive_break b) = drive_break b" using p by (intro inject_off) simp
  have "brk_cnt (sim (bridge_cycle tr e b)) = brk_step False (brk_cnt (sim b))"
    by (simp add: bridge_cycle_def i Let_def break_frame d)
  then have "unat (brk_cnt (sim (bridge_cycle tr e b))) = min 15 (unat (brk_cnt (sim b)) + 1)"
    by (simp only: brk_step_low)
  moreover have "break_cycles (bridge_cycle tr e b) = break_cycles b - 1 \<or> break_cycles (bridge_cycle tr e b) = 20"
    using break_frame(8) [of e "(track_rx tr (transmit tr e (clock_up e (drive_break b))))
      \<lparr>cycle := cycle (track_rx tr (transmit tr e (clock_up e (drive_break b)))) + 1\<rparr>"]
    by (simp add: bridge_cycle_def i Let_def break_frame(5-7) d)
  ultimately show ?thesis using assms by (auto simp: in_break_def)
qed

lemma in_break_run:
  "in_break k b \<Longrightarrow> k + length es \<le> 19 \<Longrightarrow> in_break (k + length es) (fold (bridge_cycle tr) es b)"
proof (induction es arbitrary: k b)
  case (Cons e es)
  then have "in_break (Suc k) (bridge_cycle tr e b)" by (intro in_break_cycle) simp_all
  from Cons.IH [OF this] Cons.prems(2) show ?case by simp
qed simp

text \<open>A Ctrl-C from the debugger, when the bridge may read, starts the break in that cycle.\<close>

lemma ctrl_c_cycle:
  assumes "pending_rx b = - 1" "\<not> uart_rx_valid (sim b)" "core_state e \<noteq> 3" "break_cycles b = 0" "client_fd b"
    "env_read e = Data 3"
  shows "break_cycles (bridge_cycle tr e b) = 20"
proof -
  have "break_cycles (inject_rx tr e (drive_break b)) = 20"
    using assms by (simp add: drive_break_def inject_rx_def tcp_try_read_def)
  then show ?thesis
    using break_frame(8) by (auto simp: bridge_cycle_def Let_def break_frame(5-7) reaccept_def split: option.splits)
qed

section \<open>The firmware file\<close>

text \<open>The conversion of run_dbg_tb.sh: one 32-bit word, eight upper-case digits, on each line.\<close>

definition pad4 :: "u8 list \<Rightarrow> u8 list" where
  "pad4 d = d @ replicate ((4 - length d mod 4) mod 4) 0"

fun le_words :: "u8 list \<Rightarrow> u32 list" where
  "le_words (a # b # c # d # r) = vcat [(8, ucast d), (8, ucast c), (8, ucast b), (8, ucast a)] # le_words r"
| "le_words r = []"

definition hex_digit :: "nat \<Rightarrow> char" where
  "hex_digit n = ''0123456789ABCDEF'' ! n"

definition hex8 :: "u32 \<Rightarrow> string" where
  "hex8 w = map (\<lambda>i. hex_digit (unat w div 16 ^ i mod 16)) (rev [0..<8])"

definition hex_image :: "u8 list \<Rightarrow> string" where
  "hex_image data = concat (map (\<lambda>w. hex8 w @ [CHR 0x0A]) (le_words (pad4 data)))"

definition plain_hex :: "char \<Rightarrow> bool" where
  "plain_hex c \<longleftrightarrow> c \<noteq> CHR 0x0A \<and> c \<noteq> CHR 0x0D \<and> \<not> is_space c \<and> c \<noteq> CHR ''-'' \<and> c \<noteq> CHR ''+'' \<and>
     c \<noteq> CHR ''x'' \<and> c \<noteq> CHR ''X''"

lemma hex_digit_ok:
  assumes "n < 16"
  shows "digit_val (hex_digit n) = n \<and> plain_hex (hex_digit n)"
proof -
  have "list_all (\<lambda>n. digit_val (hex_digit n) = n \<and> plain_hex (hex_digit n)) [0..<16]" by code_simp
  then show ?thesis using assms by (simp add: list_all_iff)
qed

lemma digits_val_hex:
  "list_all (\<lambda>n. n < 16) ns \<Longrightarrow>
     digits_val 16 v (map hex_digit ns @ [CHR 0x0A]) = foldl (\<lambda>v n. v * 16 + n) v ns"
proof (induction ns arbitrary: v)
  case Nil
  have "digit_val (CHR 0x0A) = 99" by code_simp
  then show ?case by simp
qed (use hex_digit_ok in auto)

lemma horner: "foldl (\<lambda>v i. v * 16 + W div 16 ^ i mod 16) (W div 16 ^ n) (rev [0..<n]) = (W::nat)"
proof (induction n)
  case (Suc n)
  have "W div 16 ^ Suc n * 16 + W div 16 ^ n mod 16 = W div 16 ^ n"
    using div_mult2_eq [of W "16 ^ n" 16] by (simp add: mult.commute [of "16 ^ n"])
  then show ?case using Suc by simp
qed simp

lemma digits_hex8: "digits_val 16 0 (hex8 w @ [CHR 0x0A]) = unat w"
proof -
  have "unat w < 2 ^ LENGTH(32)" by (rule unsigned_less)
  then have "unat w div 16 ^ 8 = 0" by simp
  with horner [of "unat w" 8] have "foldl (\<lambda>v i. v * 16 + unat w div 16 ^ i mod 16) 0 (rev [0..<8]) = unat w" by simp
  moreover have "hex8 w = map hex_digit (map (\<lambda>i. unat w div 16 ^ i mod 16) (rev [0..<8]))"
    by (simp add: hex8_def)
  moreover have "list_all (\<lambda>n. n < 16) (map (\<lambda>i. unat w div 16 ^ i mod 16) (rev [0..<8]))"
    by (simp add: list_all_iff)
  ultimately show ?thesis by (simp only: digits_val_hex foldl_map)
qed

lemma hex8_chars: "list_all plain_hex (hex8 w)" "length (hex8 w) = 8"
  using hex_digit_ok by (simp_all add: hex8_def list_all_iff)

lemma fgets_line:
  "length l < n \<Longrightarrow> list_all plain_hex l \<Longrightarrow> fgets n (l @ CHR 0x0A # f) = (l @ [CHR 0x0A], f)"
proof (induction l arbitrary: n)
  case Nil
  then show ?case by (cases n) simp_all
next
  case (Cons c l)
  then show ?case by (cases n) (simp_all add: plain_hex_def)
qed

lemma list3_cases:
  obtains "xs = []" | a where "xs = [a]" | a b where "xs = [a, b]" | a b c r where "xs = a # b # c # r"
  by (metis list.exhaust)

lemma strtoull_hex8: "strtoull 16 (hex8 w @ [CHR 0x0A]) = ucast w"
proof -
  obtain a b c r where h: "hex8 w = a # b # c # r"
    using hex8_chars(2) [of w] by (cases "hex8 w" rule: list3_cases) simp_all
  have x: "plain_hex a" "plain_hex b" using hex8_chars(1) [of w] by (simp_all add: h)
  then have s: "sign_of (dropWhile is_space (hex8 w @ [CHR 0x0A])) = (False, hex8 w @ [CHR 0x0A])"
    by (simp add: h sign_of_def plain_hex_def)
  have r: "radix_of 16 (hex8 w @ [CHR 0x0A]) = (16, hex8 w @ [CHR 0x0A])"
    using x by (simp add: h radix_of_def plain_hex_def)
  have "unat w < 2 ^ LENGTH(32)" by (rule unsigned_less)
  then have "unat w < 2 ^ 64" by simp
  then show ?thesis by (simp add: strtoull_def s r digits_hex8)
qed

lemma hex_lines_image:
  "hex_lines (concat (map (\<lambda>w. hex8 w @ [CHR 0x0A]) ws)) (mem, k) =
     ((\<lambda>i. if k \<le> i \<and> i < k + length ws \<and> i < 1024 then ws ! (i - k) else mem i), k + length ws)"
proof (induction ws arbitrary: mem k)
  case Nil
  show ?case by (subst hex_lines.simps) (simp, rule ext, auto)
next
  case (Cons w ws)
  let ?f = "concat (map (\<lambda>w. hex8 w @ [CHR 0x0A]) ws)"
  have g: "fgets 63 (hex8 w @ CHR 0x0A # ?f) = (hex8 w @ [CHR 0x0A], ?f)"
    by (rule fgets_line) (simp_all add: hex8_chars)
  have "plain_hex (hd (hex8 w @ [CHR 0x0A]))" using hex8_chars [of w] by (cases "hex8 w") auto
  moreover have "(ucast (ucast w :: u64) :: u32) = w" by (rule bit_word_eqI) (auto simp: bit_simps)
  ultimately have l: "hex_line (mem, k) (hex8 w @ [CHR 0x0A]) = (if k < 1024 then mem(k := w) else mem, k + 1)"
    by (simp add: hex_line_def strtoull_hex8 plain_hex_def)
  show ?case
    by (subst hex_lines.simps) (auto simp: g l Cons.IH fun_eq_iff nth_Cons' simp del: fgets.simps)
qed

section \<open>Properties\<close>

text \<open>C32: The bytes the core has taken from its receive register, followed by the one that is in the
  register or about to be written back by a load, are always, in order, bytes that the bridge
  has read from the debugger, Ctrl-C bytes left out: none is repeated, invented or overtaken,
  whatever the socket, the processor and the connection do. If the core waits in S_WAIT after
  the strobe of each load of the register, as its state machine does when no debug halt cuts the
  load short, they are all of these bytes: none is lost or overwritten. A load takes what the
  register holds at its write-back in S_WAIT.\<close>

theorem gdb_bridge_delivers:
  "let b = bridge_loop c env (bridge_start d);
       received = core_in b @ (if loading b \<or> uart_rx_valid (sim b) then [uart_rx_data (sim b)] else []);
       sent = filter (\<lambda>x. x \<noteq> 3) (net_in b)
   in subseq received sent \<and> (loads_wait env \<longrightarrow> received = sent)"
proof -
  let ?b = "bridge_loop c env (bridge_start d)"
  have "subseq (received ?b) (wanted ?b)"
    using bridge_loop_keeps [of "\<lambda>b. settled b \<and> subseq (received b) (wanted b)", OF arriving_cycle]
    by (simp add: bytes_start)
  moreover have "received ?b = wanted ?b" if "loads_wait env"
    using bridge_loop_keeps [of "delivered env", OF delivered_cycle [OF that]] by (simp add: delivered_def bytes_start)
  ultimately show ?thesis by (simp add: Let_def received_def wanted_def)
qed

text \<open>C33: The bytes that reach the debugger are, in order, bytes the core has written, none twice;
  when the socket takes every byte and the debugger stays connected they are all of them.\<close>

lemma gdb_bridge_sends:
  "let b = bridge_loop c env (bridge_start d)
   in subseq (net_out b) (core_out b) \<and>
      ((\<forall>n. env_read (env n) \<noteq> Eof \<and> env_write (env n) = Wrote) \<longrightarrow> net_out b = core_out b)"
proof -
  have "subseq (net_out (bridge_start d)) (core_out (bridge_start d))" "sent (bridge_start d)"
    by (simp_all add: bridge_start_def sent_def)
  then show ?thesis
    using bridge_loop_keeps [of "\<lambda>b. subseq (net_out b) (core_out b)", OF subseq_cycle]
      bridge_loop_sent [of env "bridge_start d" c] by (auto simp: Let_def sent_def)
qed

definition sample_env :: "u64 \<Rightarrow> cycle_env" where
  "sample_env n =
     \<lparr>env_quit = False, env_finish = False, core_state = 2, core_rd = False,
      core_wr = (if n = 1 then Some 0x2B else None), env_read = Again, env_write = Wrote, env_accept = Some True\<rparr>"

definition sample_dut :: dut where
  "sample_dut = \<lparr>uart_rx_valid = False, uart_rx_data = 0, uart_tx_valid = False, uart_tx_data = 0, uart_rx = True, brk_cnt = 0\<rparr>"

lemma gdb_bridge_sends_witness:
  "let b = bridge_loop (default_config\<lparr>max_cycles := 3\<rparr>) sample_env (bridge_start sample_dut)
   in net_out b = core_out b \<and> core_out b = [0x2B]"
proof -
  have "core_out (bridge_loop (default_config\<lparr>max_cycles := 3\<rparr>) sample_env (bridge_start sample_dut)) = [0x2B]"
    by code_simp
  then show ?thesis
    using gdb_bridge_sends [of "default_config\<lparr>max_cycles := 3\<rparr>" sample_env sample_dut]
    by (simp add: Let_def sample_env_def)
qed

text \<open>The core loads the debugger's first byte; while it is in \<open>S_WAIT\<close> a second one is there to be read.\<close>

definition loading_env :: "u64 \<Rightarrow> cycle_env" where
  "loading_env n = (sample_env n)\<lparr>core_rd := (n = 22), core_state := (if n = 23 then 3 else 2),
     env_read := (if n = 20 then Data 0x2B else if n = 23 then Data 0x2D else Again)\<rparr>"

lemma gdb_bridge_delivers_witness:
  "let b = bridge_loop (default_config\<lparr>max_cycles := 24\<rparr>) loading_env (bridge_start sample_dut)
   in core_in b @ (if loading b \<or> uart_rx_valid (sim b) then [uart_rx_data (sim b)] else []) = [0x2B]"
proof -
  let ?b = "bridge_loop (default_config\<lparr>max_cycles := 24\<rparr>) loading_env (bridge_start sample_dut)"
  have "loads_wait loading_env" by (auto simp: loads_wait_def loading_env_def)
  moreover have "net_in ?b = [0x2B]" by code_simp
  ultimately show ?thesis
    using gdb_bridge_delivers [of "default_config\<lparr>max_cycles := 24\<rparr>" loading_env sample_dut] by (simp add: Let_def)
qed

text \<open>C34: A Ctrl-C read from the debugger holds the UART line low long enough: for the 15th to the
  19th cycle after it, whatever else happens, the break detector asks the core to halt; and so
  it does after the connection is made.\<close>

lemma ctrl_c_halts:
  assumes "15 \<le> length es" "length es \<le> 19" "pending_rx b = - 1" "\<not> uart_rx_valid (sim b)" "core_state e \<noteq> 3"
    "break_cycles b = 0" "client_fd b" "env_read e = Data 3"
  shows "uart_break (sim (fold (bridge_cycle tr) es (bridge_cycle tr e b))) \<and>
    uart_break (sim (fold (bridge_cycle tr) es (bridge_start d)))"
proof -
  have "in_break 0 (bridge_cycle tr e b)" using ctrl_c_cycle [OF assms(3-8)] by (simp add: in_break_def)
  moreover have "in_break 0 (bridge_start d)" by (simp add: in_break_def bridge_start_def)
  moreover have "uart_break (sim b)" if "in_break (length es) b" for b
  proof -
    have "15 \<le> unat (brk_cnt (sim b))" using that assms(1) by (simp add: in_break_def)
    moreover have "unat (brk_cnt (sim b)) < 2 ^ LENGTH(4)" by (rule unsigned_less)
    ultimately have "unat (brk_cnt (sim b)) = 15" by simp
    then show ?thesis by (simp add: uart_break_def word_unat_eq_iff)
  qed
  ultimately show ?thesis using in_break_run [of 0 _ es tr] assms(2) by simp
qed

lemma ctrl_c_halts_witness:
  "let b = (bridge_start sample_dut)\<lparr>break_cycles := 0\<rparr>; e = (sample_env 0)\<lparr>env_read := Data 3\<rparr>
   in uart_break (sim (fold (bridge_cycle True) (replicate 16 (sample_env 0)) (bridge_cycle True e b)))"
  using ctrl_c_halts [of "replicate 16 (sample_env 0)" "(bridge_start sample_dut)\<lparr>break_cycles := 0\<rparr>"
    "(sample_env 0)\<lparr>env_read := Data 3\<rparr>" True sample_dut]
  by (simp add: bridge_start_def reset_dut sample_env_def Let_def)

text \<open>C35: The firmware loader reads back what run_dbg_tb.sh writes: for every binary image, padded to
  words and printed as one little-endian word of eight hex digits a line, load_hex puts word i
  of the image into word i of the RAM for every i below 1024, leaves the other words alone,
  drops what does not fit, and counts all the words.\<close>

lemma load_hex_image:
  "let ws = le_words (pad4 data)
   in load_hex (hex_image data) mem = ((\<lambda>i. if i < length ws \<and> i < 1024 then ws ! i else mem i), length ws)"
  unfolding load_hex_def hex_image_def hex_lines_image Let_def by (simp cong: if_cong)

end
