(* ===== verification/Core_Pipeline.thy ===== *)
theory Core_Pipeline
  imports Core_Traps Single_Step
begin

text \<open>
  The core of rtl/attorv32.v cycle by cycle, built with NRV_SRA and otherwise in its default
  configuration (barrel shifter, two read ports, no M extension): the state machine, the fetch unit with its one-word cache and the second
  fetch of an unaligned 32-bit instruction, the register file and the write-back, on the RAM and ROM
  of rtl/attorv32_dbg.v, whose busy signals are always low. Words read from the I/O page are an input.
\<close>

datatype fsm = S_FETCH_INSTR | S_WAIT_INSTR | S_EXECUTE | S_WAIT

record core =
  fsm_state :: fsm
  pc_reg :: "14 word"
  instr_reg :: u32
  long_reg :: bool
  cached_addr :: "12 word"
  cached_data :: u32
  fetch_second_half :: bool
  skip_fetch :: bool
  rs1_reg :: u32
  rs2_reg :: u32
  registerFile :: "nat \<Rightarrow> u32"
  core_csrs :: csrs
  core_ram :: "u32 \<Rightarrow> u32"
  core_rom :: "u32 \<Rightarrow> u32"
  ram_rdata :: u32

section \<open>Addresses and data\<close>

definition isLoad :: "u32 \<Rightarrow> bool" where "isLoad instr \<longleftrightarrow> opcode5 instr = 0"
definition isStore :: "u32 \<Rightarrow> bool" where "isStore instr \<longleftrightarrow> opcode5 instr = 8"
definition isLUI :: "u32 \<Rightarrow> bool" where "isLUI instr \<longleftrightarrow> opcode5 instr = 13"
definition isAUIPC :: "u32 \<Rightarrow> bool" where "isAUIPC instr \<longleftrightarrow> opcode5 instr = 5"

definition Simm :: "u32 \<Rightarrow> u32" where
  "Simm instr = vcat [(21, rep 21 (bit instr 31)), (6, bits 30 25 instr), (5, bits 11 7 instr)]"

definition ls_addr :: "u32 \<Rightarrow> u32 \<Rightarrow> 14 word" where
  "ls_addr instr rs1 = ucast rs1 + ucast (if bit instr 5 then Simm instr else Iimm instr)"

definition word_addr :: "14 word \<Rightarrow> 12 word" where "word_addr a = ucast (drop_bit 2 a)"
definition aligned :: "14 word \<Rightarrow> 14 word" where "aligned a = push_bit 2 (drop_bit 2 a)"

definition core_mem_addr :: "core \<Rightarrow> 14 word" where
  "core_mem_addr c =
     (if fsm_state c = S_WAIT_INSTR \<or> fsm_state c = S_FETCH_INSTR
      then (if fetch_second_half c then aligned (pc_reg c + 4) else aligned (pc_reg c))
      else ls_addr (instr_reg c) (rs1_reg c))"

definition core_mem_rdata :: "pins \<Rightarrow> core \<Rightarrow> u32" where
  "core_mem_rdata p c =
     (let a = ucast (core_mem_addr c)
      in if page_sel a = 1 then core_rom c (ram_waddr a)
         else if page_sel a = 2 then io_rdata p
         else ram_rdata c)"

section \<open>Fetch\<close>

definition current_cache_hit :: "core \<Rightarrow> bool" where
  "current_cache_hit c \<longleftrightarrow> cached_addr c = word_addr (pc_reg c)"

definition cached_mem :: "pins \<Rightarrow> core \<Rightarrow> u32" where
  "cached_mem p c = (if current_cache_hit c then cached_data c else core_mem_rdata p c)"

definition current_unaligned_long :: "pins \<Rightarrow> core \<Rightarrow> bool" where
  "current_unaligned_long p c \<longleftrightarrow> bits 17 16 (cached_mem p c) = 3 \<and> bit (pc_reg c) 1"

definition core_decomp_input :: "pins \<Rightarrow> core \<Rightarrow> u32" where
  "core_decomp_input p c =
     (if bit (pc_reg c) 1 then vcat [(16, bits 15 0 (core_mem_rdata p c)), (16, bits 31 16 (cached_mem p c))]
      else cached_mem p c)"

section \<open>Write-back\<close>

definition access_width :: "u32 \<Rightarrow> width" where
  "access_width instr = (if bits 13 12 instr = 0 then Byte else if bits 13 12 instr = 1 then Half else Word)"

definition load_sign :: "u32 \<Rightarrow> u32 \<Rightarrow> u32 \<Rightarrow> bool" where
  "load_sign instr a d \<longleftrightarrow> \<not> bit instr 14 \<and>
     (if access_width instr = Byte then bit (LOAD_byte a d) 7 else bit (LOAD_halfword a d) 15)"

definition load_result :: "u32 \<Rightarrow> u32 \<Rightarrow> u32 \<Rightarrow> u32" where
  "load_result instr a d =
     (case access_width instr of
        Byte \<Rightarrow> vcat [(24, rep 24 (load_sign instr a d)), (8, LOAD_byte a d)]
      | Half \<Rightarrow> vcat [(16, rep 16 (load_sign instr a d)), (16, LOAD_halfword a d)]
      | Word \<Rightarrow> d)"

definition rdId :: "u32 \<Rightarrow> nat" where "rdId instr = unat (bits 11 7 instr)"

definition writeBackData :: "u32 \<Rightarrow> bool \<Rightarrow> u32 \<Rightarrow> u32 \<Rightarrow> 14 word \<Rightarrow> 14 word \<Rightarrow> csrs \<Rightarrow> u32 \<Rightarrow> u32" where
  "writeBackData instr long v1 v2 pc lsa s d =
     (if isSYSTEM instr then CSR_read instr s else 0) OR
     (if isLUI instr then Uimm instr else 0) OR
     (if isALUreg instr \<or> isALUimm instr then aluOut_base True instr v1 v2 else 0) OR
     (if isAUIPC instr then ucast (PCplusImm pc instr) else 0) OR
     (if isJALR instr \<or> isJAL instr then ucast (PCinc pc long) else 0) OR
     (if isLoad instr then load_result instr (ucast lsa) d else 0)"

definition write_reg :: "u32 \<Rightarrow> u32 \<Rightarrow> (nat \<Rightarrow> u32) \<Rightarrow> (nat \<Rightarrow> u32)" where
  "write_reg instr v r =
     (if \<not> (isBranch instr \<or> isStore instr) \<and> rdId instr \<noteq> 0 then r(rdId instr := v) else r)"

text \<open>The strobes towards the memory.\<close>

definition mem_rstrb :: "core \<Rightarrow> bool" where
  "mem_rstrb c \<longleftrightarrow> fsm_state c = S_EXECUTE \<and> isLoad (instr_reg c) \<or> fsm_state c = S_FETCH_INSTR"

definition mem_wmask :: "core \<Rightarrow> 4 word" where
  "mem_wmask c = (if fsm_state c = S_EXECUTE \<and> isStore (instr_reg c)
     then STORE_wmask (access_width (instr_reg c)) (ucast (core_mem_addr c)) else 0)"

section \<open>One clock cycle\<close>

definition core_pc_new :: "core \<Rightarrow> 14 word" where
  "core_pc_new c = PC_new (pc_reg c) (long_reg c) (instr_reg c) (rs1_reg c) (rs2_reg c) (csr_mepc (core_csrs c))"

definition next_cache_hit :: "core \<Rightarrow> bool" where
  "next_cache_hit c \<longleftrightarrow> cached_addr c = word_addr (core_pc_new c)"

definition next_unaligned_long :: "core \<Rightarrow> bool" where
  "next_unaligned_long c \<longleftrightarrow> bits 17 16 (cached_data c) = 3 \<and> bit (core_pc_new c) 1"

definition needToWait :: "u32 \<Rightarrow> bool" where "needToWait instr \<longleftrightarrow> isLoad instr \<or> isStore instr"

definition data_clk :: "pins \<Rightarrow> core \<Rightarrow> core" where
  "data_clk p c =
     (let ex = (fsm_state c = S_EXECUTE); a = ucast (core_mem_addr c); d = core_decomp_input p c;
          wb = writeBackData (instr_reg c) (long_reg c) (rs1_reg c) (rs2_reg c) (pc_reg c) (core_mem_addr c)
                 (core_csrs c) (core_mem_rdata p c)
      in c\<lparr>registerFile := (if ex \<or> fsm_state c = S_WAIT then write_reg (instr_reg c) wb (registerFile c) else registerFile c),
           rs1_reg := (if fsm_state c = S_WAIT_INSTR then registerFile c (rs1Id (decompressor d)) else rs1_reg c),
           rs2_reg := (if fsm_state c = S_WAIT_INSTR then registerFile c (rs2Id (decompressor d)) else rs2_reg c),
           core_csrs := csr_clk ex p (instr_reg c) (rs1_reg c) (pc_reg c) (core_pc_new c) (core_csrs c),
           core_ram := (if ex \<and> isStore (instr_reg c) \<and> page_sel a = 0
                        then (core_ram c)(ram_waddr a := ram_merge (core_ram c (ram_waddr a))
                               (mem_wdata a (rs2_reg c)) (STORE_wmask (access_width (instr_reg c)) a))
                        else core_ram c),
           ram_rdata := core_ram c (ram_waddr a)\<rparr>)"

definition fsm_clk :: "14 word \<Rightarrow> pins \<Rightarrow> core \<Rightarrow> core \<Rightarrow> core" where
  "fsm_clk mtvec p c c' =
     (case fsm_state c of
        S_WAIT_INSTR \<Rightarrow>
          (let miss = (\<not> current_cache_hit c \<or> fetch_second_half c); d = core_decomp_input p c
           in (if current_unaligned_long p c \<and> \<not> fetch_second_half c
               then c'\<lparr>fetch_second_half := True, fsm_state := S_FETCH_INSTR\<rparr>
               else c'\<lparr>fetch_second_half := False, fsm_state := S_EXECUTE\<rparr>)
              \<lparr>cached_addr := (if miss then word_addr (core_mem_addr c) else cached_addr c),
               cached_data := (if miss then core_mem_rdata p c else cached_data c),
               instr_reg := decompressor d, long_reg := long_instr d\<rparr>)
      | S_EXECUTE \<Rightarrow>
          (if wfi_stall True p (instr_reg c) then c'
           else if trap_entry True p (instr_reg c) (core_csrs c)
           then c'\<lparr>pc_reg := mtvec, skip_fetch := False,
                   fsm_state := (if needToWait (instr_reg c) \<and> interrupt_accepted True p (core_csrs c)
                                 then S_WAIT else S_FETCH_INSTR)\<rparr>
           else c'\<lparr>pc_reg := core_pc_new c,
                   skip_fetch := (next_cache_hit c \<and> \<not> next_unaligned_long c),
                   fetch_second_half := (next_cache_hit c \<and> next_unaligned_long c),
                   fsm_state := (if needToWait (instr_reg c) then S_WAIT
                                 else if next_cache_hit c \<and> \<not> next_unaligned_long c then S_WAIT_INSTR
                                 else S_FETCH_INSTR)\<rparr>)
      | S_WAIT \<Rightarrow> c'\<lparr>fsm_state := (if skip_fetch c then S_WAIT_INSTR else S_FETCH_INSTR)\<rparr>
      | S_FETCH_INSTR \<Rightarrow> c'\<lparr>fsm_state := S_WAIT_INSTR\<rparr>)"

definition core_clk :: "14 word \<Rightarrow> pins \<Rightarrow> core \<Rightarrow> core" where
  "core_clk mtvec p c = fsm_clk mtvec p c (data_clk p c)"

definition core_reset :: "core \<Rightarrow> core" where
  "core_reset c =
     c\<lparr>fsm_state := S_WAIT, pc_reg := 0, cached_addr := - 1, fetch_second_half := False, skip_fetch := False,
       core_csrs := (core_csrs c)\<lparr>csr_mstatus := False, csr_mcause := False, mcause_irq := False,
         mcause_ecall := False, mcause_nmi := False, dbg_halt_mask := False\<rparr>\<rparr>"

section \<open>The instruction set\<close>

text \<open>
  What one instruction does to the program counter, registers, CSRs and memory, with the requests
  that are pending when it executes and the word \<open>io\<close> on the bus where that is not memory: what the I/O
  page reads and, for a load from RAM at which an NMI or a debug halt is accepted, whatever the RAM
  still puts out, because the state machine does not wait for such a load.
\<close>

definition cut_load :: "pins \<Rightarrow> u32 \<Rightarrow> csrs \<Rightarrow> bool" where
  "cut_load p i s \<longleftrightarrow> isLoad i \<and> trap_entry True p i s \<and> \<not> interrupt_accepted True p s"

record arch =
  a_pc :: "14 word"
  a_regs :: "nat \<Rightarrow> u32"
  a_csrs :: csrs
  a_ram :: "u32 \<Rightarrow> u32"
  a_rom :: "u32 \<Rightarrow> u32"

definition arch_word :: "arch \<Rightarrow> 14 word \<Rightarrow> u32" where
  "arch_word s a = (let u = ucast a in if page_sel u = 1 then a_rom s (ram_waddr u) else a_ram s (ram_waddr u))"

definition arch_fetch :: "arch \<Rightarrow> u32" where
  "arch_fetch s =
     (if bit (a_pc s) 1 then vcat [(16, bits 15 0 (arch_word s (a_pc s + 4))), (16, bits 31 16 (arch_word s (a_pc s)))]
      else arch_word s (a_pc s))"

definition arch_step :: "14 word \<Rightarrow> pins \<Rightarrow> u32 \<Rightarrow> arch \<Rightarrow> arch" where
  "arch_step mtvec p io s =
     (let i = decompressor (arch_fetch s); long = long_instr (arch_fetch s);
          v1 = a_regs s (rs1Id i); v2 = a_regs s (rs2Id i); a = ls_addr i v1; u = ucast a;
          d = (if page_sel u = 2 \<or> cut_load p i (a_csrs s) \<and> page_sel u \<noteq> 1 then io else arch_word s a);
          pc' = PC_new (a_pc s) long i v1 v2 (csr_mepc (a_csrs s))
      in \<lparr>a_pc = (if trap_entry True p i (a_csrs s) then mtvec else pc'),
          a_regs = write_reg i (writeBackData i long v1 v2 (a_pc s) a (a_csrs s) d) (a_regs s),
          a_csrs = csr_clk True p i v1 (a_pc s) pc' (a_csrs s),
          a_ram = (if isStore i \<and> page_sel u = 0
                   then (a_ram s)(ram_waddr u := ram_merge (a_ram s (ram_waddr u)) (mem_wdata u v2) (STORE_wmask (access_width i) u))
                   else a_ram s),
          a_rom = a_rom s\<rparr>)"

definition arch_of :: "core \<Rightarrow> arch" where
  "arch_of c = \<lparr>a_pc = pc_reg c, a_regs = registerFile c, a_csrs = core_csrs c, a_ram = core_ram c, a_rom = core_rom c\<rparr>"

section \<open>Fetch\<close>

lemma csr_idle: "csr_clk False p i v a b s = s"
  by (simp add: csr_clk_def trap_entry_def interrupt_accepted_def env_trap_accepted_def nmi_accepted_def
    dbg_halt_accepted_def csr_wr_en_def Let_def)

lemma aligned_word: "push_bit 2 (ucast (word_addr a)) = aligned a" "word_addr (aligned a) = word_addr a"
  "aligned (aligned a) = aligned a"
  by (rule bit_word_eqI; auto simp: aligned_def word_addr_def bit_simps dest: bit_imp_le_length)+

lemma bit_aligned: "bit (aligned a) n \<longleftrightarrow> 2 \<le> n \<and> bit (a :: 14 word) n"
proof (cases "2 \<le> n")
  case True
  then obtain k where "n = 2 + k" using le_Suc_ex by blast
  then show ?thesis by (auto simp: aligned_def bit_push_bit_iff bit_drop_bit_eq dest: bit_imp_le_length)
next
  case False
  then show ?thesis by (auto simp: aligned_def bit_push_bit_iff)
qed

lemma aligned_page: "page_sel (ucast (aligned a)) = page_sel (ucast (a :: 14 word))"
  unfolding page_sel_def bits_def
  by (rule bit_word_eqI, simp add: bit_take_bit_iff bit_drop_bit_eq bit_unsigned_iff bit_aligned)

lemma aligned_waddr: "ram_waddr (ucast (aligned a)) = ram_waddr (ucast (a :: 14 word))"
  unfolding ram_waddr_def bits_def
  by (rule bit_word_eqI, simp add: bit_take_bit_iff bit_drop_bit_eq bit_unsigned_iff bit_aligned)

lemmas aligned_simps = aligned_word aligned_page aligned_waddr

lemma arch_word_aligned: "arch_word s (aligned a) = arch_word s a"
  by (simp add: arch_word_def aligned_simps Let_def)

lemma step_fetch:
  "fsm_state c = S_FETCH_INSTR \<Longrightarrow>
     core_clk m p c = c\<lparr>fsm_state := S_WAIT_INSTR, ram_rdata := core_ram c (ram_waddr (ucast (core_mem_addr c)))\<rparr>"
  by (simp add: core_clk_def fsm_clk_def data_clk_def csr_idle Let_def)

lemma step_decode:
  assumes "fsm_state c = S_WAIT_INSTR"
  shows "core_clk m p c =
    (let miss = (\<not> current_cache_hit c \<or> fetch_second_half c); d = core_decomp_input p c;
         again = (current_unaligned_long p c \<and> \<not> fetch_second_half c)
     in c\<lparr>rs1_reg := registerFile c (rs1Id (decompressor d)), rs2_reg := registerFile c (rs2Id (decompressor d)),
          ram_rdata := core_ram c (ram_waddr (ucast (core_mem_addr c))),
          fetch_second_half := again, fsm_state := (if again then S_FETCH_INSTR else S_EXECUTE),
          cached_addr := (if miss then word_addr (core_mem_addr c) else cached_addr c),
          cached_data := (if miss then core_mem_rdata p c else cached_data c),
          instr_reg := decompressor d, long_reg := long_instr d\<rparr>)"
  using assms by (simp add: core_clk_def fsm_clk_def data_clk_def csr_idle Let_def)

lemma fetched_word:
  assumes "fsm_state c = S_FETCH_INSTR" "page_sel (ucast (core_mem_addr c)) \<noteq> 2"
  shows "core_mem_rdata p (core_clk m p' c) = arch_word (arch_of c) (core_mem_addr c)"
proof -
  have "core_mem_addr (core_clk m p' c) = core_mem_addr c"
    using assms(1) by (simp add: step_fetch core_mem_addr_def)
  then show ?thesis
    using assms by (simp add: step_fetch core_mem_rdata_def arch_word_def arch_of_def Let_def)
qed

text \<open>The cache holds the word of its address; what a fetch may start from, and how long it takes.\<close>

definition cache_valid :: "core \<Rightarrow> bool" where
  "cache_valid c \<longleftrightarrow> cached_data c = arch_word (arch_of c) (push_bit 2 (ucast (cached_addr c)))"

definition at_fetch :: "core \<Rightarrow> bool" where
  "at_fetch c \<longleftrightarrow>
     (current_cache_hit c \<longrightarrow> cached_data c = arch_word (arch_of c) (pc_reg c)) \<and>
     (let split = (bits 17 16 (cached_data c) = 3 \<and> bit (pc_reg c) 1)
      in fsm_state c = S_FETCH_INSTR \<and> (fetch_second_half c \<longrightarrow> current_cache_hit c \<and> split) \<or>
         fsm_state c = S_WAIT_INSTR \<and> \<not> fetch_second_half c \<and> current_cache_hit c \<and> \<not> split)"

definition code_ok :: "arch \<Rightarrow> bool" where
  "code_ok s \<longleftrightarrow> page_sel (ucast (a_pc s)) \<noteq> 2 \<and>
     (bits 17 16 (arch_word s (a_pc s)) = 3 \<and> bit (a_pc s) 1 \<longrightarrow> page_sel (ucast (a_pc s + 4)) \<noteq> 2)"

definition split_word :: "core \<Rightarrow> bool" where
  "split_word c \<longleftrightarrow> bits 17 16 (arch_word (arch_of c) (pc_reg c)) = 3 \<and> bit (pc_reg c) 1"

definition fetch_cycles :: "core \<Rightarrow> nat" where
  "fetch_cycles c =
     (if fsm_state c = S_WAIT_INSTR then 1
      else if fetch_second_half c then 2
      else if split_word c then 4 else 2)"

definition executing :: "arch \<Rightarrow> core \<Rightarrow> bool" where
  "executing s c \<longleftrightarrow> fsm_state c = S_EXECUTE \<and> arch_of c = s \<and> \<not> fetch_second_half c \<and> cache_valid c \<and>
     (cached_addr c = word_addr (a_pc s) \<or> cached_addr c = word_addr (a_pc s + 4)) \<and>
     (\<exists>a \<in> {a_pc s, a_pc s + 4}. ram_rdata c = a_ram s (ram_waddr (ucast a))) \<and>
     instr_reg c = decompressor (arch_fetch s) \<and> long_reg c = long_instr (arch_fetch s) \<and>
     rs1_reg c = a_regs s (rs1Id (instr_reg c)) \<and> rs2_reg c = a_regs s (rs2Id (instr_reg c))"

lemma short_same:
  assumes "bits 17 16 w \<noteq> (3::u32)"
  shows "decompressor (vcat [(16, x), (16, bits 31 16 w)]) = decompressor (vcat [(16, y), (16, bits 31 16 w)])"
    and "\<not> long_instr (vcat [(16, x), (16, bits 31 16 w)])"
proof -
  let ?v = "\<lambda>x. vcat [(16, x), (16, bits 31 16 w)]"
  have "bits 1 0 (?v x) = bits 17 16 w" for x by (rule word32_eqI) (auto simp: vec_simps)
  then have n: "\<not> long_instr (?v x)" for x using assms by (simp add: long_instr_def)
  then show "\<not> long_instr (?v x)" .
  have "bits 15 0 (?v x) = bits 15 0 (?v y)" by (rule word32_eqI) (auto simp: vec_simps)
  then show "decompressor (?v x) = decompressor (?v y)" using n by (metis decompressor_low)
qed

text \<open>The last cycle of a fetch.\<close>

lemma decode_executes:
  assumes w: "fsm_state c = S_WAIT_INSTR" "\<not> current_unaligned_long p c \<or> fetch_second_half c"
    and d: "decompressor (core_decomp_input p c) = decompressor (arch_fetch (arch_of c))"
      "long_instr (core_decomp_input p c) = long_instr (arch_fetch (arch_of c))"
    and m: "\<not> current_cache_hit c \<or> fetch_second_half c \<Longrightarrow> core_mem_rdata p c = arch_word (arch_of c) (core_mem_addr c)"
    and h: "current_cache_hit c \<Longrightarrow> cached_data c = arch_word (arch_of c) (pc_reg c)"
  shows "executing (arch_of c) (core_clk m' p c)"
proof -
  have ca: "cached_addr (core_clk m' p c) = word_addr (pc_reg c) \<or> cached_addr (core_clk m' p c) = word_addr (pc_reg c + 4)"
    using w(1) by (auto simp: step_decode Let_def core_mem_addr_def aligned_simps current_cache_hit_def)
  have a: "arch_of (core_clk m' p c) = arch_of c"
    using w(1) by (simp add: step_decode arch_of_def Let_def)
  have al: "aligned (core_mem_addr c) = core_mem_addr c"
    using w(1) by (auto simp: core_mem_addr_def aligned_def intro!: bit_word_eqI simp: bit_simps)
  have "cache_valid (core_clk m' p c)"
  proof (cases "\<not> current_cache_hit c \<or> fetch_second_half c")
    case True
    then show ?thesis
      using w(1) m al unfolding cache_valid_def a by (simp add: step_decode Let_def aligned_simps)
  next
    case False
    then show ?thesis
      using w(1) h unfolding cache_valid_def a
      by (simp add: step_decode Let_def current_cache_hit_def aligned_simps arch_word_aligned)
  qed
  moreover have "\<exists>a \<in> {pc_reg c, pc_reg c + 4}. ram_rdata (core_clk m' p c) = core_ram c (ram_waddr (ucast a))"
    using w(1) by (auto simp: step_decode Let_def core_mem_addr_def aligned_simps)
  ultimately show ?thesis
    using w d a ca by (auto simp: executing_def step_decode Let_def arch_of_def)
qed

lemma decode_short:
  assumes "fsm_state c = S_WAIT_INSTR" "\<not> fetch_second_half c" "\<not> split_word c"
    and m: "\<not> current_cache_hit c \<Longrightarrow> core_mem_rdata p c = arch_word (arch_of c) (pc_reg c)"
    and h: "current_cache_hit c \<Longrightarrow> cached_data c = arch_word (arch_of c) (pc_reg c)"
  shows "executing (arch_of c) (core_clk m p c)"
proof -
  have w: "cached_mem p c = arch_word (arch_of c) (pc_reg c)" using m h by (simp add: cached_mem_def)
  have a: "core_mem_addr c = aligned (pc_reg c)" using assms(1,2) by (simp add: core_mem_addr_def)
  have pc: "a_pc (arch_of c) = pc_reg c" by (simp add: arch_of_def)
  have d: "decompressor (core_decomp_input p c) = decompressor (arch_fetch (arch_of c)) \<and>
    long_instr (core_decomp_input p c) = long_instr (arch_fetch (arch_of c))"
  proof (cases "bit (pc_reg c) 1")
    case True
    then have "bits 17 16 (arch_word (arch_of c) (pc_reg c)) \<noteq> 3" using assms(3) by (simp add: split_word_def)
    from short_same [OF this] True show ?thesis unfolding core_decomp_input_def arch_fetch_def w pc by simp
  qed (simp add: core_decomp_input_def arch_fetch_def w pc)
  show ?thesis
  proof (rule decode_executes [OF assms(1)])
    show "\<not> current_unaligned_long p c \<or> fetch_second_half c"
      using assms(3) by (simp add: current_unaligned_long_def w split_word_def)
  qed (use d m h a in \<open>auto simp: assms(2) arch_word_aligned\<close>)
qed

lemma fetch_rest:
  assumes "fsm_state c = S_FETCH_INSTR" "fetch_second_half c" "current_cache_hit c" "split_word c"
    and h: "cached_data c = arch_word (arch_of c) (pc_reg c)"
    and ok: "page_sel (ucast (pc_reg c + 4)) \<noteq> 2"
  shows "executing (arch_of c) (core_clk m p' (core_clk m p c))"
proof -
  let ?d = "core_clk m p c"
  have a: "core_mem_addr c = aligned (pc_reg c + 4)" using assms(1,2) by (simp add: core_mem_addr_def)
  have s: "arch_of ?d = arch_of c" "fsm_state ?d = S_WAIT_INSTR" "fetch_second_half ?d" "current_cache_hit ?d"
    "cached_data ?d = cached_data c" "pc_reg ?d = pc_reg c" "core_mem_addr ?d = core_mem_addr c"
    using assms(1-3) by (simp_all add: step_fetch arch_of_def current_cache_hit_def core_mem_addr_def)
  have r: "core_mem_rdata p' ?d = arch_word (arch_of c) (pc_reg c + 4)"
    using fetched_word [OF assms(1), of p' m p] ok by (simp add: a aligned_simps arch_word_aligned)
  have "core_decomp_input p' ?d = arch_fetch (arch_of c)"
    using assms(4) h s r by (simp add: core_decomp_input_def cached_mem_def arch_fetch_def arch_of_def split_word_def)
  then show ?thesis
    using decode_executes [of ?d p' m] s r a h by (simp add: arch_word_aligned)
qed

lemma fetch_first:
  fixes m :: "14 word" and p :: pins
  assumes "fsm_state c = S_FETCH_INSTR" "\<not> fetch_second_half c"
    and ok: "page_sel (ucast (pc_reg c)) \<noteq> 2"
    and h: "current_cache_hit c \<Longrightarrow> cached_data c = arch_word (arch_of c) (pc_reg c)"
  defines "d \<equiv> core_clk m p c"
  shows "arch_of d = arch_of c" "fsm_state d = S_WAIT_INSTR" "\<not> fetch_second_half d"
    "pc_reg d = pc_reg c" "core_mem_rdata p' d = arch_word (arch_of c) (pc_reg c)"
    "current_cache_hit d \<Longrightarrow> cached_data d = arch_word (arch_of c) (pc_reg c)"
    "core_mem_addr d = aligned (pc_reg c)"
proof -
  have a: "core_mem_addr c = aligned (pc_reg c)" using assms(1,2) by (simp add: core_mem_addr_def)
  show "arch_of d = arch_of c" "fsm_state d = S_WAIT_INSTR" "\<not> fetch_second_half d" "pc_reg d = pc_reg c"
    "core_mem_addr d = aligned (pc_reg c)"
    unfolding d_def using assms(1,2) by (simp_all add: step_fetch arch_of_def core_mem_addr_def)
  show "core_mem_rdata p' d = arch_word (arch_of c) (pc_reg c)"
    unfolding d_def using fetched_word [OF assms(1), of p' m p] ok by (simp add: a aligned_simps arch_word_aligned)
  show "cached_data d = arch_word (arch_of c) (pc_reg c)" if "current_cache_hit d"
    using that h assms(1) by (simp add: d_def step_fetch current_cache_hit_def)
qed

lemma fetch_split:
  assumes "fsm_state c = S_WAIT_INSTR" "\<not> fetch_second_half c" "split_word c"
    and m: "core_mem_rdata p c = arch_word (arch_of c) (pc_reg c)"
    and h: "current_cache_hit c \<Longrightarrow> cached_data c = arch_word (arch_of c) (pc_reg c)"
    and ok: "page_sel (ucast (pc_reg c + 4)) \<noteq> 2"
  shows "executing (arch_of c) (core_clk m p2 (core_clk m p1 (core_clk m' p c)))"
proof -
  let ?d = "core_clk m' p c"
  have a: "core_mem_addr c = aligned (pc_reg c)" using assms(1,2) by (simp add: core_mem_addr_def)
  have w: "cached_mem p c = arch_word (arch_of c) (pc_reg c)" using m h by (simp add: cached_mem_def)
  then have u: "current_unaligned_long p c" using assms(3) by (simp add: current_unaligned_long_def split_word_def)
  have s: "arch_of ?d = arch_of c" "pc_reg ?d = pc_reg c" "fsm_state ?d = S_FETCH_INSTR" "fetch_second_half ?d"
    using assms(1,2) u by (simp_all add: step_decode Let_def arch_of_def)
  have "current_cache_hit ?d" "cached_data ?d = arch_word (arch_of c) (pc_reg c)"
    using assms(1,2) u m h a by (auto simp: step_decode Let_def current_cache_hit_def aligned_simps)
  moreover have "split_word ?d" using assms(3) s by (simp add: split_word_def)
  ultimately show ?thesis using fetch_rest [of ?d m p2 p1] s ok by simp
qed

lemma fetch_executes:
  assumes "at_fetch c" "code_ok (arch_of c)" "length ps = fetch_cycles c"
  shows "executing (arch_of c) (fold (core_clk m) ps c)"
proof -
  have h: "current_cache_hit c \<Longrightarrow> cached_data c = arch_word (arch_of c) (pc_reg c)"
    using assms(1) by (simp add: at_fetch_def)
  have ok: "page_sel (ucast (pc_reg c)) \<noteq> 2" and ok2: "split_word c \<Longrightarrow> page_sel (ucast (pc_reg c + 4)) \<noteq> 2"
    using assms(2) by (simp_all add: code_ok_def split_word_def arch_of_def)
  consider (A) "fsm_state c = S_WAIT_INSTR" "\<not> fetch_second_half c" "\<not> split_word c" "current_cache_hit c"
    | (B) "fsm_state c = S_FETCH_INSTR" "fetch_second_half c" "current_cache_hit c" "split_word c"
    | (C) "fsm_state c = S_FETCH_INSTR" "\<not> fetch_second_half c"
    using assms(1) h by (cases "fetch_second_half c"; auto simp: at_fetch_def split_word_def Let_def)
  then show ?thesis
  proof cases
    case A
    then obtain p where "ps = [p]" using assms(3) by (auto simp: fetch_cycles_def length_Suc_conv)
    with A h show ?thesis using decode_short [of c p m] by simp
  next
    case B
    then obtain p p' where "ps = [p, p']" using assms(3) by (auto simp: fetch_cycles_def length_Suc_conv numeral_2_eq_2)
    with B h ok2 show ?thesis by (simp add: fetch_rest)
  next
    case C
    note f = fetch_first [OF C ok h]
    show ?thesis
    proof (cases "split_word c")
      case False
      then obtain p p' where ps: "ps = [p, p']" using assms(3) C by (auto simp: fetch_cycles_def length_Suc_conv numeral_2_eq_2)
      have "executing (arch_of (core_clk m p c)) (core_clk m p' (core_clk m p c))"
        using False f by (intro decode_short) (simp_all add: split_word_def)
      with ps f show ?thesis by simp
    next
      case True
      then obtain p p' q q' where ps: "ps = [p, p', q, q']"
        using assms(3) C by (auto simp: fetch_cycles_def length_Suc_conv eval_nat_numeral)
      have "executing (arch_of (core_clk m p c)) (core_clk m q' (core_clk m q (core_clk m p' (core_clk m p c))))"
        using True f ok2 by (intro fetch_split) (simp_all add: split_word_def)
      with ps f show ?thesis by simp
    qed
  qed
qed

text \<open>Until then no instruction executes.\<close>

lemma fetch_path:
  assumes "at_fetch c" "code_ok (arch_of c)" "length ps < fetch_cycles c"
  shows "fsm_state (fold (core_clk m) ps c) \<in> {S_FETCH_INSTR, S_WAIT_INSTR} \<and> pc_reg (fold (core_clk m) ps c) = pc_reg c"
proof -
  have st: "fsm_state c \<in> {S_FETCH_INSTR, S_WAIT_INSTR}" using assms(1) by (auto simp: at_fetch_def Let_def)
  show ?thesis
  proof (cases ps)
    case (Cons p qs)
    have f: "fsm_state c = S_FETCH_INSTR" and le: "length qs < 3" using assms(3) st Cons by (auto simp: fetch_cycles_def split: if_splits)
    have one: "fsm_state (core_clk m p c) = S_WAIT_INSTR" "pc_reg (core_clk m p c) = pc_reg c"
      by (simp_all add: step_fetch [OF f])
    show ?thesis
    proof (cases qs)
      case (Cons q rs)
      have nf: "\<not> fetch_second_half c" and sp: "split_word c"
        using assms(3) f \<open>ps = p # qs\<close> Cons by (auto simp: fetch_cycles_def split: if_splits)
      have ok: "page_sel (ucast (pc_reg c)) \<noteq> 2" using assms(2) by (simp add: code_ok_def arch_of_def)
      have h: "current_cache_hit c \<Longrightarrow> cached_data c = arch_word (arch_of c) (pc_reg c)"
        using assms(1) by (simp add: at_fetch_def)
      note d = fetch_first [OF f nf ok h, where m = m and p = p]
      have "cached_mem q (core_clk m p c) = arch_word (arch_of c) (pc_reg c)"
        using d(5,6) by (simp add: cached_mem_def)
      then have u: "current_unaligned_long q (core_clk m p c)"
        using sp one by (simp add: current_unaligned_long_def split_word_def)
      have two: "fsm_state (core_clk m q (core_clk m p c)) = S_FETCH_INSTR" "pc_reg (core_clk m q (core_clk m p c)) = pc_reg c"
        using u d(3) by (simp_all add: step_decode [OF one(1)] Let_def one)
      show ?thesis
      proof (cases rs)
        case Nil
        then show ?thesis using two \<open>ps = p # qs\<close> Cons by simp
      next
        case (Cons r ts)
        then have "ts = []" using le \<open>qs = q # rs\<close> by simp
        then show ?thesis using two Cons \<open>ps = p # qs\<close> \<open>qs = q # rs\<close> by (simp add: step_fetch)
      qed
    qed (simp add: Cons one)
  qed (use st in simp)
qed

section \<open>Execution\<close>

definition arch_instr :: "arch \<Rightarrow> u32" where "arch_instr s = decompressor (arch_fetch s)"
definition arch_rs1 :: "arch \<Rightarrow> u32" where "arch_rs1 s = a_regs s (rs1Id (arch_instr s))"
definition arch_addr :: "arch \<Rightarrow> 14 word" where "arch_addr s = ls_addr (arch_instr s) (arch_rs1 s)"

definition waits :: "pins \<Rightarrow> arch \<Rightarrow> bool" where
  "waits p s \<longleftrightarrow> needToWait (arch_instr s) \<and>
     (trap_entry True p (arch_instr s) (a_csrs s) \<longrightarrow> interrupt_accepted True p (a_csrs s))"

definition step_ok :: "pins \<Rightarrow> arch \<Rightarrow> bool" where
  "step_ok p s \<longleftrightarrow> code_ok s \<and> \<not> wfi_stall True p (arch_instr s) \<and>
     (isLoad (arch_instr s) \<longrightarrow> waits p s) \<and>
     (isStore (arch_instr s) \<and> page_sel (ucast (arch_addr s)) = 0 \<longrightarrow>
        page_sel (ucast (a_pc s)) = 1 \<and> page_sel (ucast (a_pc s + 4)) = 1 \<or>
        ram_waddr (ucast (arch_addr s)) \<noteq> ram_waddr (ucast (a_pc s)) \<and>
        ram_waddr (ucast (arch_addr s)) \<noteq> ram_waddr (ucast (a_pc s + 4)))"

lemma step_execute:
  assumes "executing s c" "\<not> wfi_stall True p (arch_instr s)"
  defines "t \<equiv> trap_entry True p (arch_instr s) (a_csrs s)"
    and "q \<equiv> core_pc_new c"
  shows "core_clk m p c =
    (data_clk p c)\<lparr>pc_reg := (if t then m else q),
      skip_fetch := (\<not> t \<and> next_cache_hit c \<and> \<not> next_unaligned_long c),
      fetch_second_half := (\<not> t \<and> next_cache_hit c \<and> next_unaligned_long c),
      fsm_state := (if waits p s then S_WAIT
                    else if \<not> t \<and> next_cache_hit c \<and> \<not> next_unaligned_long c then S_WAIT_INSTR
                    else S_FETCH_INSTR)\<rparr>"
proof -
  have "fsm_state c = S_EXECUTE" "instr_reg c = arch_instr s" "core_csrs c = a_csrs s" "\<not> fetch_second_half c"
    using assms(1) by (auto simp: executing_def arch_instr_def arch_of_def)
  then show ?thesis using assms(2)
    by (auto simp: core_clk_def fsm_clk_def t_def q_def waits_def interrupt_accepted_def trap_entry_def data_clk_def Let_def)
qed

text \<open>The state after the cycles of the execution, but for the state machine.\<close>

lemma executing_values:
  assumes "executing s c"
  shows "fsm_state c = S_EXECUTE" "instr_reg c = arch_instr s" "long_reg c = long_instr (arch_fetch s)"
    "rs1_reg c = arch_rs1 s" "rs2_reg c = a_regs s (rs2Id (arch_instr s))" "core_csrs c = a_csrs s"
    "pc_reg c = a_pc s" "registerFile c = a_regs s" "core_ram c = a_ram s" "core_rom c = a_rom s"
    "core_mem_addr c = arch_addr s" "\<not> fetch_second_half c"
  using assms by (auto simp: executing_def arch_instr_def arch_rs1_def arch_addr_def arch_of_def core_mem_addr_def)

lemma ram_other:
  assumes "page_sel (ucast a) = 1 \<or> ram_waddr (ucast a) \<noteq> w"
  shows "arch_word (s\<lparr>a_ram := (a_ram s)(w := v)\<rparr>) a = arch_word s a"
  using assms by (auto simp: arch_word_def Let_def)

lemma arch_step_word:
  assumes "step_ok p s" "a = a_pc s \<or> a = a_pc s + 4"
  shows "arch_word (arch_step m p io s) a = arch_word s a"
  using assms
  by (auto simp: arch_step_def step_ok_def arch_word_def Let_def arch_addr_def arch_rs1_def arch_instr_def)

lemma cache_word:
  assumes "executing s c" "cached_addr c = word_addr a"
  shows "cached_data c = arch_word s a"
  using assms by (simp add: executing_def cache_valid_def aligned_simps arch_word_aligned)

lemma page_word: "word_addr a = word_addr b \<Longrightarrow> arch_word s a = arch_word s b"
  using arch_word_aligned aligned_word(1) by metis

lemma cache_step:
  assumes "executing s c" "step_ok p s" "cached_addr c = word_addr a"
  shows "cached_data c = arch_word (arch_step m p io s) a"
proof -
  obtain b where b: "b = a_pc s \<or> b = a_pc s + 4" "cached_addr c = word_addr b"
    using assms(1) by (auto simp: executing_def)
  then have "cached_data c = arch_word (arch_step m p io s) b"
    using cache_word [OF assms(1) b(2)] arch_step_word [OF assms(2) b(1)] by simp
  then show ?thesis using page_word b(2) assms(3) by metis
qed

definition arch_pc_new :: "arch \<Rightarrow> 14 word" where
  "arch_pc_new s = PC_new (a_pc s) (long_instr (arch_fetch s)) (arch_instr s) (arch_rs1 s)
     (a_regs s (rs2Id (arch_instr s))) (csr_mepc (a_csrs s))"

lemma pc_new_values: "executing s c \<Longrightarrow> core_pc_new c = arch_pc_new s"
  by (simp add: core_pc_new_def arch_pc_new_def executing_values)

lemma arch_step_pc: "a_pc (arch_step m p io s) =
  (if trap_entry True p (arch_instr s) (a_csrs s) then m else arch_pc_new s)"
  by (simp add: arch_step_def arch_pc_new_def arch_instr_def arch_rs1_def Let_def)

definition arch_data :: "pins \<Rightarrow> u32 \<Rightarrow> arch \<Rightarrow> u32" where
  "arch_data p io s =
     (let u = ucast (arch_addr s)
      in if page_sel u = 2 \<or> cut_load p (arch_instr s) (a_csrs s) \<and> page_sel u \<noteq> 1 then io else arch_word s (arch_addr s))"

definition arch_wb :: "arch \<Rightarrow> u32 \<Rightarrow> u32" where
  "arch_wb s = writeBackData (arch_instr s) (long_instr (arch_fetch s)) (arch_rs1 s) (a_regs s (rs2Id (arch_instr s)))
     (a_pc s) (arch_addr s) (a_csrs s)"

lemma arch_step_fields: "arch_step m p io s =
  \<lparr>a_pc = (if trap_entry True p (arch_instr s) (a_csrs s) then m else arch_pc_new s),
   a_regs = write_reg (arch_instr s) (arch_wb s (arch_data p io s)) (a_regs s),
   a_csrs = csr_clk True p (arch_instr s) (arch_rs1 s) (a_pc s) (arch_pc_new s) (a_csrs s),
   a_ram = (let u = ucast (arch_addr s) in if isStore (arch_instr s) \<and> page_sel u = 0
            then (a_ram s)(ram_waddr u := ram_merge (a_ram s (ram_waddr u))
                   (mem_wdata u (a_regs s (rs2Id (arch_instr s)))) (STORE_wmask (access_width (arch_instr s)) u))
            else a_ram s),
   a_rom = a_rom s\<rparr>"
  by (simp add: arch_step_def arch_pc_new_def arch_instr_def arch_rs1_def arch_addr_def arch_wb_def arch_data_def Let_def)

lemma no_load_word: "\<not> isLoad i \<Longrightarrow> writeBackData i long v1 v2 pc a s d = writeBackData i long v1 v2 pc a s d'"
  by (simp add: writeBackData_def)

lemma load_only: "isLoad i \<Longrightarrow> writeBackData i long v1 v2 pc a s d = load_result i (ucast a) d"
  by (simp add: writeBackData_def isLoad_def isSYSTEM_def isLUI_def isALUreg_def isALUimm_def isAUIPC_def isJALR_def isJAL_def)

lemma refetch:
  assumes x: "executing s c" "step_ok p s"
    and d: "arch_of d = arch_step m p io s" "cached_addr d = cached_addr c" "cached_data d = cached_data c"
    and f: "fetch_second_half d = (\<not> trap_entry True p (arch_instr s) (a_csrs s) \<and> next_cache_hit c \<and> next_unaligned_long c)"
      "fsm_state d = (if \<not> trap_entry True p (arch_instr s) (a_csrs s) \<and> next_cache_hit c \<and> \<not> next_unaligned_long c
                      then S_WAIT_INSTR else S_FETCH_INSTR)"
  shows "at_fetch d"
proof -
  have pc: "pc_reg d = a_pc (arch_step m p io s)" using arg_cong [OF d(1), of a_pc] by (simp add: arch_of_def)
  have hit: "cached_data d = arch_word (arch_of d) (pc_reg d)" if "current_cache_hit d"
    using that cache_step [OF x, of "pc_reg d" m io] d by (simp add: current_cache_hit_def)
  show ?thesis
    using f d(2,3) hit unfolding at_fetch_def pc arch_step_pc
    by (auto simp: Let_def next_cache_hit_def next_unaligned_long_def current_cache_hit_def pc arch_step_pc pc_new_values [OF x(1)])
qed

lemma execute_one:
  assumes x: "executing s c" "step_ok p s" "\<not> waits p s"
  shows "arch_of (core_clk m p c) = arch_step m p io s" "at_fetch (core_clk m p c)"
proof -
  have w: "\<not> wfi_stall True p (arch_instr s)" and l: "\<not> isLoad (arch_instr s)" using x by (auto simp: step_ok_def)
  note v = executing_values [OF x(1)] pc_new_values [OF x(1)]
  have wb: "arch_wb s (core_mem_rdata p c) = arch_wb s (arch_data p io s)"
    unfolding arch_wb_def by (rule no_load_word [OF l])
  show a: "arch_of (core_clk m p c) = arch_step m p io s"
    unfolding arch_step_fields wb [symmetric]
    by (simp add: step_execute [OF x(1) w] arch_of_def data_clk_def Let_def v arch_wb_def)
  show "at_fetch (core_clk m p c)"
    by (rule refetch [OF x(1,2) a]) (simp_all add: step_execute [OF x(1) w] data_clk_def Let_def x(3))
qed

text \<open>A load that is cut short: the register gets the word on the bus.\<close>

lemma execute_cut:
  assumes x: "executing s c" and cut: "cut_load p (arch_instr s) (a_csrs s)"
  shows "arch_of (core_clk m p c) = arch_step m p (core_mem_rdata p c) s" "fsm_state (core_clk m p c) = S_FETCH_INSTR"
proof -
  have w: "\<not> wfi_stall True p (arch_instr s)" "\<not> waits p s"
    using cut by (auto simp: cut_load_def wfi_stall_def is_wfi_def isSYSTEM_def isLoad_def waits_def)
  note v = executing_values [OF x] pc_new_values [OF x]
  have "arch_data p (core_mem_rdata p c) s = core_mem_rdata p c"
    using cut by (auto simp: arch_data_def core_mem_rdata_def v arch_word_def Let_def)
  then show "arch_of (core_clk m p c) = arch_step m p (core_mem_rdata p c) s"
    unfolding arch_step_fields by (simp add: step_execute [OF x w(1)] arch_of_def data_clk_def Let_def v arch_wb_def)
  show "fsm_state (core_clk m p c) = S_FETCH_INSTR"
    using cut by (simp add: step_execute [OF x w(1)] w(2) cut_load_def)
qed

lemma step_wait:
  assumes "fsm_state c = S_WAIT"
  shows "core_clk m p c = c\<lparr>fsm_state := (if skip_fetch c then S_WAIT_INSTR else S_FETCH_INSTR),
    registerFile := write_reg (instr_reg c) (writeBackData (instr_reg c) (long_reg c) (rs1_reg c) (rs2_reg c) (pc_reg c)
       (core_mem_addr c) (core_csrs c) (core_mem_rdata p c)) (registerFile c),
    ram_rdata := core_ram c (ram_waddr (ucast (core_mem_addr c)))\<rparr>"
  using assms by (simp add: core_clk_def fsm_clk_def data_clk_def csr_idle Let_def)

lemma write_reg_twice: "write_reg i v (write_reg i v' r) = write_reg i v r"
  by (simp add: write_reg_def)

lemma store_keeps: "isStore i \<Longrightarrow> write_reg i v r = r"
  by (simp add: write_reg_def)

lemma execute_two:
  fixes m :: "14 word"
  assumes x: "executing s c" "step_ok p s" "waits p s"
  defines "d \<equiv> core_clk m p c"
  shows "arch_of (core_clk m p' d) = arch_step m p (io_rdata p') s" "at_fetch (core_clk m p' d)"
proof -
  have w: "\<not> wfi_stall True p (arch_instr s)" using x by (auto simp: step_ok_def)
  note v = executing_values [OF x(1)] pc_new_values [OF x(1)]
  note st = step_execute [OF x(1) w]
  have dw: "fsm_state d = S_WAIT" and di: "instr_reg d = arch_instr s"
    unfolding d_def by (simp_all add: st data_clk_def Let_def v x(3))
  have da: "core_mem_addr d = arch_addr s"
    unfolding d_def by (simp add: st core_mem_addr_def x(3) data_clk_def Let_def v arch_addr_def)
  have dr: "core_mem_rdata p' d = arch_data p (io_rdata p') s" if "isLoad (arch_instr s)"
    using da that x(3) unfolding core_mem_rdata_def da
    by (auto simp: d_def st data_clk_def Let_def v arch_data_def arch_word_def cut_load_def waits_def)
  have wb: "write_reg (arch_instr s) (writeBackData (arch_instr s) (long_reg d) (rs1_reg d) (rs2_reg d) (pc_reg d)
       (core_mem_addr d) (core_csrs d) (core_mem_rdata p' d)) (registerFile d)
     = write_reg (arch_instr s) (arch_wb s (arch_data p (io_rdata p') s)) (a_regs s)"
  proof (cases "isLoad (arch_instr s)")
    case True
    then show ?thesis
      by (simp add: load_only da dr arch_wb_def) (simp add: d_def st data_clk_def Let_def v write_reg_twice)
  next
    case False
    then have "isStore (arch_instr s)" using x(3) by (simp add: waits_def needToWait_def)
    then show ?thesis by (simp add: store_keeps) (simp add: d_def st data_clk_def Let_def v store_keeps)
  qed
  show a: "arch_of (core_clk m p' d) = arch_step m p (io_rdata p') s"
    unfolding step_wait [OF dw] di arch_of_def arch_step_fields
    by (simp add: wb) (simp add: d_def st data_clk_def Let_def v)
  show "at_fetch (core_clk m p' d)"
    by (rule refetch [OF x(1,2) a]; simp add: step_wait [OF dw]; simp add: d_def st data_clk_def Let_def)
qed

section \<open>Programs\<close>

text \<open>One instruction with the pins held, and a program: the pins of each of its instructions.\<close>

definition instr_cycles :: "pins \<Rightarrow> core \<Rightarrow> nat" where
  "instr_cycles p c = fetch_cycles c + (if waits p (arch_of c) then 2 else 1)"

definition core_instr :: "14 word \<Rightarrow> pins \<Rightarrow> core \<Rightarrow> core" where
  "core_instr mtvec p c = fold (core_clk mtvec) (replicate (instr_cycles p c) p) c"

definition arch_run :: "14 word \<Rightarrow> pins list \<Rightarrow> arch \<Rightarrow> arch" where
  "arch_run mtvec ps s = fold (\<lambda>p. arch_step mtvec p (io_rdata p)) ps s"

fun run_ok :: "14 word \<Rightarrow> pins list \<Rightarrow> arch \<Rightarrow> bool" where
  "run_ok mtvec [] s = True"
| "run_ok mtvec (p # ps) s = (step_ok p s \<and> run_ok mtvec ps (arch_step mtvec p (io_rdata p) s))"

lemma core_step:
  assumes "at_fetch c" "step_ok p (arch_of c)" "length fs = fetch_cycles c"
    "length qs = (if waits p (arch_of c) then 1 else 0)"
  shows "at_fetch (fold (core_clk m) (fs @ p # qs) c)"
    "arch_of (fold (core_clk m) (fs @ p # qs) c) = arch_step m p (io_rdata (last (p # qs))) (arch_of c)"
proof -
  have "code_ok (arch_of c)" using assms(2) by (simp add: step_ok_def)
  note x = fetch_executes [OF assms(1) this assms(3), of m]
  have "at_fetch (fold (core_clk m) (fs @ p # qs) c) \<and>
    arch_of (fold (core_clk m) (fs @ p # qs) c) = arch_step m p (io_rdata (last (p # qs))) (arch_of c)"
  proof (cases "waits p (arch_of c)")
    case True
    then obtain p' where "qs = [p']" using assms(4) by (auto simp: length_Suc_conv)
    then show ?thesis using execute_two [OF x assms(2) True, of m p'] by simp
  next
    case False
    then have "qs = []" using assms(4) by simp
    then show ?thesis using execute_one [OF x assms(2) False] by simp
  qed
  then show "at_fetch (fold (core_clk m) (fs @ p # qs) c)"
    "arch_of (fold (core_clk m) (fs @ p # qs) c) = arch_step m p (io_rdata (last (p # qs))) (arch_of c)" by auto
qed

lemma core_instr_step:
  assumes "at_fetch c" "step_ok p (arch_of c)"
  shows "at_fetch (core_instr m p c)" "arch_of (core_instr m p c) = arch_step m p (io_rdata p) (arch_of c)"
proof -
  let ?qs = "replicate (if waits p (arch_of c) then 1 else 0) p"
  have r: "replicate (instr_cycles p c) p = replicate (fetch_cycles c) p @ p # ?qs"
    by (simp add: instr_cycles_def replicate_add [symmetric] flip: replicate_Suc)
  note st = core_step [OF assms, of "replicate (fetch_cycles c) p" ?qs m]
  show "at_fetch (core_instr m p c)" "arch_of (core_instr m p c) = arch_step m p (io_rdata p) (arch_of c)"
    unfolding core_instr_def r using st by (simp_all split: if_splits)
qed

text \<open>C9: The clocked core refines the instruction set: for any program, with the pins of each
  instruction held while it lasts, the state after the cycles of every instruction (fetch with
  the one-word cache and the second half of an unaligned instruction, execution, the wait of a
  load or store, traps) is the state that the one-step definition of the instructions gives.
  Required of each instruction: it is fetched from RAM or ROM, is not waiting in wfi, does not
  overwrite the words it is fetched from, and if a load, is not interrupted by an NMI or a debug
  halt.\<close>

theorem core_program:
  assumes "at_fetch c" "run_ok m ps (arch_of c)"
  shows "at_fetch (fold (core_instr m) ps c) \<and> arch_of (fold (core_instr m) ps c) = arch_run m ps (arch_of c)"
  using assms
proof (induction ps arbitrary: c)
  case (Cons p ps)
  then have "step_ok p (arch_of c)" by simp
  from core_instr_step [OF Cons.prems(1) this] Cons show ?case by (simp add: arch_run_def)
qed (simp add: arch_run_def)

lemma reset_fetches:
  fixes m :: "14 word" and p :: pins and c :: core
  defines "d \<equiv> core_clk m p (core_reset c)"
  shows "at_fetch d" "pc_reg d = 0" "fetch_cycles d \<le> 4"
    "core_csrs d = (core_csrs c)\<lparr>csr_mstatus := False, csr_mcause := False, mcause_irq := False,
         mcause_ecall := False, mcause_nmi := False, dbg_halt_mask := False\<rparr>" "core_ram d = core_ram c" "core_rom d = core_rom c"
  by (simp_all add: d_def step_wait core_reset_def at_fetch_def current_cache_hit_def word_addr_def fetch_cycles_def)

section \<open>A sample core\<close>

definition demo_pins :: "bool \<Rightarrow> bool \<Rightarrow> pins" where
  "demo_pins irq halt = \<lparr>interrupt_request = irq, nmi_request = False, dbg_halt_req = halt, io_rdata = 0\<rparr>"

definition demo_core :: "(u32 \<Rightarrow> u32) \<Rightarrow> bool \<Rightarrow> bool \<Rightarrow> 14 word \<Rightarrow> core" where
  "demo_core mem mie locked pc =
     \<lparr>fsm_state = S_FETCH_INSTR, pc_reg = pc, instr_reg = 0, long_reg = False, cached_addr = - 1, cached_data = 0,
      fetch_second_half = False, skip_fetch = False, rs1_reg = 0, rs2_reg = 0, registerFile = (\<lambda>_. 0),
      core_csrs = \<lparr>csr_mstatus = mie, csr_mepc = 0x30, csr_mcause = locked, mcause_irq = locked, mcause_ecall = False,
        mcause_nmi = False, dbg_halt_mask = False\<rparr>,
      core_ram = mem, core_rom = (\<lambda>_. 0), ram_rdata = 0\<rparr>"

definition code_words :: "(u32 \<times> u32) list \<Rightarrow> u32 \<Rightarrow> u32" where
  "code_words xs = (\<lambda>w. case map_of xs w of Some v \<Rightarrow> v | None \<Rightarrow> 0)"

definition demo_prog :: "u32 \<Rightarrow> u32" where
  "demo_prog = code_words [(0, 0x05934515), (1, 0x20230015), (2, 0x260304b0), (3, 0xa0010400)]"

lemma core_program_witness:
  "registerFile (fold (core_instr 0x1000) (replicate 4 (demo_pins False False)) (demo_core demo_prog True False 0)) 12 = 6"
proof -
  let ?c = "demo_core demo_prog True False 0" and ?ps = "replicate 4 (demo_pins False False)"
  have h: "at_fetch ?c" "run_ok 0x1000 ?ps (arch_of ?c)" "a_regs (arch_run 0x1000 ?ps (arch_of ?c)) 12 = 6"
    by code_simp+
  have "arch_of (fold (core_instr 0x1000) ?ps ?c) = arch_run 0x1000 ?ps (arch_of ?c)"
    using core_program [OF h(1,2)] by simp
  then have "a_regs (arch_of (fold (core_instr 0x1000) ?ps ?c)) 12 = 6" using h(3) by simp
  then show ?thesis by (simp add: arch_of_def)
qed

end
