(* ===== verification/Core_Handlers.thy ===== *)
theory Core_Handlers
  imports Core_Pipeline
begin

text \<open>
  Traps over whole runs of the core: what a trap saves, that a handler returns to the program it
  interrupted, and where the debug halt breaks this.
\<close>

section \<open>Taking a trap\<close>

definition no_requests :: "pins \<Rightarrow> pins" where
  "no_requests p = p\<lparr>interrupt_request := False, nmi_request := False, dbg_halt_req := False\<rparr>"

definition async_trap :: "pins \<Rightarrow> arch \<Rightarrow> bool" where
  "async_trap p s \<longleftrightarrow> interrupt_accepted True p (a_csrs s) \<or> nmi_accepted True p (a_csrs s) \<or>
     dbg_halt_accepted True p (a_csrs s)"

lemma trap_entry_async: "trap_entry True p (arch_instr s) (a_csrs s) \<longleftrightarrow>
  async_trap p s \<or> env_trap_accepted True (arch_instr s) (a_csrs s)"
  by (auto simp: trap_entry_def async_trap_def)

lemma async_entry: "async_trap p s \<Longrightarrow> trap_entry True p (arch_instr s) (a_csrs s)"
  by (simp add: trap_entry_async)

lemma no_requests_trap: "trap_entry True (no_requests p) (arch_instr s) (a_csrs s) \<longleftrightarrow>
  env_trap_accepted True (arch_instr s) (a_csrs s)"
  by (auto simp: trap_entry_def no_requests_def interrupt_accepted_def nmi_accepted_def dbg_halt_accepted_def)

lemma precise_step:
  assumes "async_trap p s" "\<not> env_trap_accepted True (arch_instr s) (a_csrs s)" "\<not> cut_load p (arch_instr s) (a_csrs s)"
  shows "let t = arch_step m p io s; u = arch_step m (no_requests p) io s
    in a_pc t = m \<and> a_regs t = a_regs u \<and> a_ram t = a_ram u \<and> a_rom t = a_rom u \<and>
       csr_mstatus (a_csrs t) = csr_mstatus (a_csrs u) \<and> csr_mepc (a_csrs t) = a_pc u \<and> csr_mcause (a_csrs t) \<and>
       mcause_read (a_csrs t) = (if nmi_accepted True p (a_csrs s) then 0x80000000
         else if interrupt_accepted True p (a_csrs s) then 0x8000000B else 3)"
proof -
  have n: "\<not> trap_entry True (no_requests p) (arch_instr s) (a_csrs s)" using assms(2) no_requests_trap by blast
  then have "arch_data (no_requests p) io s = arch_data p io s" using assms(3) by (auto simp: arch_data_def cut_load_def)
  then show ?thesis
    using n assms(1,2) async_entry [OF assms(1)]
    by (auto simp: arch_step_fields csr_clk_def mcause_read_def async_trap_def Let_def)
qed

text \<open>C10: Interrupts, NMIs and debug halts are precise on the clocked core: run one instruction with
  the requests and once more, from the same state, without them. Where a request is accepted,
  registers and memory are those of the run without requests, mepc is the address that run has
  reached, the core is at the trap vector about to fetch with the handler lock set, mstatus is
  as in the other run, and mcause tells an NMI, then an interrupt, then the rest. Excepted are
  environment calls, wfi, a load under an NMI or a debug halt without an accepted interrupt,
  whose data the core loses, and a store to the words the instruction is fetched from.\<close>

theorem precise_trap:
  assumes "at_fetch c" "s = arch_of c" "step_ok p s" "async_trap p s"
    and "\<not> env_trap_accepted True (arch_instr s) (a_csrs s)" "\<not> is_wfi (arch_instr s)"
  shows "let t = core_instr m p c; u = core_instr m (no_requests p) c
    in at_fetch t \<and> at_fetch u \<and> pc_reg t = m \<and> registerFile t = registerFile u \<and> core_ram t = core_ram u \<and>
       csr_mstatus (core_csrs t) = csr_mstatus (core_csrs u) \<and> csr_mepc (core_csrs t) = pc_reg u \<and> csr_mcause (core_csrs t) \<and>
       mcause_read (core_csrs t) = (if nmi_accepted True p (a_csrs s) then 0x80000000
         else if interrupt_accepted True p (a_csrs s) then 0x8000000B else 3)"
proof -
  have cut: "\<not> cut_load p (arch_instr s) (a_csrs s)" using assms(3) by (auto simp: step_ok_def cut_load_def waits_def)
  have "step_ok (no_requests p) s"
    using assms(3,5,6) no_requests_trap [of p s] by (auto simp: step_ok_def waits_def wfi_stall_def)
  note u = core_instr_step [OF assms(1) this [unfolded assms(2)], of m]
  note t = core_instr_step [OF assms(1) assms(3) [unfolded assms(2)], of m]
  have io: "io_rdata (no_requests p) = io_rdata p" by (simp add: no_requests_def)
  have f: "pc_reg d = a_pc (arch_of d)" "registerFile d = a_regs (arch_of d)" "core_ram d = a_ram (arch_of d)"
    "core_csrs d = a_csrs (arch_of d)" for d by (simp_all add: arch_of_def)
  show ?thesis
    using precise_step [OF assms(4,5) cut, of m "io_rdata p"] t(1) u(1)
    by (simp add: f t(2) u(2) io assms(2) Let_def)
qed

lemma precise_trap_witness:
  "let t = core_instr 0x10 (demo_pins True False) (demo_core (code_words [(0, 0x04002503), (16, 7)]) True False 0)
   in pc_reg t = 0x10 \<and> registerFile t 10 = 7 \<and> csr_mepc (core_csrs t) = 4 \<and> mcause_read (core_csrs t) = 0x8000000B"
proof -
  let ?c = "demo_core (code_words [(0, 0x04002503), (16, 7)]) True False 0" and ?p = "demo_pins True False"
  let ?s = "arch_of ?c" and ?u = "core_instr 0x10 (no_requests (demo_pins True False)) (demo_core (code_words [(0, 0x04002503), (16, 7)]) True False 0)"
  have h: "at_fetch ?c" "step_ok ?p ?s" "async_trap ?p ?s" "\<not> env_trap_accepted True (arch_instr ?s) (a_csrs ?s)"
    "\<not> is_wfi (arch_instr ?s)" "registerFile ?u 10 = 7" "pc_reg ?u = 4"
    "\<not> nmi_accepted True ?p (a_csrs ?s)" "interrupt_accepted True ?p (a_csrs ?s)"
    by code_simp+
  show ?thesis using precise_trap [OF h(1) refl h(2-5), of "0x10"] h(6-9) by (simp add: Let_def)
qed

section \<open>Inside a handler\<close>

definition changes_mepc :: "arch \<Rightarrow> bool" where
  "changes_mepc s \<longleftrightarrow> csr_wr_en True (arch_instr s) \<and> sel_csr 0x341 (arch_instr s) \<and>
     ucast (CSR_write (arch_instr s) (arch_rs1 s) (a_csrs s)) \<noteq> csr_mepc (a_csrs s)"

fun steps_all :: "(pins \<Rightarrow> arch \<Rightarrow> bool) \<Rightarrow> 14 word \<Rightarrow> pins list \<Rightarrow> arch \<Rightarrow> bool" where
  "steps_all P m [] s = True"
| "steps_all P m (p # ps) s = (P p s \<and> steps_all P m ps (arch_step m p (io_rdata p) s))"

definition handler_step :: "pins \<Rightarrow> arch \<Rightarrow> bool" where
  "handler_step p s \<longleftrightarrow> \<not> dbg_halt_accepted True p (a_csrs s) \<and> \<not> is_mret (arch_instr s) \<and> \<not> changes_mepc s"

definition quiet_step :: "pins \<Rightarrow> arch \<Rightarrow> bool" where
  "quiet_step p s \<longleftrightarrow> \<not> trap_entry True p (arch_instr s) (a_csrs s) \<and> \<not> is_mret (arch_instr s) \<and> \<not> changes_mepc s"

lemma steps_all_keep:
  assumes "\<And>p io s. P p s \<Longrightarrow> Q s \<Longrightarrow> Q (arch_step m p io s) \<and> f (arch_step m p io s) = f s"
    and "Q s" "steps_all P m ps s"
  shows "Q (arch_run m ps s) \<and> f (arch_run m ps s) = f s"
  using assms(2,3)
proof (induction ps arbitrary: s)
  case (Cons p ps)
  then show ?case using assms(1) [of p s "io_rdata p"] by (simp add: arch_run_def)
qed (simp add: arch_run_def)

lemma locked_traps: "csr_mcause (a_csrs s) \<Longrightarrow> trap_entry True p i (a_csrs s) \<longleftrightarrow> dbg_halt_accepted True p (a_csrs s)"
  by (auto simp: trap_entry_def interrupt_accepted_def nmi_accepted_def env_trap_accepted_def)

lemma step_csrs: "a_csrs (arch_step m p io s) =
  csr_clk True p (arch_instr s) (arch_rs1 s) (a_pc s) (arch_pc_new s) (a_csrs s)"
  by (simp add: arch_step_fields)

lemma quiet_keeps: "quiet_step p s \<Longrightarrow> csr_mepc (a_csrs (arch_step m p io s)) = csr_mepc (a_csrs s)"
  by (auto simp: step_csrs csr_clk_def quiet_step_def changes_mepc_def Let_def)

lemma handler_keeps: "handler_step p s \<Longrightarrow> csr_mcause (a_csrs s) \<Longrightarrow>
  csr_mcause (a_csrs (arch_step m p io s)) \<and> csr_mepc (a_csrs (arch_step m p io s)) = csr_mepc (a_csrs s)"
  by (auto simp: step_csrs csr_clk_def handler_step_def changes_mepc_def locked_traps Let_def)

lemma handler_run:
  assumes "csr_mcause (a_csrs s)" "steps_all handler_step m ps s"
  shows "csr_mcause (a_csrs (arch_run m ps s))" "csr_mepc (a_csrs (arch_run m ps s)) = csr_mepc (a_csrs s)"
  using steps_all_keep [where P = handler_step and Q = "\<lambda>s. csr_mcause (a_csrs s)" and f = "\<lambda>s. csr_mepc (a_csrs s)",
    OF handler_keeps assms] by auto

lemma quiet_run:
  "steps_all quiet_step m ps s \<Longrightarrow> csr_mepc (a_csrs (arch_run m ps s)) = csr_mepc (a_csrs s)"
  using steps_all_keep [where P = quiet_step and Q = "\<lambda>s. True" and f = "\<lambda>s. csr_mepc (a_csrs s)"] quiet_keeps by blast

lemma mret_pc: "is_mret (arch_instr s) \<Longrightarrow> arch_pc_new s = csr_mepc (a_csrs s)"
  by (simp add: arch_pc_new_def PC_new_def is_mret_def isSYSTEM_def isJALR_def isJAL_def isBranch_def)

lemma mret_step:
  assumes "is_mret (arch_instr s)" "\<not> trap_entry True p (arch_instr s) (a_csrs s)"
  shows "a_pc (arch_step m p io s) = csr_mepc (a_csrs s)" "\<not> csr_mcause (a_csrs (arch_step m p io s))"
    "\<not> dbg_halt_mask (a_csrs (arch_step m p io s))"
    "csr_mepc (a_csrs (arch_step m p io s)) = csr_mepc (a_csrs s)"
  using assms mret_pc [OF assms(1)]
  by (auto simp: arch_step_fields csr_clk_def Let_def csr_wr_en_def trap_entry_def is_mret_def)

lemma async_saves:
  assumes "async_trap p s"
  shows "csr_mcause (a_csrs (arch_step m p io s))" "csr_mepc (a_csrs (arch_step m p io s)) = arch_pc_new s"
  using assms async_entry [OF assms] by (auto simp: step_csrs csr_clk_def async_trap_def Let_def)

text \<open>C11: A handler is not interrupted and returns: after an asynchronous trap, however long the
  handler runs and whatever interrupts, NMIs and environment calls occur meanwhile, as long as
  it does not change mepc and no debug halt arrives, its mret continues at the address after the
  interrupted instruction and releases the lock.\<close>

theorem handler_returns:
  assumes "async_trap p s" "steps_all handler_step m ps (arch_step m p io s)"
    "h = arch_run m ps (arch_step m p io s)" "is_mret (arch_instr h)" "\<not> dbg_halt_accepted True q (a_csrs h)"
  shows "a_pc (arch_step m q io' h) = arch_pc_new s \<and> \<not> csr_mcause (a_csrs (arch_step m q io' h))"
proof -
  have h: "csr_mcause (a_csrs h)" "csr_mepc (a_csrs h) = arch_pc_new s"
    using handler_run [OF _ assms(2)] async_saves [OF assms(1), of m io] by (auto simp: assms(3))
  show ?thesis using mret_step [OF assms(4), of q m io'] assms(5) h by (simp add: locked_traps)
qed

lemma handler_returns_witness:
  "let c = code_words [(0, 0x00150513), (4, 0x00158593), (5, 0x30200073)]; p = demo_pins True False;
       h = arch_run 0x10 [p] (arch_step 0x10 p 0 (arch_of (demo_core c True False 0)))
   in a_pc (arch_step 0x10 p 0 h) = 4"
proof -
  let ?c = "code_words [(0, 0x00150513), (4, 0x00158593), (5, 0x30200073)]" and ?p = "demo_pins True False"
  let ?s = "arch_of (demo_core ?c True False 0)"
  let ?h = "arch_run 0x10 [?p] (arch_step 0x10 ?p 0 ?s)"
  have h: "async_trap ?p ?s" "steps_all handler_step 0x10 [?p] (arch_step 0x10 ?p 0 ?s)" "is_mret (arch_instr ?h)"
    "\<not> dbg_halt_accepted True ?p (a_csrs ?h)" "arch_pc_new ?s = 4"
    by code_simp+
  show ?thesis using handler_returns [OF h(1,2) refl h(3,4), of 0] h(5) by (simp add: Let_def)
qed

section \<open>Waiting for an interrupt\<close>

text \<open>Without a request, \<open>wfi\<close> stays where it is and changes nothing.\<close>

lemma wfi_stalls:
  assumes "executing s c" "is_wfi (arch_instr s)" "rdId (arch_instr s) = 0"
    "\<not> interrupt_request p" "\<not> nmi_request p" "\<not> dbg_halt_req p"
  shows "arch_of (core_clk m p c) = s \<and> fsm_state (core_clk m p c) = S_EXECUTE \<and> instr_reg (core_clk m p c) = arch_instr s"
proof -
  note v = executing_values [OF assms(1)]
  have w: "wfi_stall True p (arch_instr s)" using assms by (simp add: wfi_stall_def)
  have n: "\<not> isStore (arch_instr s)" "\<not> is_env_trap (arch_instr s)" "\<not> csr_wr_en True (arch_instr s)" "\<not> is_mret (arch_instr s)"
    using assms(2) by (auto simp: is_wfi_def isStore_def isSYSTEM_def is_env_trap_def csr_wr_en_def is_mret_def)
  have "csr_clk True p (arch_instr s) v a b t = t" for v a b t
    using n assms(4-6) by (simp add: csr_clk_def trap_entry_def interrupt_accepted_def env_trap_accepted_def nmi_accepted_def
      dbg_halt_accepted_def Let_def)
  then have "arch_of (core_clk m p c) = arch_of c"
    using w n assms(3) by (simp add: core_clk_def fsm_clk_def data_clk_def Let_def v arch_of_def write_reg_def)
  then show ?thesis using w assms(1) by (simp add: core_clk_def fsm_clk_def data_clk_def Let_def v executing_def)
qed

section \<open>A debug halt inside a handler\<close>

theorem halted_handler:
  assumes "csr_mcause (a_csrs s)" "dbg_halt_accepted True p (a_csrs s)"
    and stub: "h = arch_run m stub (arch_step m p io s)" "is_mret (arch_instr h)" "csr_mcause (a_csrs h)"
      "\<not> dbg_halt_accepted True q (a_csrs h)" "csr_mepc (a_csrs h) = csr_mepc (a_csrs (arch_step m p io s))"
    and rest: "r = arch_step m q io' h" "steps_all quiet_step m ps r" "e = arch_run m ps r"
      "is_mret (arch_instr e)" "\<not> trap_entry True q' (arch_instr e) (a_csrs e)"
  shows "a_pc r = arch_pc_new s \<and> \<not> csr_mcause (a_csrs r) \<and> a_pc (arch_step m q' io'' e) = arch_pc_new s"
proof -
  have "csr_mepc (a_csrs h) = arch_pc_new s"
    using async_saves(2) [of p s m io] assms(2) stub(5) by (simp add: async_trap_def)
  moreover have "\<not> trap_entry True q (arch_instr h) (a_csrs h)" using stub(3,4) by (simp add: locked_traps)
  ultimately have r: "a_pc r = arch_pc_new s" "\<not> csr_mcause (a_csrs r)" "csr_mepc (a_csrs r) = arch_pc_new s"
    using mret_step [OF stub(2)] by (simp_all add: rest(1))
  then have "csr_mepc (a_csrs e) = arch_pc_new s" using quiet_run [OF rest(2)] by (simp add: rest(3))
  then show ?thesis using r mret_step(1) [OF rest(4,5)] by simp
qed

lemma halted_handler_witness:
  "let c = code_words [(8, 0x00150513), (9, 0x30200073), (16, 0x30200073)]; s = arch_of (demo_core c True True 0x20);
       h = arch_step 0x40 (demo_pins False True) 0 s; r = arch_step 0x40 (demo_pins False False) 0 h
   in csr_mepc (a_csrs s) = 0x30 \<and> a_pc r = 0x24 \<and> a_pc (arch_step 0x40 (demo_pins False False) 0 r) = 0x24"
proof -
  let ?c = "code_words [(8, 0x00150513), (9, 0x30200073), (16, 0x30200073)]"
  let ?s = "arch_of (demo_core ?c True True 0x20)" and ?p = "demo_pins False True" and ?q = "demo_pins False False"
  let ?h = "arch_run 0x40 [] (arch_step 0x40 ?p 0 ?s)"
  let ?r = "arch_step 0x40 ?q 0 ?h"
  let ?e = "arch_run 0x40 [] ?r"
  have h: "csr_mcause (a_csrs ?s)" "dbg_halt_accepted True ?p (a_csrs ?s)" "is_mret (arch_instr ?h)" "csr_mcause (a_csrs ?h)"
    "\<not> dbg_halt_accepted True ?q (a_csrs ?h)" "steps_all quiet_step 0x40 [] ?r" "is_mret (arch_instr ?e)"
    "\<not> trap_entry True ?q (arch_instr ?e) (a_csrs ?e)" "arch_pc_new ?s = 0x24" "csr_mepc (a_csrs ?s) = 0x30"
    by code_simp+
  have "csr_mepc (a_csrs ?h) = csr_mepc (a_csrs (arch_step 0x40 ?p 0 ?s))" by (simp add: arch_run_def)
  from halted_handler [OF h(1,2) refl h(3-5) this refl h(6) refl h(7,8), of 0] h(9,10)
  show ?thesis by (simp add: Let_def arch_run_def)
qed

section \<open>A debug halt on a load\<close>

text \<open>C13: A debug halt accepted at a load from RAM destroys the destination register: the state
  machine goes to the trap without waiting for the data, the register receives the part of an
  instruction word that is still at the output of the RAM, and mepc is already past the load, so
  it is not repeated.\<close>

theorem halt_loses_load:
  assumes "at_fetch c" "code_ok (arch_of c)" "length fs = fetch_cycles c"
    and "s = arch_of c" "isLoad (arch_instr s)" "rdId (arch_instr s) \<noteq> 0"
    and "page_sel (ucast (arch_addr s)) = 0" "dbg_halt_accepted True p (a_csrs s)" "\<not> interrupt_accepted True p (a_csrs s)"
    and "d = fold (core_clk m) (fs @ [p]) c"
  shows "fsm_state d = S_FETCH_INSTR \<and> pc_reg d = m \<and> csr_mepc (core_csrs d) = arch_pc_new s \<and>
    (\<exists>a \<in> {a_pc s, a_pc s + 4}.
       registerFile d (rdId (arch_instr s)) = load_result (arch_instr s) (ucast (arch_addr s)) (a_ram s (ram_waddr (ucast a))))"
proof -
  let ?c = "fold (core_clk m) fs c"
  have x: "executing s ?c" using fetch_executes [OF assms(1-3)] by (simp add: assms(4))
  have t: "trap_entry True p (arch_instr s) (a_csrs s)" and a: "async_trap p s" and w: "\<not> waits p s"
    using assms(8,9) by (auto simp: trap_entry_def async_trap_def waits_def)
  have nw: "\<not> wfi_stall True p (arch_instr s)" using assms(8) by (simp add: wfi_stall_def dbg_halt_accepted_def)
  note v = executing_values [OF x] pc_new_values [OF x]
  have d: "d = core_clk m p ?c" by (simp add: assms(10))
  note st = d [unfolded step_execute [OF x nw]]
  have "isLoad (arch_instr s) \<Longrightarrow> \<not> isStore (arch_instr s) \<and> \<not> isBranch (arch_instr s)"
    by (simp add: isLoad_def isStore_def isBranch_def)
  then have wr: "registerFile d (rdId (arch_instr s)) =
    load_result (arch_instr s) (ucast (arch_addr s)) (ram_rdata ?c)"
    using assms(5-7) by (simp add: st data_clk_def Let_def v write_reg_def load_only core_mem_rdata_def)
  have "fsm_state d = S_FETCH_INSTR" "pc_reg d = m" "csr_mepc (core_csrs d) = arch_pc_new s"
    using t w a assms(8) by (simp_all add: st data_clk_def Let_def v csr_clk_def)
  moreover have "\<exists>a \<in> {a_pc s, a_pc s + 4}. ram_rdata ?c = a_ram s (ram_waddr (ucast a))"
    using x by (simp add: executing_def)
  ultimately show ?thesis using wr by auto
qed

lemma halt_loses_load_witness:
  "let c = demo_core (code_words [(0, 0x04002503), (1, 0x04002503), (16, 7)]) True False 0;
       d = fold (core_clk 0x1000) ([demo_pins False False, demo_pins False False] @ [demo_pins False True]) c
   in registerFile d 10 = 0x04002503 \<and> a_regs (arch_step 0x1000 (demo_pins False False) 0 (arch_of c)) 10 = 7 \<and>
      csr_mepc (core_csrs d) = 4"
proof -
  let ?c = "demo_core (code_words [(0, 0x04002503), (1, 0x04002503), (16, 7)]) True False 0"
  let ?s = "arch_of ?c" and ?p = "demo_pins False True" and ?fs = "[demo_pins False False, demo_pins False False]"
  have h: "at_fetch ?c" "code_ok ?s" "length ?fs = fetch_cycles ?c" "isLoad (arch_instr ?s)" "rdId (arch_instr ?s) = 10"
    "page_sel (ucast (arch_addr ?s)) = 0" "dbg_halt_accepted True ?p (a_csrs ?s)" "\<not> interrupt_accepted True ?p (a_csrs ?s)"
    "arch_pc_new ?s = 4" "load_result (arch_instr ?s) (ucast (arch_addr ?s)) 0x04002503 = 0x04002503"
    "a_ram ?s (ram_waddr (ucast (a_pc ?s))) = 0x04002503" "a_ram ?s (ram_waddr (ucast (a_pc ?s + 4))) = 0x04002503"
    "a_regs (arch_step 0x1000 (demo_pins False False) 0 ?s) 10 = 7"
    by code_simp+
  have "rdId (arch_instr ?s) \<noteq> 0" using h(5) by simp
  from halt_loses_load [OF h(1-3) refl h(4) this h(6-8) refl, of "0x1000"] h(5,9-13)
  show ?thesis by (simp add: Let_def)
qed

section \<open>The core and the breakpoint unit\<close>

text \<open>
  The two modules on one clock: the unit compares the program counter and its registered answer is
  the halt request of the next cycle; a store of the core to page 2 may write the unit's registers.
\<close>

definition sel_bkpt :: "u32 \<Rightarrow> bool" where
  "sel_bkpt a \<longleftrightarrow> page_sel a = 2 \<and> io_slot a = 0 \<and> sys_subslot a = 1"

definition debug_clk :: "14 word \<Rightarrow> pins \<Rightarrow> hw_bkpt \<times> core \<Rightarrow> hw_bkpt \<times> core" where
  "debug_clk mtvec p bc =
     (let b = fst bc; c = snd bc; a = ucast (core_mem_addr c);
          wmask = (if fsm_state c = S_EXECUTE \<and> isStore (instr_reg c)
                   then STORE_wmask (access_width (instr_reg c)) a else 0)
      in (hw_bkpt_clk b True (pc_reg c) (sel_bkpt a) (sys_reg a) (mem_wdata a (rs2_reg c)) wmask,
          core_clk mtvec (p\<lparr>dbg_halt_req := dbg_halt_req p \<or> halt_req b\<rparr>) c))"

lemma debug_fetch:
  assumes "at_fetch c" "code_ok (arch_of c)" "length ps \<le> fetch_cycles c"
  shows "\<exists>qs. length qs = length ps \<and> snd (fold (debug_clk m) ps (b, c)) = fold (core_clk m) qs c \<and>
    bp_match (fst (fold (debug_clk m) ps (b, c))) (pc_reg c) = bp_match b (pc_reg c) \<and>
    (ps \<noteq> [] \<longrightarrow> halt_req (fst (fold (debug_clk m) ps (b, c))) = (bp_match b (pc_reg c) \<noteq> 0))"
  using assms(3)
proof (induction ps rule: rev_induct)
  case (snoc p ps)
  then obtain qs where q: "length qs = length ps" "snd (fold (debug_clk m) ps (b, c)) = fold (core_clk m) qs c"
    "bp_match (fst (fold (debug_clk m) ps (b, c))) (pc_reg c) = bp_match b (pc_reg c)" by auto
  let ?b = "fst (fold (debug_clk m) ps (b, c))"
  have f: "fsm_state (fold (core_clk m) qs c) \<noteq> S_EXECUTE" "pc_reg (fold (core_clk m) qs c) = pc_reg c"
    using fetch_path [OF assms(1,2), of qs m] q(1) snoc.prems by auto
  have "length (qs @ [p\<lparr>dbg_halt_req := dbg_halt_req p \<or> halt_req ?b\<rparr>]) = length (ps @ [p])" using q(1) by simp
  moreover have "snd (fold (debug_clk m) (ps @ [p]) (b, c)) =
    fold (core_clk m) (qs @ [p\<lparr>dbg_halt_req := dbg_halt_req p \<or> halt_req ?b\<rparr>]) c"
    by (simp add: debug_clk_def q(2) Let_def)
  moreover have "bp_match (fst (fold (debug_clk m) (ps @ [p]) (b, c))) (pc_reg c) = bp_match b (pc_reg c) \<and>
    halt_req (fst (fold (debug_clk m) (ps @ [p]) (b, c))) = (bp_match b (pc_reg c) \<noteq> 0)"
    using q(3) by (simp add: debug_clk_def q(2) Let_def f hw_bkpt_clk_def) (simp add: bp_match_def)
  ultimately show ?case by blast
qed simp

text \<open>C12: A hardware breakpoint stops after the instruction at its address, not before it: the
  comparison takes a clock and the halt is accepted when that instruction executes, so the core
  enters the stub with the effects of the instruction in the registers and the memory and with
  mepc at the following one. The instruction is not a load, whose data the halt destroys, not an
  accepted environment call, not wfi and not a store to the words it is fetched from; the debug
  halt is not masked and no interrupt is requested.\<close>

theorem hw_breakpoint_late:
  assumes "at_fetch c" "code_ok (arch_of c)" "length fs = fetch_cycles c" "bp_match b (pc_reg c) \<noteq> 0"
    and "s = arch_of c" "\<not> dbg_halt_mask (a_csrs s)" "\<not> interrupt_request p" "\<not> isLoad (arch_instr s)"
      "\<not> env_trap_accepted True (arch_instr s) (a_csrs s)" "step_ok (no_requests p) s"
  shows "let t = arch_of (snd (fold (debug_clk m) (fs @ [p]) (b, c))); u = arch_step m (no_requests p) io s
    in a_pc t = m \<and> a_regs t = a_regs u \<and> a_ram t = a_ram u \<and> csr_mepc (a_csrs t) = a_pc u \<and> csr_mcause (a_csrs t)"
proof -
  let ?p = "p\<lparr>dbg_halt_req := True\<rparr>"
  have "0 < fetch_cycles c" by (simp add: fetch_cycles_def)
  then have "fs \<noteq> []" using assms(3) by auto
  from debug_fetch [OF assms(1,2) eq_refl [OF assms(3)], of m b] this assms(4) obtain qs where
    q: "length qs = fetch_cycles c" "snd (fold (debug_clk m) fs (b, c)) = fold (core_clk m) qs c"
       "halt_req (fst (fold (debug_clk m) fs (b, c)))" using assms(3) by auto
  have h: "dbg_halt_accepted True ?p (a_csrs s)" using assms(6) by (simp add: dbg_halt_accepted_def)
  have a: "async_trap ?p s" and w: "\<not> waits ?p s"
    using h assms(7) by (auto simp: async_trap_def waits_def trap_entry_def interrupt_accepted_def)
  have ok: "step_ok ?p s"
    using assms(8,10) by (auto simp: step_ok_def wfi_stall_def no_requests_def)
  have "snd (fold (debug_clk m) (fs @ [p]) (b, c)) = core_clk m ?p (fold (core_clk m) qs c)"
    using q by (simp add: debug_clk_def Let_def)
  moreover have "arch_of (core_clk m ?p (fold (core_clk m) qs c)) = arch_step m ?p io s"
    using execute_one(1) [OF fetch_executes [OF assms(1,2) q(1), of m], of ?p m io] ok w by (simp add: assms(5))
  moreover have "no_requests ?p = no_requests p" by (simp add: no_requests_def)
  moreover have "\<not> cut_load ?p (arch_instr s) (a_csrs s)" using assms(8) by (simp add: cut_load_def)
  ultimately show ?thesis using precise_step [OF a assms(9), of m io] by (simp add: Let_def)
qed

lemma hw_breakpoint_late_witness:
  "let b = \<lparr>bp_addr = (\<lambda>_. 0), bp_en = 1, bp_hit = 0, halt_req = False\<rparr>; q = demo_pins False False;
       c = demo_core (code_words [(0, 0x00150513)]) False False 0;
       t = arch_of (snd (fold (debug_clk 0x1000) ([q, q] @ [q]) (b, c)))
   in a_pc t = 0x1000 \<and> a_regs t 10 = 1 \<and> csr_mepc (a_csrs t) = 4"
proof -
  let ?b = "\<lparr>bp_addr = (\<lambda>_. 0), bp_en = 1, bp_hit = 0, halt_req = False\<rparr>" and ?q = "demo_pins False False"
  let ?c = "demo_core (code_words [(0, 0x00150513)]) False False 0"
  let ?u = "arch_step 0x1000 (no_requests ?q) 0 (arch_of ?c)"
  have h: "at_fetch ?c" "code_ok (arch_of ?c)" "length [?q, ?q] = fetch_cycles ?c" "bp_match ?b (pc_reg ?c) \<noteq> 0"
    "\<not> dbg_halt_mask (a_csrs (arch_of ?c))" "\<not> interrupt_request ?q" "\<not> isLoad (arch_instr (arch_of ?c))"
    "\<not> env_trap_accepted True (arch_instr (arch_of ?c)) (a_csrs (arch_of ?c))" "step_ok (no_requests ?q) (arch_of ?c)"
    "a_regs ?u 10 = 1" "a_pc ?u = 4"
    by code_simp+
  show ?thesis
    using hw_breakpoint_late [OF h(1-4) refl h(5-9), of "0x1000" 0] h(10,11) by (simp add: Let_def)
qed

lemma halt_skips_ebreak:
  assumes "env_trap_accepted True (arch_instr s) (a_csrs s)" "dbg_halt_accepted True p (a_csrs s)"
  shows "csr_mepc (a_csrs (arch_step m p io s)) = arch_pc_new s"
  using async_saves(2) [of p s] assms(2) by (simp add: async_trap_def)

lemma stub_halted_again:
  assumes "env_trap_accepted True (arch_instr s) (a_csrs s)" "\<not> dbg_halt_accepted True p (a_csrs s)"
    "\<not> dbg_halt_mask (a_csrs s)" "dbg_halt_req q"
  shows "dbg_halt_accepted True q (a_csrs (arch_step m p io s))"
  using assms by (auto simp: step_csrs csr_clk_def dbg_halt_accepted_def trap_entry_def Let_def)

end
