(* ===== verification/Stepped_Core.thy ===== *)
theory Stepped_Core
  imports Core_Handlers
begin

text \<open>
  The single step of the stub on the clocked core: the core resumes at the instruction with the
  breakpoints planted, executes it, and traps at the next one.
\<close>

lemma fetch_in_ram:
  assumes "in_ram (ucast (a_pc s))" "a_ram s (ram_waddr (ucast (a_pc s))) = ram so (ram_waddr (ucast (a_pc s)))"
    and "long_at so (ucast (a_pc s)) \<Longrightarrow> \<not> bit (ucast (a_pc s) :: u32) 1"
  shows "decompressor (arch_fetch s) = decompressor (decomp_input so (ucast (a_pc s)))"
    and "long_instr (arch_fetch s) = long_instr (decomp_input so (ucast (a_pc s)))"
    and "code_ok s"
proof -
  let ?w = "ram so (ram_waddr (ucast (a_pc s)))" and ?d = "decomp_input so (ucast (a_pc s))"
  have w: "arch_word s (a_pc s) = ?w" using assms(1,2) by (simp add: arch_word_def Let_def)
  have b: "bit (ucast (a_pc s) :: u32) 1 = bit (a_pc s) 1" by (simp add: bit_simps)
  have sp: "bits 17 16 ?w \<noteq> 3" if "bit (a_pc s) 1"
  proof
    assume "bits 17 16 ?w = 3"
    moreover have "bits 1 0 (vcat [(16, x), (16, bits 31 16 ?w)]) = bits 17 16 ?w" for x
      by (rule word32_eqI) (auto simp: vec_simps)
    ultimately have "long_instr ?d" using that b by (simp add: decomp_input_def long_instr_def)
    then show False using assms(3) that b by (simp add: long_half)
  qed
  show "decompressor (arch_fetch s) = decompressor ?d" "long_instr (arch_fetch s) = long_instr ?d"
    using short_same [OF sp] w b by (auto simp: arch_fetch_def decomp_input_def)
  show "code_ok s" using sp assms(1) w by (auto simp: code_ok_def)
qed

lemma PC_new_mepc: "\<not> is_mret i \<Longrightarrow> PC_new pc l i v1 v2 e = PC_new pc l i v1 v2 e'"
  by (simp add: PC_new_def)

lemma reg_index: "rs1Id i < 32" "rs2Id i < 32"
  using take_bit_nat_less_exp [of 5] by (simp_all add: rs1Id_def rs2Id_def bits_def unsigned_take_bit_eq)

lemma arch_pc_in_ram:
  assumes "decompressor (arch_fetch s) = decompressor (decomp_input so (ucast (a_pc s)))"
    "long_instr (arch_fetch s) = long_instr (decomp_input so (ucast (a_pc s)))" "\<forall>i < 32. a_regs s i = g i"
  shows "arch_pc_new s = pc_new_at so g (csr_mepc (a_csrs s)) (a_pc s)"
  using assms(3) by (simp add: arch_pc_new_def arch_instr_def arch_rs1_def pc_new_at_def assms(1,2) reg_index Let_def)

lemma stops_at_long: "stops_at so a \<Longrightarrow> long_at so a \<Longrightarrow> \<not> bit a 1"
  by (auto simp: stops_at_def long_at_def)

lemma ebreak_fields: "isSYSTEM 0x00100073" "is_env_trap 0x00100073" "\<not> is_ecall 0x00100073" "rdId 0x00100073 = 0"
  "\<not> isLoad 0x00100073" "\<not> isStore 0x00100073" "\<not> is_wfi 0x00100073" "\<not> needToWait 0x00100073"
  by code_simp+

lemma ebreak_traps:
  assumes "arch_instr s = 0x00100073" "code_ok s" "\<not> csr_mcause (a_csrs s)" "no_requests q = q"
  shows "step_ok q s" "let t = arch_step m q io s in a_pc t = m \<and> a_regs t = a_regs s \<and> a_ram t = a_ram s \<and>
    csr_mepc (a_csrs t) = a_pc s \<and> csr_mcause (a_csrs t) \<and> mcause_read (a_csrs t) = 3"
proof -
  have q: "\<not> interrupt_request q" "\<not> nmi_request q" "\<not> dbg_halt_req q"
    using assms(4) by (cases q, simp add: no_requests_def)+
  have e: "env_trap_accepted True 0x00100073 (a_csrs s)" using assms(3) by (simp add: env_trap_accepted_def ebreak_fields)
  show "step_ok q s" using assms by (simp add: step_ok_def ebreak_fields wfi_stall_def)
  show "let t = arch_step m q io s in a_pc t = m \<and> a_regs t = a_regs s \<and> a_ram t = a_ram s \<and>
    csr_mepc (a_csrs t) = a_pc s \<and> csr_mcause (a_csrs t) \<and> mcause_read (a_csrs t) = 3"
    using e q assms(1)
    by (simp add: arch_step_fields csr_clk_def trap_entry_def interrupt_accepted_def nmi_accepted_def dbg_halt_accepted_def
      ebreak_fields write_reg_def mcause_read_def Let_def)
qed

text \<open>C5: The s command stops the clocked core after exactly one instruction, if the instruction can
  be stepped: it lies at an even address in RAM, word aligned when it has 32 bits; it is not
  mret, the reserved c.jr x0, wfi, ecall or ebreak; it does not store to the words it is fetched
  from or to the word it continues at; and the successors that next_pcs returns lie in RAM, word
  aligned when they are 32-bit instructions, and overlap neither each other nor the instruction
  itself, so it does not branch to itself. The core is outside a handler, about to fetch at the
  resume address with the registers and the memory cmd_step leaves, no scratch breakpoint was
  armed before, and no interrupt, NMI or halt is requested. Then it executes that instruction
  and traps: it is at the trap vector, mepc is the address the core continues at in the program
  without the breakpoints, mcause reads 3, and the registers and the memory are those after the
  one instruction.\<close>

theorem single_step_clocked:
  assumes "table_wf st" "sw_armed True st = {}" "set_resume_pc args p st = Some st0" "steppable st0"
    and cmd: "cmd_step args p st = Some (1, st1)"
    and "at_fetch c" "s = arch_of c" "ucast (a_pc s) = g_regs st0 (NGDB_REGS - 1)" "\<forall>i < 32. a_regs s i = g_regs st0 i"
      "a_ram s = ram (soc st1)" "\<not> csr_mcause (a_csrs s)"
    and "no_requests q = q" "step_ok q s" "\<not> is_env_trap (arch_instr s)"
    and "a = core_next m (soc st) (g_regs st0) (csr_mepc (a_csrs s)) (a_pc s)"
    and "isStore (arch_instr s) \<and> page_sel (ucast (arch_addr s)) = 0 \<Longrightarrow>
      ram_waddr (ucast (arch_addr s)) \<noteq> ram_waddr (ucast a)"
  shows "let t = arch_of (fold (core_instr m) [q, q] c)
    in a_pc t = m \<and> csr_mepc (a_csrs t) = a \<and> mcause_read (a_csrs t) = 3 \<and>
       a_regs t = a_regs (arch_step m q (io_rdata q) s) \<and> a_ram t = a_ram (arch_step m q (io_rdata q) s)"
proof -
  note f = set_resume_pc_frame [OF assms(3)]
  have wf: "table_wf st0" "sw_armed True st0 = {}" using f assms(1,2) by simp_all
  note d = steppableD [OF assms(4)]
  have soc1: "soc st1 = soc (plant_steps st0)" using cmd assms(3) by (auto simp: cmd_step_def)
  have pc: "a_pc s = ucast (step_pc st0)" using assms(8) by (metis ucast14_in_ram d(1) ucast14_eq)
  have k: "\<forall>h \<in> instr_halves (soc st0) (step_pc st0). half_at (soc st1) h = half_at (soc st0) h"
    using step_instr_kept [OF wf assms(4)] by (simp add: soc1)
  then have "half_at (soc st1) (step_pc st0) = half_at (soc st0) (step_pc st0)"
    by (simp add: instr_halves_def split: if_splits)
  then have l: "long_at (soc st1) (step_pc st0) \<longrightarrow> \<not> bit (step_pc st0) 1" using d(3) by (simp add: long_at_def)
  have fr: "decompressor (arch_fetch s) = decompressor (decomp_input (soc st1) (ucast (a_pc s)))"
    "long_instr (arch_fetch s) = long_instr (decomp_input (soc st1) (ucast (a_pc s)))"
    using fetch_in_ram [of s "soc st1"] d(1) l by (simp_all add: assms(8,10))
  have "arch_instr s = decompressor (decomp_input (soc st0) (step_pc st0))"
    using fr(1) decoded_same(2) [OF d(1-3) k] by (simp add: arch_instr_def assms(8))
  then have an: "a = pc_new_at (soc st) (g_regs st0) (csr_mepc (a_csrs s)) (a_pc s)"
    using assms(14) by (simp add: assms(15) core_next_def assms(8) f(3))
  have a: "pc_new_at (soc st1) (g_regs st0) (csr_mepc (a_csrs s)) (a_pc s) = a"
    using step_lands(1) [OF wf assms(4) refl] by (simp add: soc1 pc an f(3))
  have land: "code_addr (soc st0) (ucast a)" "stops_at (soc st1) (ucast a)"
    using step_lands(3,4) [OF wf assms(4), of a "csr_mepc (a_csrs s)"] by (simp_all add: soc1 pc an f(3))
  let ?t = "arch_step m q (io_rdata q) s"
  have q: "\<not> trap_entry True q (arch_instr s) (a_csrs s)"
    using assms(12,14) no_requests_trap [of q s] by (simp add: env_trap_accepted_def)
  have pcs: "a_pc ?t = a" using arch_pc_in_ram [OF fr assms(9)] a q by (simp add: arch_step_fields)
  have mc: "\<not> csr_mcause (a_csrs ?t)" using q assms(11) by (simp add: step_csrs csr_clk_def Let_def)
  have w: "a_ram ?t (ram_waddr (ucast a)) = ram (soc st1) (ram_waddr (ucast a))"
    using assms(10,16) by (auto simp: arch_step_fields Let_def)
  have "in_ram (ucast a)" "\<not> bit (ucast a :: u32) 0" using land(1) by (auto simp: code_addr_def)
  note g = fetch_in_ram [of ?t "soc st1", unfolded pcs, OF this(1) w stops_at_long [OF land(2)]]
    and e = stops_at_traps(1) [OF this land(2)]
  have i: "arch_instr ?t = 0x00100073" using g(1) e by (simp add: arch_instr_def)
  note b = ebreak_traps [OF i g(3) mc assms(12)]
  have "run_ok m [q, q] s" using assms(13) b(1) by simp
  then have "arch_of (fold (core_instr m) [q, q] c) = arch_run m [q, q] s"
    using core_program [OF assms(6)] by (simp only: assms(7))
  then have "arch_of (fold (core_instr m) [q, q] c) = arch_step m q (io_rdata q) ?t" by (simp add: arch_run_def)
  then show ?thesis using b(2) [of m "io_rdata q"] pcs by (simp add: Let_def)
qed

definition stepped_core :: core where
  "stepped_core = (demo_core (ram (soc (plant_steps (sample_stub [])))) True False 0x100)
     \<lparr>registerFile := g_regs (sample_stub [])\<rparr>"

lemma single_step_clocked_witness:
  "let t = arch_of (fold (core_instr 0x1000) [demo_pins False False, demo_pins False False] stepped_core)
   in a_pc t = 0x1000 \<and> csr_mepc (a_csrs t) = 0x108 \<and> mcause_read (a_csrs t) = 3"
proof -
  let ?s = "arch_of stepped_core" and ?q = "demo_pins False False"
  obtain st1 where st1: "cmd_step (\<lambda>_. 0) 0 (sample_stub []) = Some (1, st1)" "soc st1 = soc (plant_steps (sample_stub []))"
    by (simp add: cmd_step_def sample_resume)
  have t: "table_wf (sample_stub [])" "sw_armed True (sample_stub []) = {}" by (rule sample_table)+
  have c: "at_fetch stepped_core" "step_ok ?q ?s" "\<not> is_env_trap (arch_instr ?s)" "\<not> isStore (arch_instr ?s)"
    "a_pc ?s = 0x100" "\<not> csr_mcause (a_csrs ?s)"
    "core_next 0x1000 (sample_soc []) (g_regs (sample_stub [])) (csr_mepc (a_csrs ?s)) (a_pc ?s) = 0x108"
    by code_simp+
  have r: "a_ram ?s = ram (soc st1)" "\<forall>i < 32. a_regs ?s i = g_regs (sample_stub []) i" "no_requests ?q = ?q"
    by (simp_all add: stepped_core_def demo_core_def arch_of_def st1(2) no_requests_def demo_pins_def)
  have pc: "ucast (a_pc ?s) = g_regs (sample_stub []) (NGDB_REGS - 1)" unfolding c(5) by (simp add: NGDB_REGS_def)
  show ?thesis
    using single_step_clocked [OF t sample_resume sample_steppable st1(1) c(1) refl pc r(2,1) c(6) r(3) c(2,3) refl, of "0x1000"] c(4,7)
    by (simp add: Let_def)
qed

end
