(* ===== verification/Core_Assembly.thy ===== *)
theory Core_Assembly
  imports Core_Handlers
begin

text \<open>
  Assembler instructions on the core: their encodings, what they do (\<open>asm_exec\<close>), and that a listing
  held by the ROM, compressed or not, runs as the sequence of its instructions (\<open>asm_run\<close>) while a
  trap handler is not halted. The decompressor makes no difference of the two encodings.
\<close>

section \<open>Assembler instructions\<close>

datatype asm =
    SW u32 u32 u32 | LW u32 u32 u32 | LUI u32 u32 | ADDI u32 u32 u32 | CSRR u32 u32 | CSRW u32 u32

fun encode :: "asm \<Rightarrow> u32" where
  "encode (SW rs2 off rs1) = vcat [(7, bits 11 5 off), (5, rs2), (5, rs1), (3, 2), (5, bits 4 0 off), (7, 0x23)]"
| "encode (LW rd off rs1) = vcat [(12, off), (5, rs1), (3, 2), (5, rd), (7, 0x03)]"
| "encode (LUI rd v) = vcat [(20, v), (5, rd), (7, 0x37)]"
| "encode (ADDI rd rs1 v) = vcat [(12, v), (5, rs1), (3, 0), (5, rd), (7, 0x13)]"
| "encode (CSRR rd csr) = vcat [(12, csr), (5, 0), (3, 2), (5, rd), (7, 0x73)]"
| "encode (CSRW csr rs1) = vcat [(12, csr), (5, rs1), (3, 1), (5, 0), (7, 0x73)]"

definition sext12 :: "u32 \<Rightarrow> u32" where "sext12 v = vcat [(20, rep 20 (bit v 11)), (12, v)]"

text \<open>\<open>%hi\<close> and \<open>%lo\<close> of an address.\<close>

definition hi20 :: "u32 \<Rightarrow> u32" where "hi20 v = bits 31 12 (v + 0x800)"
definition lo12 :: "u32 \<Rightarrow> u32" where "lo12 v = bits 11 0 v"

definition put_reg :: "u32 \<Rightarrow> u32 \<Rightarrow> (nat \<Rightarrow> u32) \<Rightarrow> (nat \<Rightarrow> u32)" where
  "put_reg rd v r = (if rd = 0 then r else r(unat rd := v))"

definition asm_addr :: "arch \<Rightarrow> u32 \<Rightarrow> u32 \<Rightarrow> u32" where
  "asm_addr s rs1 off = a_regs s (unat rs1) + sext12 off"

text \<open>What an instruction does but for the program counter.\<close>

fun asm_exec :: "asm \<Rightarrow> arch \<Rightarrow> arch" where
  "asm_exec (SW rs2 off rs1) s = s\<lparr>a_ram := (a_ram s)(ram_waddr (asm_addr s rs1 off) := a_regs s (unat rs2))\<rparr>"
| "asm_exec (LW rd off rs1) s = s\<lparr>a_regs := put_reg rd (a_ram s (ram_waddr (asm_addr s rs1 off))) (a_regs s)\<rparr>"
| "asm_exec (LUI rd v) s = s\<lparr>a_regs := put_reg rd (push_bit 12 v) (a_regs s)\<rparr>"
| "asm_exec (ADDI rd rs1 v) s = s\<lparr>a_regs := put_reg rd (a_regs s (unat rs1) + sext12 v) (a_regs s)\<rparr>"
| "asm_exec (CSRR rd csr) s = s\<lparr>a_regs := put_reg rd (if csr = 0x341 then ucast (csr_mepc (a_csrs s)) else mcause_read (a_csrs s)) (a_regs s)\<rparr>"
| "asm_exec (CSRW csr rs1) s = s\<lparr>a_csrs := (a_csrs s)\<lparr>csr_mepc := ucast (a_regs s (unat rs1))\<rparr>\<rparr>"

definition word_in_ram :: "u32 \<Rightarrow> bool" where
  "word_in_ram a \<longleftrightarrow> in_ram a \<and> \<not> bit a 0 \<and> \<not> bit a 1"

fun asm_ok :: "asm \<Rightarrow> arch \<Rightarrow> bool" where
  "asm_ok (SW rs2 off rs1) s = (rs2 < 32 \<and> rs1 < 32 \<and> word_in_ram (asm_addr s rs1 off))"
| "asm_ok (LW rd off rs1) s = (rd < 32 \<and> rs1 < 32 \<and> word_in_ram (asm_addr s rs1 off))"
| "asm_ok (LUI rd v) s = (rd < 32)"
| "asm_ok (ADDI rd rs1 v) s = (rd < 32 \<and> rs1 < 32)"
| "asm_ok (CSRR rd csr) s = (rd < 32 \<and> (csr = 0x341 \<or> csr = 0x342) \<and> a_regs s 0 = 0)"
| "asm_ok (CSRW csr rs1) s = (rs1 < 32 \<and> csr = 0x341)"

section \<open>Decoding\<close>

lemma reg5: "(r :: u32) < 32 \<Longrightarrow> bits 4 0 r = r"
  by (simp add: bits_def word_less_nat_alt word_unat_eq_iff unsigned_take_bit_eq take_bit_nat_eq_self_iff)

lemma SW_fields:
  fixes rs2 off rs1 :: u32
  defines "i \<equiv> encode (SW rs2 off rs1)"
  shows "bits 6 2 i = 8" "bits 13 12 i = 2" "bits 19 15 i = bits 4 0 rs1" "bits 24 20 i = bits 4 0 rs2" "Simm i = sext12 off" "bit i 5"
  unfolding i_def Simm_def sext12_def by (rule word32_eqI; simp add: vec_simps; fail)+ (simp add: vec_simps)

lemma LW_fields:
  fixes rd off rs1 :: u32
  defines "i \<equiv> encode (LW rd off rs1)"
  shows "bits 6 2 i = 0" "bits 13 12 i = 2" "bits 19 15 i = bits 4 0 rs1" "bits 11 7 i = bits 4 0 rd" "Iimm i = sext12 off" "\<not> bit i 5"
  unfolding i_def Iimm_def sext12_def by (rule word32_eqI; simp add: vec_simps; fail)+ (simp add: vec_simps)

lemma LUI_fields:
  fixes rd v :: u32
  defines "i \<equiv> encode (LUI rd v)"
  shows "bits 6 2 i = 13" "bits 11 7 i = bits 4 0 rd" "Uimm i = push_bit 12 v"
  unfolding i_def Uimm_def by (rule word32_eqI; simp add: vec_simps; fail)+

lemma ADDI_fields:
  fixes rd rs1 v :: u32
  defines "i \<equiv> encode (ADDI rd rs1 v)"
  shows "bits 6 2 i = 4" "bits 14 12 i = 0" "bits 19 15 i = bits 4 0 rs1" "bits 11 7 i = bits 4 0 rd" "Iimm i = sext12 v" "\<not> bit i 5"
  unfolding i_def Iimm_def sext12_def by (rule word32_eqI; simp add: vec_simps; fail)+ (simp add: vec_simps)

lemma CSRR_fields:
  fixes rd csr :: u32
  defines "i \<equiv> encode (CSRR rd csr)"
  shows "bits 6 2 i = 28" "bits 14 12 i = 2" "bits 13 12 i = 2" "bits 19 15 i = 0" "bits 11 7 i = bits 4 0 rd"
    "bits 31 20 i = bits 11 0 csr" "\<not> bit i 14"
  unfolding i_def by (rule word32_eqI; simp add: vec_simps; fail)+ (simp add: vec_simps)

lemma CSRW_fields:
  fixes rs1 csr :: u32
  defines "i \<equiv> encode (CSRW csr rs1)"
  shows "bits 6 2 i = 28" "bits 14 12 i = 1" "bits 13 12 i = 1" "bits 19 15 i = bits 4 0 rs1" "bits 11 7 i = 0"
    "bits 31 20 i = bits 11 0 csr" "\<not> bit i 14"
  unfolding i_def by (rule word32_eqI; simp add: vec_simps; fail)+ (simp add: vec_simps)

section \<open>Execution\<close>

abbreviation next_pc :: "arch \<Rightarrow> 14 word" where
  "next_pc s \<equiv> PCinc (a_pc s) (long_instr (arch_fetch s))"

text \<open>In a handler without debug halts, or with nothing requested, no instruction but ecall and ebreak traps.\<close>

definition unhalted :: "pins \<Rightarrow> arch \<Rightarrow> bool" where
  "unhalted p s \<longleftrightarrow> \<not> dbg_halt_req p \<and>
     (csr_mcause (a_csrs s) \<or> \<not> nmi_request p \<and> \<not> (interrupt_request p \<and> csr_mstatus (a_csrs s)))"

lemma unhalted_trap: "unhalted p s \<Longrightarrow> \<not> is_env_trap i \<Longrightarrow> \<not> trap_entry True p i (a_csrs s)"
  by (auto simp: unhalted_def trap_entry_def interrupt_accepted_def env_trap_accepted_def nmi_accepted_def dbg_halt_accepted_def)

lemma step_plain:
  assumes "unhalted p s" "arch_instr s = i" "opcode5 i \<in> {0, 4, 8, 13}"
  shows "arch_step m p io s = s\<lparr>a_pc := next_pc s,
    a_regs := write_reg i (arch_wb s (arch_data p io s)) (a_regs s),
    a_ram := (if isStore i \<and> page_sel (ucast (arch_addr s)) = 0
      then (a_ram s)(ram_waddr (ucast (arch_addr s)) := ram_merge (a_ram s (ram_waddr (ucast (arch_addr s))))
             (mem_wdata (ucast (arch_addr s)) (a_regs s (rs2Id i))) (STORE_wmask (access_width i) (ucast (arch_addr s))))
      else a_ram s)\<rparr>"
proof -
  have n: "\<not> isJALR i" "\<not> isJAL i" "\<not> isBranch i" "\<not> isSYSTEM i"
    using assms(3) by (auto simp: isJALR_def isJAL_def isBranch_def isSYSTEM_def)
  then have "\<not> is_mret i" "\<not> is_env_trap i" "\<not> csr_wr_en True i" by (simp_all add: is_mret_def is_env_trap_def csr_wr_en_def)
  moreover from n this have "arch_pc_new s = next_pc s" by (simp add: arch_pc_new_def assms(2) PC_new_def)
  moreover have "\<not> dbg_halt_accepted True p (a_csrs s)" using assms(1) by (simp add: unhalted_def dbg_halt_accepted_def)
  ultimately show ?thesis
    using unhalted_trap [OF assms(1), of i]
    by (intro arch.equality) (simp_all add: arch_step_fields assms(2) csr_clk_def Let_def)
qed

lemma store_word: "\<not> bit a 0 \<Longrightarrow> \<not> bit a 1 \<Longrightarrow> ram_merge old (mem_wdata a v) 15 = v"
  by (rule word32_eqI; simp add: ram_merge_def mem_wdata_def vec_simps)

lemma addr14: "in_ram a \<Longrightarrow> ucast (ucast a :: 14 word) = a"
  by (rule ucast14_in_ram)

lemma exec_SW:
  assumes "unhalted p s" "arch_instr s = encode (SW rs2 off rs1)" "asm_ok (SW rs2 off rs1) s"
  shows "arch_step m p io s = (asm_exec (SW rs2 off rs1) s)\<lparr>a_pc := next_pc s\<rparr>"
proof -
  let ?i = "encode (SW rs2 off rs1)" and ?a = "asm_addr s rs1 off"
  have r: "rs1Id ?i = unat rs1" "rs2Id ?i = unat rs2"
    using assms(3) by (simp_all add: rs1Id_def rs2Id_def SW_fields reg5 del: encode.simps)
  have o: "opcode5 ?i = 8" "isStore ?i" "access_width ?i = Word"
    by (simp_all add: opcode5_def isStore_def access_width_def SW_fields del: encode.simps)
  have a: "ucast (arch_addr s) = ?a"
    using assms(3) addr14 [of ?a]
    by (simp add: arch_addr_def ls_addr_def assms(2) arch_rs1_def r SW_fields asm_addr_def word_in_ram_def ucast14_add del: encode.simps)
  have "in_ram ?a" "\<not> bit ?a 0" "\<not> bit ?a 1" using assms(3) by (simp_all add: word_in_ram_def)
  then show ?thesis
    using step_plain [OF assms(1,2), of m io] o by (simp add: a store_word r store_keeps del: encode.simps)
qed

lemma put_write:
  assumes "rdId i = unat rd" "\<not> isBranch i" "\<not> isStore i"
  shows "write_reg i v r = put_reg rd v r"
  using assms by (simp add: write_reg_def put_reg_def unat_eq_0)

lemma exec_LW:
  assumes "unhalted p s" "arch_instr s = encode (LW rd off rs1)" "asm_ok (LW rd off rs1) s"
  shows "arch_step m p io s = (asm_exec (LW rd off rs1) s)\<lparr>a_pc := next_pc s\<rparr>"
proof -
  let ?i = "encode (LW rd off rs1)" and ?a = "asm_addr s rs1 off"
  have o: "opcode5 ?i = 0" "isLoad ?i" "\<not> isStore ?i" "\<not> isBranch ?i" "access_width ?i = Word"
    by (simp_all add: opcode5_def isStore_def isLoad_def isBranch_def access_width_def LW_fields del: encode.simps)
  have r: "rs1Id ?i = unat rs1" "rdId ?i = unat rd"
    using assms(3) by (simp_all add: rs1Id_def rdId_def LW_fields reg5 del: encode.simps)
  have a: "ucast (arch_addr s) = ?a"
    using assms(3) addr14 [of ?a]
    by (simp add: arch_addr_def ls_addr_def assms(2) arch_rs1_def r LW_fields asm_addr_def word_in_ram_def ucast14_add del: encode.simps)
  have "in_ram ?a" using assms(3) by (simp add: word_in_ram_def)
  moreover have "\<not> cut_load p ?i (a_csrs s)"
    using unhalted_trap [OF assms(1), of ?i] o(1) by (simp add: cut_load_def is_env_trap_def isSYSTEM_def opcode5_def del: encode.simps)
  ultimately have "arch_wb s (arch_data p io s) = a_ram s (ram_waddr ?a)"
    using o by (simp add: arch_wb_def assms(2) load_only load_result_def arch_data_def a arch_word_def Let_def del: encode.simps)
  then show ?thesis
    using step_plain [OF assms(1,2), of m io] o put_write [OF r(2) o(4,3)] by (simp del: encode.simps)
qed

lemma exec_LUI:
  assumes "unhalted p s" "arch_instr s = encode (LUI rd v)" "asm_ok (LUI rd v) s"
  shows "arch_step m p io s = (asm_exec (LUI rd v) s)\<lparr>a_pc := next_pc s\<rparr>"
proof -
  let ?i = "encode (LUI rd v)"
  have o: "opcode5 ?i = 13" by (simp add: opcode5_def LUI_fields del: encode.simps)
  then have n: "\<not> isBranch ?i" "\<not> isStore ?i" by (simp_all add: isBranch_def isStore_def)
  have r: "rdId ?i = unat rd" using assms(3) by (simp add: rdId_def LUI_fields reg5 del: encode.simps)
  have "arch_wb s (arch_data p io s) = push_bit 12 v"
    using o by (simp add: arch_wb_def assms(2) writeBackData_def isSYSTEM_def isLUI_def isALUreg_def isALUimm_def isAUIPC_def
      isJALR_def isJAL_def isLoad_def LUI_fields del: encode.simps)
  then show ?thesis
    using step_plain [OF assms(1,2), of m io] o n put_write [OF r n] by (simp del: encode.simps)
qed

lemma exec_ADDI:
  assumes "unhalted p s" "arch_instr s = encode (ADDI rd rs1 v)" "asm_ok (ADDI rd rs1 v) s"
  shows "arch_step m p io s = (asm_exec (ADDI rd rs1 v) s)\<lparr>a_pc := next_pc s\<rparr>"
proof -
  let ?i = "encode (ADDI rd rs1 v)"
  have o: "opcode5 ?i = 4" by (simp add: opcode5_def ADDI_fields del: encode.simps)
  then have n: "\<not> isBranch ?i" "\<not> isStore ?i" by (simp_all add: isBranch_def isStore_def)
  have r: "rs1Id ?i = unat rs1" "rdId ?i = unat rd"
    using assms(3) by (simp_all add: rs1Id_def rdId_def ADDI_fields reg5 del: encode.simps)
  have "aluOut_base True ?i (a_regs s (unat rs1)) x = a_regs s (unat rs1) + sext12 v" for x
    using o n by (simp add: aluOut_base_def funct3_def ADDI_fields aluPlus_def aluIn2_def isALUreg_def Let_def del: encode.simps)
  then have "arch_wb s (arch_data p io s) = a_regs s (unat rs1) + sext12 v"
    using o by (simp add: arch_wb_def assms(2) writeBackData_def isSYSTEM_def isLUI_def isALUreg_def isALUimm_def isAUIPC_def
      isJALR_def isJAL_def isLoad_def arch_rs1_def r del: encode.simps)
  then show ?thesis
    using step_plain [OF assms(1,2), of m io] o n put_write [OF r(2) n] by (simp del: encode.simps)
qed

lemma step_system:
  assumes "unhalted p s" "arch_instr s = i" "opcode5 i = 28" "funct3 i \<noteq> 0"
  shows "arch_step m p io s = s\<lparr>a_pc := next_pc s,
    a_regs := write_reg i (CSR_read i (a_csrs s)) (a_regs s),
    a_csrs := (let v = CSR_write i (arch_rs1 s) (a_csrs s)
               in (a_csrs s)\<lparr>csr_mstatus := (if sel_csr 0x300 i then bit v 3 else csr_mstatus (a_csrs s)),
                             csr_mepc := (if sel_csr 0x341 i then ucast v else csr_mepc (a_csrs s))\<rparr>)\<rparr>"
proof -
  have n: "\<not> isJALR i" "\<not> isJAL i" "\<not> isBranch i" "isSYSTEM i" "\<not> isStore i" "\<not> is_mret i" "\<not> is_env_trap i" "csr_wr_en True i"
    using assms(3,4) by (auto simp: isJALR_def isJAL_def isBranch_def isSYSTEM_def isStore_def is_mret_def is_env_trap_def csr_wr_en_def)
  then have pc: "arch_pc_new s = next_pc s" by (simp add: arch_pc_new_def assms(2) PC_new_def)
  have wb: "arch_wb s (arch_data p io s) = CSR_read i (a_csrs s)"
    using n assms(3) by (simp add: arch_wb_def assms(2) writeBackData_def isLUI_def isALUreg_def isALUimm_def isAUIPC_def isLoad_def)
  have "\<not> dbg_halt_accepted True p (a_csrs s)" using assms(1) by (simp add: unhalted_def dbg_halt_accepted_def)
  then show ?thesis
    using unhalted_trap [OF assms(1), of i] n pc wb
    by (intro arch.equality) (simp_all add: arch_step_fields assms(2) csr_clk_def Let_def)
qed

lemma exec_CSRR:
  assumes "unhalted p s" "arch_instr s = encode (CSRR rd csr)" "asm_ok (CSRR rd csr) s"
  shows "arch_step m p io s = (asm_exec (CSRR rd csr) s)\<lparr>a_pc := next_pc s\<rparr>"
proof -
  let ?i = "encode (CSRR rd csr)"
  have o: "opcode5 ?i = 28" "funct3 ?i \<noteq> 0" "\<not> isBranch ?i" "\<not> isStore ?i"
    by (simp_all add: opcode5_def funct3_def isBranch_def isStore_def CSRR_fields del: encode.simps)
  have r: "rs1Id ?i = 0" "rdId ?i = unat rd"
    using assms(3) by (simp_all add: rs1Id_def rdId_def CSRR_fields reg5 del: encode.simps)
  have c: "csr = 0x341 \<or> csr = 0x342" "arch_rs1 s = 0" using assms(3) by (auto simp: arch_rs1_def assms(2) r simp del: encode.simps)
  have b: "bits 11 0 csr = csr" using c(1) by (auto simp: bits_def)
  have sel: "sel_csr n ?i \<longleftrightarrow> csr = n" for n by (simp add: sel_csr_def CSRR_fields b del: encode.simps)
  have w: "CSR_write ?i (arch_rs1 s) (a_csrs s) = CSR_read ?i (a_csrs s)"
    by (simp add: CSR_write_def CSR_modifier_def CSRR_fields c(2) del: encode.simps)
  have v: "CSR_read ?i (a_csrs s) = (if csr = 0x341 then ucast (csr_mepc (a_csrs s)) else mcause_read (a_csrs s))"
    unfolding CSR_read_def sel using c(1) by auto
  show ?thesis
    unfolding step_system [OF assms(1,2) o(1,2)] w put_write [OF r(2) o(3,4)] Let_def sel v
    using c(1) by (auto simp: ucast14_back simp del: encode.simps)
qed

lemma exec_CSRW:
  assumes "unhalted p s" "arch_instr s = encode (CSRW csr rs1)" "asm_ok (CSRW csr rs1) s"
  shows "arch_step m p io s = (asm_exec (CSRW csr rs1) s)\<lparr>a_pc := next_pc s\<rparr>"
proof -
  let ?i = "encode (CSRW csr rs1)"
  have o: "opcode5 ?i = 28" "funct3 ?i \<noteq> 0"
    by (simp_all add: opcode5_def funct3_def CSRW_fields del: encode.simps)
  have r: "rs1Id ?i = unat rs1" "rdId ?i = 0"
    using assms(3) by (simp_all add: rs1Id_def rdId_def CSRW_fields reg5 del: encode.simps)
  have b: "bits 11 0 csr = csr" using assms(3) by (simp add: bits_def)
  have sel: "sel_csr n ?i \<longleftrightarrow> csr = n" for n by (simp add: sel_csr_def CSRW_fields b del: encode.simps)
  have w: "CSR_write ?i (arch_rs1 s) (a_csrs s) = a_regs s (unat rs1)"
    by (simp add: CSR_write_def CSR_modifier_def CSRW_fields arch_rs1_def assms(2) r del: encode.simps)
  have c: "sel_csr 0x341 ?i" "\<not> sel_csr 0x300 ?i" unfolding sel using assms(3) by simp_all
  show ?thesis
    unfolding step_system [OF assms(1,2) o(1,2)] w by (simp add: c Let_def write_reg_def r del: encode.simps)
qed

lemma exec_asm:
  assumes "unhalted p s" "arch_instr s = encode i" "asm_ok i s"
  shows "arch_step m p io s = (asm_exec i s)\<lparr>a_pc := next_pc s\<rparr>"
  using assms by (cases i) (simp_all only: exec_SW exec_LW exec_LUI exec_ADDI exec_CSRR exec_CSRW)

section \<open>Listings\<close>

lemma asm_exec_pc: "asm_exec i (s\<lparr>a_pc := x\<rparr>) = (asm_exec i s)\<lparr>a_pc := x\<rparr>"
  by (cases i) (simp_all add: asm_addr_def)

lemma asm_ok_pc: "asm_ok i (s\<lparr>a_pc := x\<rparr>) = asm_ok i s"
  by (cases i) (simp_all add: asm_addr_def)

lemma asm_exec_rom: "a_rom (asm_exec i s) = a_rom s" "csr_mcause (a_csrs (asm_exec i s)) = csr_mcause (a_csrs s)"
  by (cases i; simp)+

fun asm_oks :: "asm list \<Rightarrow> arch \<Rightarrow> bool" where
  "asm_oks [] s = True"
| "asm_oks (i # is) s = (asm_ok i s \<and> asm_oks is (asm_exec i s))"

lemma asm_oks_append: "asm_oks (is @ js) s \<longleftrightarrow> asm_oks is s \<and> asm_oks js (fold asm_exec is s)"
  by (induction "is" arbitrary: s) auto

lemma asm_oks_pc: "asm_oks is (s\<lparr>a_pc := x\<rparr>) = asm_oks is s"
  by (induction "is" arbitrary: s) (simp_all add: asm_ok_pc asm_exec_pc)

lemma fold_exec_pc: "fold asm_exec is (s\<lparr>a_pc := x\<rparr>) = (fold asm_exec is s)\<lparr>a_pc := x\<rparr>"
  by (induction "is" arbitrary: s) (simp_all add: asm_exec_pc)

text \<open>The ROM holds a listing from an address on; where it ends.\<close>

definition rom_fetch :: "arch \<Rightarrow> 14 word \<Rightarrow> u32" where "rom_fetch s pc = arch_fetch (s\<lparr>a_pc := pc\<rparr>)"

fun code_at :: "arch \<Rightarrow> 14 word \<Rightarrow> asm list \<Rightarrow> bool" where
  "code_at s pc [] = True"
| "code_at s pc (i # is) = (page_sel (ucast pc) = 1 \<and> page_sel (ucast (pc + 4)) = 1 \<and>
     decompressor (rom_fetch s pc) = encode i \<and> code_at s (PCinc pc (long_instr (rom_fetch s pc))) is)"

fun code_end :: "arch \<Rightarrow> 14 word \<Rightarrow> asm list \<Rightarrow> 14 word" where
  "code_end s pc [] = pc"
| "code_end s pc (i # is) = code_end s (PCinc pc (long_instr (rom_fetch s pc))) is"

lemma rom_fetch_cong:
  assumes "a_rom t = a_rom s" "page_sel (ucast pc) = 1" "page_sel (ucast (pc + 4)) = 1"
  shows "rom_fetch t pc = rom_fetch s pc"
  using assms by (simp add: rom_fetch_def arch_fetch_def arch_word_def Let_def)

lemma code_cong:
  assumes "a_rom t = a_rom s" "code_at s pc is"
  shows "code_at t pc is \<and> code_end t pc is = code_end s pc is"
  using assms(2) by (induction "is" arbitrary: pc) (simp_all add: rom_fetch_cong [OF assms(1)])

lemma asm_run:
  assumes "code_at s (a_pc s) is" "asm_oks is s" "csr_mcause (a_csrs s)" "\<forall>p \<in> set ps. \<not> dbg_halt_req p" "length ps = length is"
  shows "arch_run m ps s = (fold asm_exec is s)\<lparr>a_pc := code_end s (a_pc s) is\<rparr>"
  using assms
proof (induction "is" arbitrary: s ps)
  case Nil
  then show ?case by (simp add: arch_run_def)
next
  case (Cons i "is")
  then obtain p qs where ps: "ps = p # qs" by (auto simp: length_Suc_conv)
  have f: "rom_fetch s (a_pc s) = arch_fetch s" by (simp add: rom_fetch_def)
  let ?t = "(asm_exec i s)\<lparr>a_pc := next_pc s\<rparr>"
  have st: "arch_step m p (io_rdata p) s = ?t"
    using Cons.prems ps f by (intro exec_asm) (simp_all add: unhalted_def arch_instr_def)
  have r: "a_rom ?t = a_rom s" by (simp add: asm_exec_rom)
  have c: "code_at s (next_pc s) is" using Cons.prems(1) f by simp
  have "arch_run m qs ?t = (fold asm_exec is ?t)\<lparr>a_pc := code_end ?t (a_pc ?t) is\<rparr>"
    using Cons.prems ps code_cong [OF r c] by (intro Cons.IH) (simp_all add: asm_oks_pc asm_exec_rom)
  then show ?case
    using st code_cong [OF r c] f by (simp add: ps arch_run_def fold_exec_pc)
qed

section \<open>Addresses\<close>

lemma sext12_value: "sext12 v = take_bit 12 v - (if bit v 11 then 0x1000 else 0)"
proof -
  have "push_bit 12 (take_bit 20 (rep 20 (bit v 11))) + take_bit 12 v = push_bit 12 (take_bit 20 (rep 20 (bit v 11))) OR take_bit 12 v"
    by (rule disjunctive_add) (auto simp: bit_simps)
  then have "sext12 v = push_bit 12 (take_bit 20 (rep 20 (bit v 11))) + take_bit 12 v" by (simp add: sext12_def)
  moreover have "push_bit 12 (take_bit 20 (rep 20 True)) = (- 0x1000 :: u32)" by code_simp
  ultimately show ?thesis by (simp add: rep_def)
qed

lemma sext12_small: "v < 0x800 \<Longrightarrow> sext12 v = v"
proof -
  assume v: "v < 0x800"
  then have "take_bit 11 v = v" by (simp add: word_less_nat_alt word_unat_eq_iff unsigned_take_bit_eq take_bit_nat_eq_self_iff)
  then have "\<not> bit v 11" using bit_take_bit_iff [of 11 v 11] by simp
  moreover have "take_bit 12 v = v" using v by (intro in_ram_take) (simp add: in_ram_def word_less_nat_alt)
  ultimately show ?thesis by (simp add: sext12_value)
qed

lemma hi_lo:
  assumes "in_ram v"
  shows "push_bit 12 (hi20 v) + sext12 (lo12 v) = v"
proof -
  have k: "unat v < 4096" using assms by (simp add: in_ram_def word_less_nat_alt)
  then have a: "unat (v + 0x800) = unat v + 2048" by (simp add: unat_word_ariths)
  have "unat (hi20 v) = (unat v + 2048) div 4096"
    unfolding hi20_def bits_def using k
    by (simp only: unsigned_take_bit_eq unsigned_drop_bit_eq a)
      (simp add: drop_bit_eq_div take_bit_nat_eq_self)
  moreover have lo: "lo12 v = v" using in_ram_take [OF assms] by (simp add: lo12_def bits_def)
  moreover have t: "take_bit 12 v = v" by (rule in_ram_take [OF assms])
  moreover have "bit v 11 \<longleftrightarrow> 2048 \<le> unat v"
  proof -
    have "bit v 11 \<longleftrightarrow> bit (unat v) 11" by (simp add: bit_unsigned_iff)
    also have "\<dots> \<longleftrightarrow> odd (unat v div 2048)" by (simp add: bit_iff_odd)
    also have "\<dots> \<longleftrightarrow> 2048 \<le> unat v"
    proof (cases "unat v < 2048")
      case False
      with k have "unat v div 2048 = 1" by (simp add: div_nat_eqI)
      with False show ?thesis by simp
    qed simp
    finally show ?thesis .
  qed
  moreover have "hi20 v = (if 2048 \<le> unat v then 1 else 0)"
  proof -
    have "unat (hi20 v) = (if 2048 \<le> unat v then 1 else 0)"
      using \<open>unat (hi20 v) = _\<close> k by (auto intro: div_nat_eqI)
    then show ?thesis by (simp add: word_unat_eq_iff)
  qed
  ultimately show ?thesis by (simp add: sext12_value)
qed

lemma word_in_ram_iff: "word_in_ram a \<longleftrightarrow> unat a < 4096 \<and> unat a mod 4 = 0"
proof -
  have "\<not> bit a 0 \<and> \<not> bit a 1 \<longleftrightarrow> take_bit 2 (unat a) = 0"
  proof -
    have "take_bit 2 (unat a) = 0 \<longleftrightarrow> (\<forall>n < 2. \<not> bit (unat a) n)"
      by (auto simp: bit_eq_iff bit_take_bit_iff)
    also have "\<dots> \<longleftrightarrow> \<not> bit (unat a) 0 \<and> \<not> bit (unat a) 1" by (auto simp: less_Suc_eq numeral_2_eq_2)
    finally show ?thesis by (simp add: bit_unsigned_iff)
  qed
  then show ?thesis by (auto simp: word_in_ram_def in_ram_def word_less_nat_alt take_bit_eq_mod)
qed

lemma unat_waddr: "in_ram a \<Longrightarrow> unat (ram_waddr a) = unat a div 4"
proof -
  assume r: "in_ram a"
  have "ram_waddr a = drop_bit 2 a"
    unfolding ram_waddr_def bits_def
  proof (rule bit_word_eqI)
    fix n
    have "bit a (2 + n) \<longrightarrow> n < 10" using in_ram_bit [OF r, of "2 + n"] by (cases "n < 10") auto
    then show "bit (take_bit (Suc 11 - 2) (drop_bit 2 a)) n = bit (drop_bit 2 a) n"
      by (simp add: bit_take_bit_iff bit_drop_bit_eq) blast
  qed
  then show ?thesis using r
    by (simp only: unsigned_drop_bit_eq) (simp add: drop_bit_eq_div take_bit_nat_eq_self in_ram_def word_less_nat_alt)
qed

end
