(* ===== verification/Entry_Code.thy ===== *)
theory Entry_Code
  imports Core_Assembly
begin

text \<open>
  The entry code of the stub, sw/crt0_stub.S for RV32I, linked without relaxation: the instructions
  that save the registers to \<open>g_regs\<close> before \<open>gdb_stub_entry\<close> is called and the ones that restore
  them afterwards, as listings run on the core's instruction step.
\<close>

section \<open>The entry and exit code\<close>

text \<open>\<open>G\<close> is the address of \<open>g_regs\<close>, \<open>S\<close> that of \<open>__sp_save\<close>, \<open>T\<close> the top of the stub's stack.\<close>

definition saved :: "u32 list" where
  "saved = [1, 3, 4, 5, 6, 7, 8, 9, 10, 11, 12, 13, 14, 15, 16, 17, 18, 19, 20, 21, 22, 23, 24, 25, 26, 27, 28, 29, 30, 31]"

definition save_code :: "u32 \<Rightarrow> u32 \<Rightarrow> u32 \<Rightarrow> asm list" where
  "save_code G S T = [SW 2 S 0, LUI 2 (hi20 G), ADDI 2 2 (lo12 G)] @ map (\<lambda>r. SW r (4 * r) 2) saved @
     [LW 5 S 0, SW 5 8 2, CSRR 5 0x341, SW 5 128 2, CSRR 10 0x342, LUI 2 (hi20 T), ADDI 2 2 (lo12 T)]"

definition restore_code :: "u32 \<Rightarrow> asm list" where
  "restore_code G = [LUI 2 (hi20 G), ADDI 2 2 (lo12 G), LW 5 128 2, CSRW 0x341 5] @ map (\<lambda>r. LW r (4 * r) 2) saved @ [LW 2 8 2]"

definition stub_layout :: "u32 \<Rightarrow> u32 \<Rightarrow> u32 \<Rightarrow> bool" where
  "stub_layout G S T \<longleftrightarrow> word_in_ram G \<and> unat G + 132 \<le> 4096 \<and> word_in_ram S \<and> S < 0x800 \<and> in_ram T \<and>
     (unat S < unat G \<or> unat G + 132 \<le> unat S)"

text \<open>The word of RAM that holds \<open>g_regs[i]\<close>.\<close>

definition slot_word :: "u32 \<Rightarrow> u32 \<Rightarrow> u32" where "slot_word G i = ram_waddr (G + 4 * i)"

lemma slot_addr:
  assumes "stub_layout G S T" "i \<le> 32"
  shows "word_in_ram (G + 4 * i)" "unat (slot_word G i) = unat G div 4 + unat i" "sext12 (4 * i) = 4 * i"
proof -
  have i: "unat i \<le> 32" using assms(2) by (simp add: word_le_nat_alt)
  have m: "unat (4 * i) = 4 * unat i" using i by (simp add: unat_word_ariths)
  have g: "unat G + 132 \<le> 4096" "unat G mod 4 = 0" using assms(1) by (auto simp: stub_layout_def word_in_ram_iff)
  have u: "unat (G + 4 * i) = unat G + 4 * unat i" using g i m by (simp add: unat_word_ariths(1))
  show w: "word_in_ram (G + 4 * i)" using g i by (simp add: word_in_ram_iff u mod_mult_self2)
  then show "unat (slot_word G i) = unat G div 4 + unat i"
    using unat_waddr [of "G + 4 * i"] by (simp add: slot_word_def word_in_ram_def u)
  show "sext12 (4 * i) = 4 * i" using i m by (intro sext12_small) (simp add: word_less_nat_alt)
qed

lemma slot_eq: "stub_layout G S T \<Longrightarrow> i \<le> 32 \<Longrightarrow> j \<le> 32 \<Longrightarrow> slot_word G i = slot_word G j \<longleftrightarrow> i = j"
  using slot_addr(2) by (auto simp: word_unat_eq_iff)

lemma sp_save_addr:
  assumes "stub_layout G S T"
  shows "word_in_ram S" "sext12 S = S" "i \<le> 32 \<Longrightarrow> slot_word G i \<noteq> ram_waddr S" "i \<le> 32 \<Longrightarrow> ram_waddr S \<noteq> slot_word G i"
proof -
  show w: "word_in_ram S" and "sext12 S = S" using assms sext12_small by (auto simp: stub_layout_def)
  show n: "slot_word G i \<noteq> ram_waddr S" if "i \<le> 32" for i
  proof
    assume "slot_word G i = ram_waddr S"
    then have "unat S div 4 = unat G div 4 + unat i"
      using slot_addr(2) [OF assms that] unat_waddr [of S] w by (simp add: word_in_ram_def)
    moreover have "unat i \<le> 32" using that by (simp add: word_le_nat_alt)
    moreover have m: "unat S mod 4 = 0" "unat G mod 4 = 0" and d: "unat S < unat G \<or> unat G + 132 \<le> unat S"
      using assms by (auto simp: stub_layout_def word_in_ram_iff)
    moreover have "unat S = 4 * (unat S div 4)" "unat G = 4 * (unat G div 4)" using m by presburger+
    ultimately show False using d by linarith
  qed
  then show "ram_waddr S \<noteq> slot_word G i" if "i \<le> 32" using that by metis
qed

lemma store_regs:
  assumes "a_regs s 2 = G" "\<forall>r \<in> set rs. r < 32 \<and> word_in_ram (G + 4 * r) \<and> sext12 (4 * r) = 4 * r"
  shows "fold asm_exec (map (\<lambda>r. SW r (4 * r) 2) rs) s =
    s\<lparr>a_ram := fold (\<lambda>r m. m(slot_word G r := a_regs s (unat r))) rs (a_ram s)\<rparr>"
    "asm_oks (map (\<lambda>r. SW r (4 * r) 2) rs) s"
  using assms by (induction rs arbitrary: s) (simp_all add: asm_addr_def slot_word_def)

lemma load_regs:
  assumes "a_regs s 2 = G" "a_ram s = M"
    "\<forall>r \<in> set rs. r < 32 \<and> r \<noteq> 2 \<and> r \<noteq> 0 \<and> word_in_ram (G + 4 * r) \<and> sext12 (4 * r) = 4 * r"
  shows "fold asm_exec (map (\<lambda>r. LW r (4 * r) 2) rs) s = s\<lparr>a_regs := fold (\<lambda>r g. g(unat r := M (slot_word G r))) rs (a_regs s)\<rparr> \<and>
    asm_oks (map (\<lambda>r. LW r (4 * r) 2) rs) s"
  using assms
proof (induction rs arbitrary: s)
  case (Cons r rs)
  have "unat r \<noteq> 2" using Cons.prems(3) by (auto simp: word_unat_eq_iff)
  then show ?case
    using Cons by (simp add: asm_addr_def slot_word_def put_reg_def del: fun_upd_apply) (simp add: fun_upd_def)
qed simp

lemma fold_upd_in: "inj_on f (set rs) \<Longrightarrow> r \<in> set rs \<Longrightarrow> fold (\<lambda>r m. m(f r := g r)) rs m (f r) = g r"
  by (induction rs rule: rev_induct) (auto simp: inj_on_def)

lemma fold_upd_out: "x \<notin> f ` set rs \<Longrightarrow> fold (\<lambda>r m. m(f r := g r)) rs m x = m x"
  by (induction rs rule: rev_induct) auto

lemma saved_set: "r \<in> set saved \<longleftrightarrow> r < 32 \<and> r \<noteq> 0 \<and> r \<noteq> 2"
proof
  have "list_all (\<lambda>r. r < 32 \<and> r \<noteq> 0 \<and> r \<noteq> 2) saved" by code_simp
  then have "\<forall>r \<in> set saved. r < 32 \<and> r \<noteq> 0 \<and> r \<noteq> 2" by (simp only: list_all_iff)
  then show "r < 32 \<and> r \<noteq> 0 \<and> r \<noteq> 2" if "r \<in> set saved" using that by blast
next
  assume r: "r < 32 \<and> r \<noteq> 0 \<and> r \<noteq> 2"
  have l: "list_all (\<lambda>n. n = 0 \<or> n = 2 \<or> List.member saved (word_of_nat n)) [0..<32]" by code_simp
  have "unat r < 32" "unat r \<noteq> 0" "unat r \<noteq> 2" using r by (auto simp: word_less_nat_alt word_unat_eq_iff)
  moreover have "\<forall>n \<in> set [0..<32]. n = 0 \<or> n = 2 \<or> List.member saved (word_of_nat n)" using l by (simp only: list_all_iff)
  then have "\<forall>n. n < 32 \<longrightarrow> n = 0 \<or> n = 2 \<or> List.member saved (word_of_nat n)" by (simp only: set_upt) simp
  then have "unat r < 32 \<longrightarrow> unat r = 0 \<or> unat r = 2 \<or> List.member saved (word_of_nat (unat r))" by blast
  ultimately show "r \<in> set saved" by simp
qed

text \<open>Saving.\<close>

lemma slots_ok:
  assumes "stub_layout G S T"
  shows "\<forall>r \<in> set saved. r < 32 \<and> r \<noteq> 2 \<and> r \<noteq> 0 \<and> word_in_ram (G + 4 * r) \<and> sext12 (4 * r) = 4 * r"
  using slot_addr(1,3) [OF assms] by (auto simp: saved_set)

lemma slots_inj: "stub_layout G S T \<Longrightarrow> inj_on (slot_word G) (set saved)"
  by (auto simp: inj_on_def saved_set slot_eq)

lemma reg_2_5: "unat (2 :: u32) = 2" "unat (5 :: u32) = 5" "unat (10 :: u32) = 10" by simp_all

lemma save_exec:
  assumes l: "stub_layout G S T" and z: "a_regs s 0 = 0"
  defines "M \<equiv> fold (\<lambda>r m. m(slot_word G r := a_regs s (unat r))) saved ((a_ram s)(ram_waddr S := a_regs s 2))"
  shows "fold asm_exec (save_code G S T) s =
    s\<lparr>a_regs := (a_regs s)(5 := ucast (csr_mepc (a_csrs s)), 10 := mcause_read (a_csrs s), 2 := T),
      a_ram := M(slot_word G 2 := a_regs s 2, slot_word G 32 := ucast (csr_mepc (a_csrs s)))\<rparr> \<and>
    asm_oks (save_code G S T) s"
proof -
  let ?s1 = "s\<lparr>a_regs := (a_regs s)(2 := G), a_ram := (a_ram s)(ram_waddr S := a_regs s 2)\<rparr>"
  note g = slots_ok [OF l] and sp = sp_save_addr [OF l]
  have ram: "in_ram G" "in_ram T" using l by (auto simp: stub_layout_def word_in_ram_def)
  have 1: "fold asm_exec [SW 2 S 0, LUI 2 (hi20 G), ADDI 2 2 (lo12 G)] s = ?s1"
    "asm_oks [SW 2 S 0, LUI 2 (hi20 G), ADDI 2 2 (lo12 G)] s"
    using z sp(1,2) hi_lo [OF ram(1)] by (simp_all add: asm_addr_def put_reg_def)
  have e: "fold (\<lambda>r m. m(slot_word G r := a_regs ?s1 (unat r))) saved (a_ram ?s1) = M"
  proof -
    have "unat r \<noteq> 2" if "r \<in> set saved" for r using that by (auto simp: saved_set word_unat_eq_iff)
    then show ?thesis unfolding M_def by (intro fold_cong) auto
  qed
  have 2: "fold asm_exec (map (\<lambda>r. SW r (4 * r) 2) saved) ?s1 = ?s1\<lparr>a_ram := M\<rparr>"
    "asm_oks (map (\<lambda>r. SW r (4 * r) 2) saved) ?s1"
    using store_regs [of ?s1 G saved] g e by auto
  have sp2: "M (ram_waddr S) = a_regs s 2"
  proof -
    have "ram_waddr S \<noteq> slot_word G r" if "r \<in> set saved" for r
      using sp(4) [of r] that by (simp add: saved_set less_imp_le)
    then show ?thesis unfolding M_def by (subst fold_upd_out) auto
  qed
  have a: "word_in_ram (G + 8)" "sext12 8 = 8" "word_in_ram (G + 128)" "sext12 128 = 128"
    using slot_addr [OF l, of 2] slot_addr [OF l, of 32] by simp_all
  have w: "ram_waddr (G + 8) = slot_word G 2" "ram_waddr (G + 128) = slot_word G 32" by (simp_all add: slot_word_def)
  show ?thesis
    unfolding save_code_def fold_append asm_oks_append o_apply 1 2
    using z sp(1,2) sp2 a w hi_lo [OF ram(2)] 1 2 by (simp add: asm_addr_def put_reg_def fun_upd_twist)
qed

text \<open>What the debugger finds in \<open>g_regs\<close>.\<close>

definition frame_of :: "u32 \<Rightarrow> arch \<Rightarrow> nat \<Rightarrow> u32" where
  "frame_of G s i = a_ram s (slot_word G (word_of_nat i))"

lemma nat_reg: "n < 32 \<Longrightarrow> n \<noteq> 0 \<Longrightarrow> n \<noteq> 2 \<Longrightarrow> (word_of_nat n :: u32) \<in> set saved"
  by (simp add: saved_set word_less_nat_alt word_unat_eq_iff unat_of_nat)

theorem save_code_saves:
  assumes "stub_layout G S T" "code_at s (a_pc s) (save_code G S T)" "csr_mcause (a_csrs s)" "a_regs s 0 = 0"
    and "\<forall>p \<in> set ps. \<not> dbg_halt_req p" "length ps = length (save_code G S T)"
  shows "let t = arch_run m ps s
    in a_pc t = code_end s (a_pc s) (save_code G S T) \<and>
       (\<forall>i \<in> {1..31}. frame_of G t i = a_regs s i) \<and> frame_of G t 32 = ucast (csr_mepc (a_csrs s)) \<and>
       a_regs t 10 = mcause_read (a_csrs s) \<and> a_regs t 2 = T \<and> a_regs t 0 = 0 \<and>
       (\<forall>w. w \<noteq> ram_waddr S \<and> w \<notin> slot_word G ` {1..32} \<longrightarrow> a_ram t w = a_ram s w) \<and>
       a_rom t = a_rom s \<and> a_csrs t = a_csrs s"
proof -
  note l = assms(1) and e = save_exec [OF assms(1,4)]
  define M where "M = fold (\<lambda>r m. m(slot_word G r := a_regs s (unat r))) saved ((a_ram s)(ram_waddr S := a_regs s 2))"
  let ?t = "arch_run m ps s"
  have t: "?t = s\<lparr>a_pc := code_end s (a_pc s) (save_code G S T),
      a_regs := (a_regs s)(5 := ucast (csr_mepc (a_csrs s)), 10 := mcause_read (a_csrs s), 2 := T),
      a_ram := M(slot_word G 2 := a_regs s 2, slot_word G 32 := ucast (csr_mepc (a_csrs s)))\<rparr>"
    using asm_run [OF assms(2) _ assms(3,5,6)] e by (simp add: M_def)
  have regs: "M (slot_word G r) = a_regs s (unat r)" if "r \<in> set saved" for r
    unfolding M_def by (rule fold_upd_in [OF slots_inj [OF l] that])
  have f: "frame_of G ?t i = a_regs s i" if "i \<in> {1..31}" for i
  proof -
    have i: "(word_of_nat i :: u32) \<le> 32" "(word_of_nat i :: u32) \<noteq> 32" "unat (word_of_nat i :: u32) = i"
      using that by (auto simp: word_le_nat_alt word_unat_eq_iff unat_of_nat)
    show ?thesis
    proof (cases "i = 2")
      case True
      then show ?thesis using slot_eq [OF l, of 2 32] by (simp add: t frame_of_def)
    next
      case False
      then have "(word_of_nat i :: u32) \<noteq> 2" using i(3) by auto
      then show ?thesis
        using slot_eq [OF l i(1), of 2] slot_eq [OF l i(1), of 32] i regs [OF nat_reg] False that by (simp add: t frame_of_def)
    qed
  qed
  have o: "a_ram ?t w = a_ram s w" if "w \<noteq> ram_waddr S" "w \<notin> slot_word G ` {1..32}" for w
  proof -
    have "slot_word G ` set saved \<subseteq> slot_word G ` {1..32}"
      by (intro image_mono) (auto simp: saved_set word_less_nat_alt word_le_nat_alt word_unat_eq_iff)
    moreover have "slot_word G 2 \<in> slot_word G ` {1..32}" "slot_word G 32 \<in> slot_word G ` {1..32}" by simp_all
    ultimately have "w \<notin> slot_word G ` set saved" "w \<noteq> slot_word G 2" "w \<noteq> slot_word G 32" using that(2) by blast+
    then show ?thesis using that(1) by (simp add: t M_def fold_upd_out)
  qed
  show ?thesis using f o assms(4) by (simp add: t Let_def frame_of_def)
qed

text \<open>Restoring.\<close>

lemma restore_exec:
  assumes l: "stub_layout G S T" and m: "m = a_ram s"
  shows "fold asm_exec (restore_code G) s =
    s\<lparr>a_regs := (fold (\<lambda>r g. g(unat r := m (slot_word G r))) saved ((a_regs s)(2 := G, 5 := m (slot_word G 32))))(2 := m (slot_word G 2)),
      a_csrs := (a_csrs s)\<lparr>csr_mepc := ucast (m (slot_word G 32))\<rparr>\<rparr> \<and>
    asm_oks (restore_code G) s"
proof -
  let ?l1 = "[LUI 2 (hi20 G), ADDI 2 2 (lo12 G), LW 5 128 2, CSRW 0x341 5]"
  let ?s1 = "s\<lparr>a_regs := (a_regs s)(2 := G, 5 := m (slot_word G 32)), a_csrs := (a_csrs s)\<lparr>csr_mepc := ucast (m (slot_word G 32))\<rparr>\<rparr>"
  let ?R = "fold (\<lambda>r g. g(unat r := m (slot_word G r))) saved (a_regs ?s1)"
  have ram: "in_ram G" using l by (auto simp: stub_layout_def word_in_ram_def)
  have a: "word_in_ram (G + 8)" "sext12 8 = 8" "word_in_ram (G + 128)" "sext12 128 = 128"
    using slot_addr [OF l, of 2] slot_addr [OF l, of 32] by simp_all
  have w: "ram_waddr (G + 8) = slot_word G 2" "ram_waddr (G + 128) = slot_word G 32" by (simp_all add: slot_word_def)
  have 1: "fold asm_exec ?l1 s = ?s1" "asm_oks ?l1 s"
    using hi_lo [OF ram] a w m by (simp_all add: asm_addr_def put_reg_def)
  have 2: "fold asm_exec (map (\<lambda>r. LW r (4 * r) 2) saved) ?s1 = ?s1\<lparr>a_regs := ?R\<rparr>"
    "asm_oks (map (\<lambda>r. LW r (4 * r) 2) saved) ?s1"
    using load_regs [of ?s1 G m saved] slots_ok [OF l] m by auto
  have "2 \<notin> unat ` set saved"
  proof -
    have "unat r \<noteq> 2" if "r \<in> set saved" for r using that by (auto simp: saved_set word_unat_eq_iff)
    then show ?thesis by force
  qed
  then have sp: "?R 2 = G" by (subst fold_upd_out) simp_all
  show ?thesis
    unfolding restore_code_def fold_append asm_oks_append o_apply 1 2
    using a w sp m 1 2 by (simp add: asm_addr_def put_reg_def)
qed

theorem restore_code_restores:
  assumes "stub_layout G S T" "code_at s (a_pc s) (restore_code G)" "csr_mcause (a_csrs s)"
    and "\<forall>p \<in> set ps. \<not> dbg_halt_req p" "length ps = length (restore_code G)"
  shows "let t = arch_run m ps s
    in a_pc t = code_end s (a_pc s) (restore_code G) \<and> (\<forall>i \<in> {1..31}. a_regs t i = frame_of G s i) \<and>
       a_csrs t = (a_csrs s)\<lparr>csr_mepc := ucast (frame_of G s 32)\<rparr> \<and> a_ram t = a_ram s \<and> a_rom t = a_rom s"
proof -
  note l = assms(1) and e = restore_exec [OF assms(1) refl, of s]
  let ?t = "arch_run m ps s"
  define R where "R = fold (\<lambda>r g. g(unat r := a_ram s (slot_word G r))) saved
      ((a_regs s)(2 := G, 5 := a_ram s (slot_word G 32)))"
  have t: "?t = s\<lparr>a_pc := code_end s (a_pc s) (restore_code G), a_regs := R(2 := a_ram s (slot_word G 2)),
      a_csrs := (a_csrs s)\<lparr>csr_mepc := ucast (a_ram s (slot_word G 32))\<rparr>\<rparr>"
    using asm_run [OF assms(2) _ assms(3-5)] e by (simp add: R_def)
  have "a_regs ?t i = frame_of G s i" if "i \<in> {1..31}" for i
  proof (cases "i = 2")
    case False
    have i: "unat (word_of_nat i :: u32) = i" using that by (simp add: unat_of_nat)
    have "inj_on (unat :: u32 \<Rightarrow> nat) (set saved)" by (auto simp: inj_on_def word_unat_eq_iff)
    from fold_upd_in [OF this nat_reg, of i] i that False have "R i = a_ram s (slot_word G (word_of_nat i))"
      by (simp add: R_def)
    then show ?thesis using False by (simp add: t frame_of_def)
  qed (simp add: t frame_of_def)
  then show ?thesis by (simp add: t Let_def frame_of_def)
qed

section \<open>A visit of the debugger\<close>

lemma write_reg_0: "write_reg i v r 0 = r 0"
  by (simp add: write_reg_def)

lemma async_state:
  assumes "async_trap p u"
  shows "a_pc (arch_step m p io u) = m" "csr_mcause (a_csrs (arch_step m p io u))" "a_regs (arch_step m p io u) 0 = a_regs u 0"
  using assms async_entry [OF assms] by (auto simp: arch_step_fields csr_clk_def write_reg_0 Let_def)

lemma mret_fields: "is_mret 0x30200073" "rdId 0x30200073 = 0" "\<not> isStore 0x30200073" "\<not> is_env_trap 0x30200073"
  by code_simp+

lemma mret_returns:
  assumes "arch_instr w = 0x30200073" "unhalted q w"
  shows "let r = arch_step m q io w in a_pc r = csr_mepc (a_csrs w) \<and> a_regs r = a_regs w \<and> a_ram r = a_ram w \<and>
    \<not> csr_mcause (a_csrs r) \<and> \<not> dbg_halt_mask (a_csrs r)"
proof -
  have t: "\<not> trap_entry True q (arch_instr w) (a_csrs w)"
    using unhalted_trap [OF assms(2)] by (simp add: assms(1) mret_fields)
  have i: "is_mret (arch_instr w)" by (simp add: assms(1) mret_fields)
  have "a_regs (arch_step m q io w) = a_regs w" "a_ram (arch_step m q io w) = a_ram w"
    by (simp_all add: arch_step_fields assms(1) write_reg_def mret_fields Let_def)
  then show ?thesis using mret_step(1-3) [OF i t] by (simp add: Let_def)
qed

text \<open>C2: A visit of the debugger is transparent to the program. The core is halted or interrupted at
  an instruction that is neither an environment call nor a load under an NMI or a debug halt,
  whose data the core loses. It runs the entry code of crt0_stub.S from ROM, then the stub,
  which leaves g_regs and the program memory as they are, then the exit code and mret: it
  continues at the address, with the 31 registers and the program memory, that the completed
  instruction alone would have left (a wfi counts as completed), and the handler lock is
  released. No debug halt arrives while the entry and exit code run.\<close>

theorem visit_transparent:
  assumes u: "async_trap p u" "\<not> env_trap_accepted True (arch_instr u) (a_csrs u)" "a_regs u 0 = 0"
      "\<not> cut_load p (arch_instr u) (a_csrs u)"
    and l: "stub_layout G S T" and "s = arch_step m p io u" "code_at s m (save_code G S T)"
      "\<forall>p \<in> set ps. \<not> dbg_halt_req p" "length ps = length (save_code G S T)"
    and v: "code_at v (a_pc v) (restore_code G)" "csr_mcause (a_csrs v)"
      "\<forall>i \<in> {1..32}. frame_of G v i = frame_of G (arch_run m ps s) i"
      "\<forall>w \<in> P. w \<noteq> ram_waddr S \<and> w \<notin> slot_word G ` {1..32} \<and> a_ram v w = a_ram (arch_run m ps s) w"
    and w: "\<forall>p \<in> set qs. \<not> dbg_halt_req p" "length qs = length (restore_code G)"
      "arch_instr (arch_run m qs v) = 0x30200073" "\<not> dbg_halt_req q"
  shows "let r = arch_step m q io' (arch_run m qs v); n = arch_step m (no_requests p) io u
    in a_pc r = a_pc n \<and> (\<forall>i \<in> {1..31}. a_regs r i = a_regs n i) \<and> (\<forall>w \<in> P. a_ram r w = a_ram n w) \<and>
       \<not> csr_mcause (a_csrs r) \<and> \<not> dbg_halt_mask (a_csrs r)"
proof -
  let ?n = "arch_step m (no_requests p) io u" and ?w = "arch_run m qs v"
  note s = async_state [OF u(1), of m io, folded assms(6)]
  have c: "code_at s (a_pc s) (save_code G S T)" using assms(7) s(1) by simp
  have z: "a_regs s 0 = 0" using s(3) u(3) by simp
  note sv = save_code_saves [OF l c s(2) z assms(8,9), unfolded Let_def]
  note rs = restore_code_restores [OF l v(1,2) w(1,2), unfolded Let_def]
  note pt = precise_step [OF u(1,2,4), of m io, folded assms(6), unfolded Let_def]
  have "unhalted q ?w" using rs v(2) w(4) by (simp add: unhalted_def)
  note mr = mret_returns [OF w(3) this, of m io', unfolded Let_def]
  have fr: "frame_of G v i = a_regs s i" if "i \<in> {1..31}" for i
    using sv v(3) that by auto
  have "frame_of G v 32 = ucast (csr_mepc (a_csrs s))" using sv v(3) by simp
  then have "csr_mepc (a_csrs ?w) = a_pc ?n" using rs pt by (simp add: ucast14_back)
  moreover have "a_regs ?w i = a_regs ?n i" if "i \<in> {1..31}" for i
    using rs fr [OF that] pt that by simp
  moreover have "a_ram ?w x = a_ram ?n x" if "x \<in> P" for x
    using rs sv v(4) pt that by simp
  ultimately show ?thesis using mr by (simp add: Let_def)
qed

section \<open>A sample ROM\<close>

definition demo_rom :: "u32 \<Rightarrow> u32" where
  "demo_rom w = (if w < 38 then (if w < 19 then (if w < 9 then (if w < 4 then (if w < 2 then (if w < 1 then 0x00202223 else
     0x00001137) else (if w < 3 then 0xf0010113 else 0x00112223)) else (if w < 6 then (if w < 5 then 0x00312623
     else 0x00412823) else (if w < 7 then 0x00512a23 else (if w < 8 then 0x00612c23 else 0x00712e23)))) else (if w
     < 14 then (if w < 11 then (if w < 10 then 0x02812023 else 0x02912223) else (if w < 12 then 0x02a12423 else (if
     w < 13 then 0x02b12623 else 0x02c12823))) else (if w < 16 then (if w < 15 then 0x02d12a23 else 0x02e12c23)
     else (if w < 17 then 0x02f12e23 else (if w < 18 then 0x05012023 else 0x05112223))))) else (if w < 28 then (if
     w < 23 then (if w < 21 then (if w < 20 then 0x05212423 else 0x05312623) else (if w < 22 then 0x05412823 else
     0x05512a23)) else (if w < 25 then (if w < 24 then 0x05612c23 else 0x05712e23) else (if w < 26 then 0x07812023
     else (if w < 27 then 0x07912223 else 0x07a12423)))) else (if w < 33 then (if w < 30 then (if w < 29 then
     0x07b12623 else 0x07c12823) else (if w < 31 then 0x07d12a23 else (if w < 32 then 0x07e12c23 else 0x07f12e23)))
     else (if w < 35 then (if w < 34 then 0x00402283 else 0x00512423) else (if w < 36 then 0x341022f3 else (if w <
     37 then 0x08512023 else 0x34202573)))))) else (if w < 57 then (if w < 47 then (if w < 42 then (if w < 40 then
     (if w < 39 then 0x00001137 else 0xe0010113) else (if w < 41 then 0x00001137 else 0xf0010113)) else (if w < 44
     then (if w < 43 then 0x08012283 else 0x34129073) else (if w < 45 then 0x00412083 else (if w < 46 then
     0x00c12183 else 0x01012203)))) else (if w < 52 then (if w < 49 then (if w < 48 then 0x01412283 else
     0x01812303) else (if w < 50 then 0x01c12383 else (if w < 51 then 0x02012403 else 0x02412483))) else (if w < 54
     then (if w < 53 then 0x02812503 else 0x02c12583) else (if w < 55 then 0x03012603 else (if w < 56 then
     0x03412683 else 0x03812703))))) else (if w < 66 then (if w < 61 then (if w < 59 then (if w < 58 then
     0x03c12783 else 0x04012803) else (if w < 60 then 0x04412883 else 0x04812903)) else (if w < 63 then (if w < 62
     then 0x04c12983 else 0x05012a03) else (if w < 64 then 0x05412a83 else (if w < 65 then 0x05812b03 else
     0x05c12b83)))) else (if w < 71 then (if w < 68 then (if w < 67 then 0x06012c03 else 0x06412c83) else (if w <
     69 then 0x06812d03 else (if w < 70 then 0x06c12d83 else 0x07012e03))) else (if w < 73 then (if w < 72 then
     0x07412e83 else 0x07812f03) else (if w < 74 then 0x07c12f83 else (if w < 75 then 0x00812103 else
     0x30200073)))))))"

definition demo_board :: arch where
  "demo_board = (arch_of (demo_core (code_words [(0, 0x00150513)]) False False 0))\<lparr>a_regs := (\<lambda>i. word_of_nat (3 * i)), a_rom := demo_rom\<rparr>"

lemma demo_layout: "stub_layout 0xF00 4 0xE00" by code_simp

lemma demo_save: "code_at demo_board 0x1000 (save_code 0xF00 4 0xE00)" "code_end demo_board 0x1000 (save_code 0xF00 4 0xE00) = 0x10A0"
  by code_simp+

lemma demo_restore: "code_at demo_board 0x10A0 (restore_code 0xF00)" "code_end demo_board 0x10A0 (restore_code 0xF00) = 0x112C"
  "decompressor (rom_fetch demo_board 0x112C) = 0x30200073" "page_sel (ucast (0x112C :: 14 word)) = 1" "page_sel (ucast (0x112C + 4 :: 14 word)) = 1"
  by code_simp+

lemma demo_trap: "async_trap (demo_pins False True) demo_board" "\<not> env_trap_accepted True (arch_instr demo_board) (a_csrs demo_board)"
  "a_regs demo_board 0 = 0" "\<not> cut_load (demo_pins False True) (arch_instr demo_board) (a_csrs demo_board)"
  "a_pc (arch_step 0x1000 (no_requests (demo_pins False True)) 0 demo_board) = 4"
  "a_regs (arch_step 0x1000 (no_requests (demo_pins False True)) 0 demo_board) 10 = 31"
  by code_simp+

lemma demo_pins_simps: "dbg_halt_req (demo_pins i h) = h" "interrupt_request (demo_pins i h) = i"
  by (simp_all add: demo_pins_def)

lemma demo_lengths: "length (save_code G S T) = 40" "length (restore_code G) = 35"
  by (simp_all add: save_code_def restore_code_def saved_def)

lemma save_code_saves_witness:
  "let s = demo_board\<lparr>a_pc := 0x1000, a_csrs := (a_csrs demo_board)\<lparr>csr_mcause := True, csr_mepc := 0x20\<rparr>\<rparr>;
       t = arch_run 0x1000 (replicate 40 (demo_pins True False)) s
   in frame_of 0xF00 t 7 = 21 \<and> frame_of 0xF00 t 32 = 0x20"
proof -
  let ?s = "demo_board\<lparr>a_pc := 0x1000, a_csrs := (a_csrs demo_board)\<lparr>csr_mcause := True, csr_mepc := 0x20\<rparr>\<rparr>"
  have "a_rom ?s = a_rom demo_board" by simp
  then have c: "code_at ?s (a_pc ?s) (save_code 0xF00 4 0xE00)" using code_cong demo_save(1) by simp
  have r: "a_regs ?s 7 = 21" "a_regs ?s 0 = 0" by (simp_all add: demo_board_def)
  have "7 \<in> {1..31 :: nat}" by simp
  then show ?thesis
    using save_code_saves [OF demo_layout c _ r(2), of "replicate 40 (demo_pins True False)" "0x1000"] r(1)
    by (simp add: demo_pins_simps demo_lengths Let_def)
qed

lemma visit_transparent_witness:
  "let p = demo_pins False True; q = demo_pins False False; s = arch_step 0x1000 p 0 demo_board;
       r = arch_step 0x1000 q 0 (arch_run 0x1000 (replicate 35 q) (arch_run 0x1000 (replicate 40 q) s))
   in a_pc r = 4 \<and> a_regs r 10 = 31 \<and> a_ram r 0 = 0x00150513"
proof -
  let ?p = "demo_pins False True" and ?q = "demo_pins False False"
  let ?s = "arch_step 0x1000 ?p 0 demo_board" and ?n = "arch_step 0x1000 (no_requests ?p) 0 demo_board"
  let ?v = "arch_run 0x1000 (replicate 40 ?q) ?s"
  let ?w = "arch_run 0x1000 (replicate 35 ?q) ?v"
  note st = async_state [OF demo_trap(1), of "0x1000" 0]
  have rom: "a_rom ?s = a_rom demo_board" by (simp add: arch_step_fields)
  note cs = code_cong [OF rom demo_save(1)]
  have len: "length (replicate 40 ?q) = length (save_code 0xF00 4 0xE00)" "length (replicate 35 ?q) = length (restore_code 0xF00)"
    by (simp_all add: demo_lengths)
  have nr: "\<forall>p \<in> set (replicate 40 ?q). \<not> dbg_halt_req p" "\<forall>p \<in> set (replicate 35 ?q). \<not> dbg_halt_req p" "\<not> dbg_halt_req ?q"
    by (simp_all add: demo_pins_simps)
  have c: "code_at ?s (a_pc ?s) (save_code 0xF00 4 0xE00)" using cs st(1) by simp
  have z: "a_regs ?s 0 = 0" using st(3) demo_trap(3) by simp
  note sv = save_code_saves [OF demo_layout c st(2) z nr(1) len(1), of "0x1000", unfolded Let_def]
  have vr: "a_rom ?v = a_rom demo_board" and vp: "a_pc ?v = 0x10A0" and vm: "csr_mcause (a_csrs ?v)"
    using sv rom cs st(1,2) demo_save(2) by simp_all
  have cv: "code_at ?v (a_pc ?v) (restore_code 0xF00)" unfolding vp using code_cong [OF vr demo_restore(1)] by simp
  note rs = restore_code_restores [OF demo_layout cv vm nr(2) len(2), of "0x1000", unfolded Let_def]
  have wr: "a_rom ?w = a_rom demo_board" and wp: "a_pc ?w = 0x112C"
    using rs vr code_cong [OF vr demo_restore(1)] demo_restore(2) by (simp_all add: vp)
  have "arch_instr ?w = decompressor (rom_fetch ?w (a_pc ?w))" by (simp add: arch_instr_def rom_fetch_def)
  also have "\<dots> = 0x30200073" unfolding wp rom_fetch_cong [OF wr demo_restore(4,5)] by (rule demo_restore(3))
  finally have i: "arch_instr ?w = 0x30200073" .
  have P: "\<forall>w \<in> {0}. w \<noteq> ram_waddr 4 \<and> w \<notin> slot_word 0xF00 ` {1..32} \<and> a_ram ?v w = a_ram ?v w"
  proof -
    have "0 \<noteq> slot_word 0xF00 i" if "i \<le> 32" for i
      using slot_addr(2) [OF demo_layout that] by (auto simp: word_unat_eq_iff)
    moreover have "ram_waddr 4 = 1" by code_simp
    ultimately show ?thesis by auto
  qed
  have n: "a_ram ?n 0 = 0x00150513"
    by (simp add: arch_step_fields) code_simp
  show ?thesis
    using visit_transparent [OF demo_trap(1-4) demo_layout refl cs [THEN conjunct1] nr(1) len(1) cv vm _ P nr(2) len(2) i nr(3), of 0]
      demo_trap(5,6) n by (simp add: Let_def)
qed

end
