(* ===== verification/Dbg_Uart.thy ===== *)
theory Dbg_Uart
  imports Machine_Prelude
begin

text \<open>
  The debug UART, rtl/dbg_uart.v, register by register: the synchroniser of the receive pin, the
  auto-baud calibration, receiver, transmitter and break detector, each as what one clock edge does
  to its registers. A register the reset does not initialise keeps its value.
\<close>

section \<open>Receive pin\<close>

record rx_line =
  rx_sync0 :: bool
  rx_sync1 :: bool
  rx_d :: bool

definition line_clk :: "bool \<Rightarrow> bool \<Rightarrow> rx_line \<Rightarrow> rx_line" where
  "line_clk resetn rx_pin l =
     (if resetn then \<lparr>rx_sync0 = rx_pin, rx_sync1 = rx_sync0 l, rx_d = rx_sync1 l\<rparr>
      else \<lparr>rx_sync0 = True, rx_sync1 = True, rx_d = True\<rparr>)"

definition rx_fall :: "rx_line \<Rightarrow> bool" where
  "rx_fall l \<longleftrightarrow> rx_d l \<and> \<not> rx_sync1 l"

section \<open>Auto-baud calibration\<close>

record autobaud =
  baud_div :: "10 word"
  baud_locked :: bool
  cal_cnt :: "13 word"
  cal_edge :: "3 word"
  cal_active :: bool

definition cal_count :: "bool \<Rightarrow> autobaud \<Rightarrow> autobaud" where
  "cal_count fall c =
     (let c1 = c\<lparr>cal_cnt := cal_cnt c + 1\<rparr>;
          c2 = (if fall
                then (if cal_edge c = 4
                      then c1\<lparr>baud_div := ucast (drop_bit 3 (cal_cnt c)), baud_locked := True, cal_active := False\<rparr>
                      else c1\<lparr>cal_edge := cal_edge c + 1\<rparr>)
                else c1)
      in if cal_cnt c = - 1 then c2\<lparr>cal_active := False\<rparr> else c2)"

definition cal_clk :: "bool \<Rightarrow> bool \<Rightarrow> autobaud \<Rightarrow> autobaud" where
  "cal_clk resetn fall c =
     (if \<not> resetn then c\<lparr>baud_locked := False, cal_active := False\<rparr>
      else if baud_locked c then c
      else if cal_active c then cal_count fall c
      else if fall then c\<lparr>cal_active := True, cal_cnt := 0, cal_edge := 1\<rparr>
      else c)"

section \<open>Receiver\<close>

record receiver =
  rx_timer :: "10 word"
  rx_bit :: "4 word"
  rx_sr :: u8
  rx_busy :: bool
  rd_data :: u8
  rd_valid :: bool

text \<open>The middle of a bit: the start bit is verified, a data bit shifted in, after the stop bit the
  byte is delivered; a wrong start bit or stop bit drops the frame.\<close>

definition rx_sample :: "10 word \<Rightarrow> bool \<Rightarrow> receiver \<Rightarrow> receiver" where
  "rx_sample d rx r =
     (let r1 = r\<lparr>rx_timer := d, rx_bit := rx_bit r + 1\<rparr>
      in if rx_bit r = 0 then (if rx then r1\<lparr>rx_busy := False\<rparr> else r1)
         else if rx_bit r \<le> 8 then r1\<lparr>rx_sr := push_bit 7 (of_bool rx) OR drop_bit 1 (rx_sr r)\<rparr>
         else if rx_bit r = 9
         then (if rx then r1\<lparr>rx_busy := False, rd_data := rx_sr r, rd_valid := True\<rparr> else r1\<lparr>rx_busy := False\<rparr>)
         else r1)"

definition rx_clk :: "bool \<Rightarrow> autobaud \<Rightarrow> bool \<Rightarrow> bool \<Rightarrow> bool \<Rightarrow> receiver \<Rightarrow> receiver" where
  "rx_clk resetn c fall rx rd_en r =
     (if \<not> resetn then r\<lparr>rx_busy := False, rd_valid := False\<rparr>
      else let r0 = (if rd_en \<and> rd_valid r then r\<lparr>rd_valid := False\<rparr> else r)
        in if baud_locked c \<and> \<not> rx_busy r \<and> fall
           then r0\<lparr>rx_busy := True, rx_timer := drop_bit 1 (baud_div c), rx_bit := 0\<rparr>
           else if rx_busy r
           then (if rx_timer r = 0 then rx_sample (baud_div c) rx r0 else r0\<lparr>rx_timer := rx_timer r - 1\<rparr>)
           else r0)"

section \<open>Transmitter\<close>

record transmitter =
  tx_timer :: "10 word"
  tx_bit :: "4 word"
  tx_sr :: u8
  tx_busy :: bool
  tx_pin :: bool

definition tx_next :: "10 word \<Rightarrow> transmitter \<Rightarrow> transmitter" where
  "tx_next d x =
     (let x1 = x\<lparr>tx_timer := d, tx_bit := tx_bit x + 1\<rparr>
      in if tx_bit x \<le> 7 then x1\<lparr>tx_pin := bit (tx_sr x) 0, tx_sr := drop_bit 1 (tx_sr x)\<rparr>
         else if tx_bit x = 8 then x1\<lparr>tx_pin := True\<rparr>
         else x1\<lparr>tx_busy := False\<rparr>)"

definition tx_clk :: "bool \<Rightarrow> autobaud \<Rightarrow> bool \<Rightarrow> u8 \<Rightarrow> transmitter \<Rightarrow> transmitter" where
  "tx_clk resetn c wr_en wr_data x =
     (if \<not> resetn then x\<lparr>tx_busy := False, tx_pin := True\<rparr>
      else if baud_locked c \<and> \<not> tx_busy x \<and> wr_en
      then x\<lparr>tx_busy := True, tx_sr := wr_data, tx_pin := False, tx_timer := baud_div c, tx_bit := 0\<rparr>
      else if tx_busy x
      then (if tx_timer x = 0 then tx_next (baud_div c) x else x\<lparr>tx_timer := tx_timer x - 1\<rparr>)
      else x)"

section \<open>Break detector\<close>

record brk_det =
  brk_timer :: "10 word"
  brk_bits :: "4 word"
  brk_prev :: bool

definition brk_now :: "brk_det \<Rightarrow> bool" where "brk_now k \<longleftrightarrow> brk_bits k = 12"
definition brk :: "brk_det \<Rightarrow> bool" where "brk k \<longleftrightarrow> brk_now k \<and> \<not> brk_prev k"

definition brk_clk :: "bool \<Rightarrow> autobaud \<Rightarrow> bool \<Rightarrow> brk_det \<Rightarrow> brk_det" where
  "brk_clk resetn c rx k =
     (if \<not> resetn then \<lparr>brk_timer = 0, brk_bits = 0, brk_prev = False\<rparr>
      else let k1 = k\<lparr>brk_prev := brk_now k\<rparr>
        in if \<not> baud_locked c then k1
           else if rx then k1\<lparr>brk_bits := 0, brk_timer := 0\<rparr>
           else if brk_timer k = baud_div c
           then k1\<lparr>brk_timer := 0, brk_bits := (if brk_now k then brk_bits k else brk_bits k + 1)\<rparr>
           else k1\<lparr>brk_timer := brk_timer k + 1\<rparr>)"

section \<open>The UART\<close>

record dbg_uart =
  u_line :: rx_line
  u_baud :: autobaud
  u_rx :: receiver
  u_tx :: transmitter
  u_brk :: brk_det

text \<open>What the CPU drives: a byte to write, and whether the data register is read.\<close>

definition dbg_uart_clk :: "bool \<Rightarrow> bool \<Rightarrow> u8 option \<Rightarrow> bool \<Rightarrow> dbg_uart \<Rightarrow> dbg_uart" where
  "dbg_uart_clk resetn rx_pin wr rd_en u =
     (let fall = rx_fall (u_line u); rx = rx_sync1 (u_line u)
      in \<lparr>u_line = line_clk resetn rx_pin (u_line u),
          u_baud = cal_clk resetn fall (u_baud u),
          u_rx = rx_clk resetn (u_baud u) fall rx rd_en (u_rx u),
          u_tx = tx_clk resetn (u_baud u) (wr \<noteq> None) (case wr of None \<Rightarrow> 0 | Some c \<Rightarrow> c) (u_tx u),
          u_brk = brk_clk resetn (u_baud u) rx (u_brk u)\<rparr>)"

definition tx_ready :: "dbg_uart \<Rightarrow> bool" where
  "tx_ready u \<longleftrightarrow> baud_locked (u_baud u) \<and> \<not> tx_busy (u_tx u)"

text \<open>The \<open>UART_STATUS\<close> register the SoC makes of it.\<close>

definition uart_status_reg :: "dbg_uart \<Rightarrow> u32" where
  "uart_status_reg u =
     vcat [(29, 0), (1, bit1 (baud_locked (u_baud u))), (1, bit1 (rd_valid (u_rx u))), (1, bit1 (tx_ready u))]"

end
