(* ===== verification/Uart_Frames.thy ===== *)
theory Uart_Frames
  imports Dbg_Uart
begin

text \<open>
  The parts of the debug UART over whole frames: for each a run over a number of clocks, as a
  function of what the receive pin shows, and the state it reaches in closed form. A frame is ten
  cells of \<open>bit_clocks\<close> clocks: start bit, eight data bits, stop bit.
\<close>

section \<open>Counters\<close>

definition bit_clocks :: "autobaud \<Rightarrow> nat" where "bit_clocks c = Suc (unat (baud_div c))"

lemma unat_small: "n < 16 \<Longrightarrow> unat (of_nat n :: 4 word) = n"
  by (simp add: unat_of_nat)

lemma small_le: "n < 16 \<Longrightarrow> m < 16 \<Longrightarrow> (of_nat n :: 4 word) \<le> of_nat m \<longleftrightarrow> n \<le> m"
  by (simp add: word_le_nat_alt unat_small)

lemma small_eq: "n < 16 \<Longrightarrow> m < 16 \<Longrightarrow> (of_nat n :: 4 word) = of_nat m \<longleftrightarrow> n = m"
  by (metis unat_small)

lemma count_pos: "n < unat w \<Longrightarrow> w - of_nat n \<noteq> (0 :: 'a :: len word)"
  by (metis eq_iff_diff_eq_0 unat_of_nat mod_less_eq_dividend not_le)

section \<open>Receiver\<close>

text \<open>\<open>s (Suc n)\<close> is the synchronised pin at clock \<open>n\<close>, \<open>s n\<close> the one before.\<close>

fun rx_run :: "autobaud \<Rightarrow> (nat \<Rightarrow> bool) \<Rightarrow> nat \<Rightarrow> receiver \<Rightarrow> receiver" where
  "rx_run c s 0 r = r"
| "rx_run c s (Suc n) r = rx_clk True c (s n \<and> \<not> s (Suc n)) (s (Suc n)) False (rx_run c s n r)"

lemma rx_run_add: "rx_run c s (m + n) r = rx_run c (\<lambda>i. s (m + i)) n (rx_run c s m r)"
  by (induction n) auto

lemma rx_wait:
  "rx_busy r \<Longrightarrow> n \<le> unat (rx_timer r) \<Longrightarrow> rx_run c s n r = r\<lparr>rx_timer := rx_timer r - of_nat n\<rparr>"
proof (induction n)
  case (Suc n)
  then have "rx_timer r - of_nat n \<noteq> 0" by (intro count_pos) simp
  with Suc show ?case by (simp add: rx_clk_def)
qed simp

lemma rx_sample_timer: "rx_sample d b (r\<lparr>rx_timer := t\<rparr>) = rx_sample d b r"
  by (simp add: rx_sample_def Let_def)

lemma rx_reach:
  assumes "rx_run c s m r = r1" "rx_busy r1" "k = Suc (m + unat (rx_timer r1))"
  shows "rx_run c s k r = rx_sample (baud_div c) (s k) r1"
proof -
  have "rx_run c s (m + unat (rx_timer r1)) r = r1\<lparr>rx_timer := 0\<rparr>"
    using assms by (simp add: rx_run_add rx_wait)
  then show ?thesis using assms by (simp add: rx_clk_def rx_sample_timer)
qed

lemma rx_no_fall: "\<not> rx_busy r \<Longrightarrow> \<forall>i<n. s i \<longrightarrow> s (Suc i) \<Longrightarrow> rx_run c s n r = r"
  by (induction n) (auto simp: rx_clk_def)

lemma rx_idle: "\<not> rx_busy r \<Longrightarrow> \<forall>i\<le>n. s i \<Longrightarrow> rx_run c s n r = r"
  by (intro rx_no_fall) auto

text \<open>The clock at which cell \<open>k\<close> of a frame that starts at clock 1 is sampled.\<close>

definition sample_at :: "autobaud \<Rightarrow> nat \<Rightarrow> nat" where
  "sample_at c k = unat (baud_div c) div 2 + 2 + k * bit_clocks c"

definition shift_in :: "bool \<Rightarrow> u8 \<Rightarrow> u8" where "shift_in b w = push_bit 7 (of_bool b) OR drop_bit 1 w"

fun shifted :: "(nat \<Rightarrow> bool) \<Rightarrow> nat \<Rightarrow> u8 \<Rightarrow> u8" where
  "shifted f 0 w = w"
| "shifted f (Suc k) w = shift_in (f (Suc k)) (shifted f k w)"

lemma rx_start:
  assumes "baud_locked c" "\<not> rx_busy r" "s 0" "\<not> s 1" "\<not> s (sample_at c 0)"
  shows "rx_run c s (sample_at c 0) r = r\<lparr>rx_busy := True, rx_timer := baud_div c, rx_bit := 1\<rparr>"
proof -
  let ?r = "r\<lparr>rx_busy := True, rx_timer := drop_bit 1 (baud_div c), rx_bit := 0\<rparr>"
  have "rx_run c s (Suc 0) r = ?r" using assms by (simp add: rx_clk_def)
  moreover have u: "unat (drop_bit 1 (baud_div c)) = unat (baud_div c) div 2"
    by (rule trans [OF unat_drop_bit_eq]) (simp add: drop_bit_eq_div)
  then have "sample_at c 0 = Suc (Suc 0 + unat (rx_timer ?r))"
    by (simp add: sample_at_def del: drop_bit_numeral_minus_bit1 drop_bit_Suc)
  ultimately have "rx_run c s (sample_at c 0) r = rx_sample (baud_div c) (s (sample_at c 0)) ?r"
    by (intro rx_reach) simp_all
  then show ?thesis using assms(5) by (simp add: rx_sample_def)
qed

lemma rx_data:
  assumes "rx_run c s (sample_at c 0) r = r0" "rx_busy r0" "rx_timer r0 = baud_div c" "rx_bit r0 = 1" "k \<le> 8"
  shows "rx_run c s (sample_at c k) r =
    r0\<lparr>rx_bit := of_nat (Suc k), rx_sr := shifted (\<lambda>i. s (sample_at c i)) k (rx_sr r0)\<rparr>"
  using assms(5)
proof (induction k)
  case 0
  then show ?case using assms by simp
next
  case (Suc k)
  let ?r = "r0\<lparr>rx_bit := of_nat (Suc k), rx_sr := shifted (\<lambda>i. s (sample_at c i)) k (rx_sr r0)\<rparr>"
  have b: "of_nat (Suc k) \<noteq> (0 :: 4 word)" "of_nat (Suc k) \<le> (8 :: 4 word)"
    using small_eq [of "Suc k" 0] small_le [of "Suc k" 8] Suc.prems by (simp_all del: of_nat_Suc)
  have "sample_at c (Suc k) = Suc (sample_at c k + unat (rx_timer ?r))"
    using assms(3) by (simp add: sample_at_def bit_clocks_def)
  then have "rx_run c s (sample_at c (Suc k)) r = rx_sample (baud_div c) (s (sample_at c (Suc k))) ?r"
    using Suc assms(2) by (intro rx_reach) (simp_all del: of_nat_Suc)
  then show ?case using b assms by (simp add: rx_sample_def shift_in_def del: of_nat_Suc) (simp add: algebra_simps)
qed

lemma bit_shift_in: "bit (shift_in b w) i \<longleftrightarrow> i = 7 \<and> b \<or> i < 7 \<and> bit w (Suc i)"
  by (auto simp: shift_in_def bit_or_iff bit_push_bit_iff bit_drop_bit_eq bit_of_bool_iff dest: bit_imp_le_length)

lemma shifted_bits: "bit (shifted f k w) i \<longleftrightarrow> i < 8 \<and> (if i + k < 8 then bit w (i + k) else f (i + k - 7))" if "k \<le> 8"
  using that
proof (induction k arbitrary: i)
  case (Suc k)
  have "bit (shifted f k w) (Suc i) \<longleftrightarrow> Suc i < 8 \<and> (if Suc i + k < 8 then bit w (Suc i + k) else f (Suc i + k - 7))"
    using Suc.prems by (intro Suc.IH) simp
  then show ?case by (cases i "7 :: nat" rule: linorder_cases) (simp_all add: bit_shift_in)
qed (auto dest: bit_imp_le_length)

text \<open>A frame whose ten cells show a start bit, the bits of \<open>b\<close> and a stop bit when they are sampled
  is delivered as \<open>b\<close>; without a stop bit it is dropped.\<close>

lemma rx_frame:
  assumes "baud_locked c" "\<not> rx_busy r" "s 0" "\<not> s 1"
    and "\<not> s (sample_at c 0)" "\<forall>k<8. s (sample_at c (Suc k)) = bit b k" "s (sample_at c 9)"
  shows "rx_run c s (sample_at c 9) r =
    r\<lparr>rx_busy := False, rx_timer := baud_div c, rx_bit := 10, rx_sr := b, rd_data := b, rd_valid := True\<rparr>"
proof -
  let ?r0 = "r\<lparr>rx_busy := True, rx_timer := baud_div c, rx_bit := 1\<rparr>"
  let ?r = "?r0\<lparr>rx_bit := of_nat 9, rx_sr := b\<rparr>"
  have "shifted (\<lambda>i. s (sample_at c i)) 8 (rx_sr r) = b"
    using assms(6) by (intro bit_word_eqI) (auto simp: shifted_bits Suc_diff_le)
  then have "rx_run c s (sample_at c 8) r = ?r" using rx_data [OF rx_start [OF assms(1-5)], of 8] by simp
  then have "rx_run c s (sample_at c 9) r = rx_sample (baud_div c) (s (sample_at c 9)) ?r"
    by (rule rx_reach) (simp_all add: sample_at_def bit_clocks_def)
  then show ?thesis using assms(7) by (simp add: rx_sample_def)
qed

lemma rx_no_frame:
  assumes "baud_locked c" "\<not> rx_busy r" "s 0" "\<not> s 1" "\<not> s (sample_at c 0)" "\<not> s (sample_at c 9)"
  shows "\<not> rx_busy (rx_run c s (sample_at c 9) r)" "rd_valid (rx_run c s (sample_at c 9) r) = rd_valid r"
    "rd_data (rx_run c s (sample_at c 9) r) = rd_data r"
proof -
  let ?r0 = "r\<lparr>rx_busy := True, rx_timer := baud_div c, rx_bit := 1\<rparr>"
  let ?r = "?r0\<lparr>rx_bit := of_nat 9, rx_sr := shifted (\<lambda>i. s (sample_at c i)) 8 (rx_sr r)\<rparr>"
  have "rx_run c s (sample_at c 8) r = ?r" using rx_data [OF rx_start [OF assms(1-5)], of 8] by simp
  then have "rx_run c s (sample_at c 9) r = rx_sample (baud_div c) (s (sample_at c 9)) ?r"
    by (rule rx_reach) (simp_all add: sample_at_def bit_clocks_def)
  then show "\<not> rx_busy (rx_run c s (sample_at c 9) r)" "rd_valid (rx_run c s (sample_at c 9) r) = rd_valid r"
    "rd_data (rx_run c s (sample_at c 9) r) = rd_data r"
    using assms(6) by (simp_all add: rx_sample_def)
qed

section \<open>Transmitter\<close>

text \<open>What the transmitter drives in the ten cells of a frame, and afterwards.\<close>

definition level :: "u8 \<Rightarrow> nat \<Rightarrow> bool" where
  "level b k \<longleftrightarrow> (if k = 0 then False else if k \<le> 8 then bit b (k - 1) else True)"

fun tx_run :: "autobaud \<Rightarrow> nat \<Rightarrow> transmitter \<Rightarrow> transmitter" where
  "tx_run c 0 x = x"
| "tx_run c (Suc n) x = tx_clk True c False 0 (tx_run c n x)"

lemma div_Suc_cell: "(Suc m) div Suc t = (if m mod Suc t = t then Suc (m div Suc t) else m div Suc t)"
  "(Suc m) mod Suc t = (if m mod Suc t = t then 0 else Suc (m mod Suc t))"
  by (simp_all add: div_Suc mod_Suc)

lemma drop_all: "8 \<le> k \<Longrightarrow> drop_bit k (b :: u8) = 0"
  by (intro bit_word_eqI) (auto simp: bit_drop_bit_eq dest: bit_imp_le_length)

lemma count_eq: "n \<le> unat w \<Longrightarrow> of_nat n = (w :: 'a :: len word) \<longleftrightarrow> n = unat w"
  using count_pos [of n w] by (auto simp: le_less)

lemma tx_cell:
  assumes "m \<le> 10 * bit_clocks c" "x = \<lparr>tx_timer = baud_div c, tx_bit = 0, tx_sr = b, tx_busy = True, tx_pin = False\<rparr>"
  shows "tx_run c m x =
    \<lparr>tx_timer = baud_div c - of_nat (m mod bit_clocks c), tx_bit = of_nat (m div bit_clocks c),
     tx_sr = drop_bit (m div bit_clocks c) b, tx_busy = (m < 10 * bit_clocks c), tx_pin = level b (m div bit_clocks c)\<rparr>"
  using assms(1)
proof (induction m)
  case 0
  then show ?case by (simp add: assms(2) level_def bit_clocks_def)
next
  case (Suc m)
  let ?T = "bit_clocks c" and ?k = "m div bit_clocks c"
  let ?x = "\<lparr>tx_timer = baud_div c - of_nat (m mod ?T), tx_bit = of_nat ?k, tx_sr = drop_bit ?k b,
      tx_busy = True, tx_pin = level b ?k\<rparr>"
  have k: "?k < 10" using Suc.prems by (simp add: div_less_iff_less_mult bit_clocks_def)
  have x: "tx_run c m x = ?x" using Suc by simp
  show ?case
  proof (cases "m mod ?T = unat (baud_div c)")
    case True
    then have z: "baud_div c - of_nat (m mod ?T) = 0" by simp
    have k8: "(of_nat ?k \<le> (7 :: 4 word)) \<longleftrightarrow> ?k \<le> 7" "((of_nat ?k :: 4 word) = 8) \<longleftrightarrow> ?k = 8"
      using small_le [of ?k 7] small_eq [of ?k 8] k by simp_all
    have s: "Suc m div ?T = Suc ?k" "Suc m mod ?T = 0" using True by (simp_all add: bit_clocks_def div_Suc_cell)
    have b: "Suc m < 10 * ?T \<longleftrightarrow> ?k < 9"
      using s(1) div_less_iff_less_mult [of ?T "Suc m" 10] by (simp add: bit_clocks_def)
    have "tx_run c (Suc m) x = tx_next (baud_div c) ?x"
      using x z by (simp add: tx_clk_def)
    also have "\<dots> = \<lparr>tx_timer = baud_div c, tx_bit = of_nat (Suc ?k), tx_sr = drop_bit (Suc ?k) b,
        tx_busy = (?k < 9), tx_pin = level b (Suc ?k)\<rparr>"
      using k by (auto simp: tx_next_def level_def k8 bit_drop_bit_eq drop_all)
    finally show ?thesis unfolding s b by simp
  next
    case False
    then have l: "m mod ?T < unat (baud_div c)" by (auto simp: bit_clocks_def intro: le_neq_implies_less)
    then have s: "Suc m div ?T = ?k" "Suc m mod ?T = Suc (m mod ?T)" by (simp_all add: bit_clocks_def div_Suc_cell)
    have b: "Suc m < 10 * ?T"
      using s(1) k div_less_iff_less_mult [of ?T "Suc m" 10] by (simp add: bit_clocks_def)
    have "tx_run c (Suc m) x = ?x\<lparr>tx_timer := baud_div c - of_nat (m mod ?T) - 1\<rparr>"
      using x count_pos [OF l] by (simp add: tx_clk_def)
    then show ?thesis using b by (simp add: s algebra_simps)
  qed
qed

section \<open>Calibration\<close>

fun cal_run :: "(nat \<Rightarrow> bool) \<Rightarrow> nat \<Rightarrow> autobaud \<Rightarrow> autobaud" where
  "cal_run s 0 c = c"
| "cal_run s (Suc n) c = cal_clk True (s n \<and> \<not> s (Suc n)) (cal_run s n c)"

definition calibrating :: "autobaud \<Rightarrow> nat \<Rightarrow> nat \<Rightarrow> autobaud" where
  "calibrating c T n = c\<lparr>cal_cnt := of_nat n, cal_edge := of_nat (Suc (n div (2 * T))), cal_active := True\<rparr>"

lemma cal_start:
  assumes "\<not> baud_locked c" "\<not> cal_active c" "s 0" "\<not> s 1"
  shows "cal_run s 1 c = calibrating c T 0"
  using assms by (simp add: cal_clk_def calibrating_def)

lemma not_full: "n < 8191 \<Longrightarrow> of_nat n \<noteq> (- 1 :: 13 word)"
proof
  assume n: "n < 8191" and "of_nat n = (- 1 :: 13 word)"
  then have "of_nat (Suc n) = (0 :: 13 word)" by simp
  then have "2 ^ 13 dvd Suc n" by (simp only: word_of_nat_eq_0_iff) simp
  then have "2 ^ 13 \<le> Suc n" by (rule dvd_imp_le) simp
  then show False using n by simp
qed

lemma edge_eq: "k < 8 \<Longrightarrow> (of_nat k :: 3 word) = 4 \<longleftrightarrow> k = 4"
proof -
  assume "k < 8"
  then have "unat (of_nat k :: 3 word) = k" by (simp add: unat_of_nat)
  then show ?thesis by auto
qed

lemma cal_counts:
  assumes "cal_run s 1 c = calibrating c T 0" "\<not> baud_locked c" "1 \<le> T" "T \<le> 1024"
    and "\<forall>j. 0 < j \<and> j < 8 * T \<longrightarrow> (s j \<and> \<not> s (Suc j)) = (2 * T dvd j)" "n < 8 * T"
  shows "cal_run s (Suc n) c = calibrating c T n"
  using assms(6)
proof (induction n)
  case (Suc n)
  let ?q = "Suc n div (2 * T)"
  have "?q < 4" using Suc.prems assms(3) by (simp add: div_less_iff_less_mult)
  have q: "?q = (if 2 * T dvd Suc n then Suc (n div (2 * T)) else n div (2 * T))"
    using div_Suc [of n "2 * T"] by (simp add: dvd_eq_mod_eq_0)
  then have e: "2 * T dvd Suc n \<Longrightarrow> of_nat (Suc (n div (2 * T))) \<noteq> (4 :: 3 word)"
    using edge_eq [of "Suc (n div (2 * T))"] \<open>?q < 4\<close> by (simp del: of_nat_Suc)
  have "of_nat n \<noteq> (- 1 :: 13 word)" using Suc.prems assms(4) by (intro not_full) simp
  then have "cal_run s (Suc (Suc n)) c =
    (calibrating c T n)\<lparr>cal_cnt := of_nat (Suc n), cal_edge := (if 2 * T dvd Suc n then of_nat (Suc (Suc (n div (2 * T))))
      else of_nat (Suc (n div (2 * T))))\<rparr>"
    using Suc assms(2,5) e by (simp add: cal_clk_def cal_count_def calibrating_def algebra_simps)
  then show ?case by (simp add: calibrating_def q)
qed (use assms(1) in simp)

lemma cal_locks:
  assumes "\<not> baud_locked c" "\<not> cal_active c" "s 0" "\<not> s 1" "1 \<le> T" "T \<le> 1024"
    and "\<forall>j. 0 < j \<and> j \<le> 8 * T \<longrightarrow> (s j \<and> \<not> s (Suc j)) = (2 * T dvd j)"
  shows "\<forall>n\<le>8 * T. \<not> baud_locked (cal_run s n c)"
    "\<forall>n>8 * T. baud_locked (cal_run s n c) \<and> baud_div (cal_run s n c) = of_nat (T - 1)"
proof -
  have r: "n < 8 * T \<Longrightarrow> cal_run s (Suc n) c = calibrating c T n" for n
    using assms by (intro cal_counts cal_start) auto
  have "\<not> baud_locked (cal_run s n c)" if "n \<le> 8 * T" for n
    using that assms(1) r [of "n - 1"] by (cases n) (simp_all add: calibrating_def del: cal_run.simps(2))
  then show "\<forall>n\<le>8 * T. \<not> baud_locked (cal_run s n c)" by blast
  have m: "8 * T = Suc (8 * T - 1)" "(8 * T - 1) div 8 = T - 1" using assms(5) by auto
  have "(8 * T - 1) div (2 * T) = 3" using assms(5) by (intro div_nat_eqI) auto
  then have e: "of_nat (Suc ((8 * T - 1) div (2 * T))) = (4 :: 3 word)" by simp
  have f: "s (8 * T) \<and> \<not> s (Suc (8 * T))" using assms(5,7) by simp
  have r': "cal_run s (8 * T) c = calibrating c T (8 * T - 1)" using r [of "8 * T - 1"] m(1) assms(5) by simp
  have "cal_run s (Suc (8 * T)) c = cal_clk True True (calibrating c T (8 * T - 1))"
    using f r' by simp
  then have l: "baud_locked (cal_run s (Suc (8 * T)) c)"
    "baud_div (cal_run s (Suc (8 * T)) c) = ucast (drop_bit 3 (of_nat (8 * T - 1) :: 13 word))"
    using assms(1) e by (simp_all add: cal_clk_def cal_count_def calibrating_def Let_def del: cal_run.simps of_nat_Suc)
  have d: "ucast (drop_bit 3 (of_nat (8 * T - 1) :: 13 word)) = (of_nat (T - 1) :: 10 word)"
  proof -
    have "unat (drop_bit 3 (of_nat (8 * T - 1) :: 13 word)) = T - 1"
      by (rule trans [OF unat_drop_bit_eq]) (use assms(6) m(2) in \<open>simp add: unat_of_nat drop_bit_eq_div\<close>)
    from arg_cong [OF this, of "of_nat :: nat \<Rightarrow> 13 word"]
    have "drop_bit 3 (of_nat (8 * T - 1) :: 13 word) = of_nat (T - 1)" by simp
    then show ?thesis using assms(6) by (simp add: unsigned_of_nat take_bit_nat_eq_self)
  qed
  have "baud_locked (cal_run s n c) \<and> baud_div (cal_run s n c) = of_nat (T - 1)" if "8 * T < n" for n
    using that
  proof (induction n)
    case (Suc n)
    then show ?case using l d by (cases "n = 8 * T") (simp_all add: cal_clk_def)
  qed simp
  then show "\<forall>n>8 * T. baud_locked (cal_run s n c) \<and> baud_div (cal_run s n c) = of_nat (T - 1)" by blast
qed

section \<open>Line\<close>

definition wire :: "rx_line \<Rightarrow> (nat \<Rightarrow> bool) \<Rightarrow> nat \<Rightarrow> bool" where
  "wire l p n = (if n = 0 then rx_d l else if n = 1 then rx_sync1 l else if n = 2 then rx_sync0 l else p (n - 3))"

fun uart_run :: "(nat \<Rightarrow> bool) \<Rightarrow> nat \<Rightarrow> dbg_uart \<Rightarrow> dbg_uart" where
  "uart_run p 0 u = u"
| "uart_run p (Suc n) u = dbg_uart_clk True (p n) None False (uart_run p n u)"

lemma uart_fields [simp]:
  "u_line (dbg_uart_clk r p w e u) = line_clk r p (u_line u)"
  "u_baud (dbg_uart_clk r p w e u) = cal_clk r (rx_fall (u_line u)) (u_baud u)"
  "u_rx (dbg_uart_clk r p w e u) = rx_clk r (u_baud u) (rx_fall (u_line u)) (rx_sync1 (u_line u)) e (u_rx u)"
  "u_tx (dbg_uart_clk r p w e u) = tx_clk r (u_baud u) (w \<noteq> None) (case w of None \<Rightarrow> 0 | Some c \<Rightarrow> c) (u_tx u)"
  "u_brk (dbg_uart_clk r p w e u) = brk_clk r (u_baud u) (rx_sync1 (u_line u)) (u_brk u)"
  by (simp_all add: dbg_uart_clk_def Let_def)

lemma run_line: "u_line (uart_run p n u) =
  \<lparr>rx_sync0 = wire (u_line u) p (n + 2), rx_sync1 = wire (u_line u) p (n + 1), rx_d = wire (u_line u) p n\<rparr>"
  by (induction n) (simp_all add: wire_def line_clk_def)

lemma run_fall: "rx_fall (u_line (uart_run p n u)) = (wire (u_line u) p n \<and> \<not> wire (u_line u) p (Suc n))"
  "rx_sync1 (u_line (uart_run p n u)) = wire (u_line u) p (Suc n)"
  by (simp_all add: run_line rx_fall_def)

lemma run_baud: "u_baud (uart_run p n u) = cal_run (wire (u_line u) p) n (u_baud u)"
  by (induction n) (simp_all add: run_fall)

lemma cal_keeps: "baud_locked c \<Longrightarrow> cal_run s n c = c"
  by (induction n) (simp_all add: cal_clk_def)

lemma run_locked:
  assumes "baud_locked (u_baud u)"
  shows "u_baud (uart_run p n u) = u_baud u"
    "u_rx (uart_run p n u) = rx_run (u_baud u) (wire (u_line u) p) n (u_rx u)"
    "u_tx (uart_run p n u) = tx_run (u_baud u) n (u_tx u)"
  by (induction n) (use assms in \<open>simp_all add: run_fall run_baud cal_keeps cal_clk_def\<close>)

lemma run_no_start:
  assumes "\<forall>m<n. baud_locked (u_baud (uart_run p m u)) \<longrightarrow> wire (u_line u) p m \<longrightarrow> wire (u_line u) p (Suc m)"
    and "\<not> rx_busy (u_rx u)"
  shows "u_rx (uart_run p n u) = u_rx u"
  using assms(1) by (induction n) (use assms(2) in \<open>auto simp: rx_clk_def run_fall\<close>)

lemma cal_run_add: "cal_run s (m + n) c = cal_run (\<lambda>i. s (m + i)) n (cal_run s m c)"
  by (induction n) simp_all

lemma cal_idle: "\<not> baud_locked c \<Longrightarrow> \<not> cal_active c \<Longrightarrow> \<forall>i\<le>n. s i \<Longrightarrow> cal_run s n c = c"
  by (induction n) (simp_all add: cal_clk_def)

lemma run_add: "uart_run p (m + n) u = uart_run (\<lambda>i. p (m + i)) n (uart_run p m u)"
  by (induction n) simp_all

end
