(* ===== verification/Uart_Link.thy ===== *)
theory Uart_Link
  imports Uart_Frames
begin

text \<open>
  Two debug UARTs wired to each other, and the bytes that pass from one to the other: with bit
  periods that differ by at most five percent, and after calibration by the byte 0x55.
\<close>

section \<open>Two UARTs\<close>

definition link_clk :: "u8 option \<Rightarrow> bool \<Rightarrow> dbg_uart \<times> dbg_uart \<Rightarrow> dbg_uart \<times> dbg_uart" where
  "link_clk wr rd ab =
     (dbg_uart_clk True (tx_pin (u_tx (snd ab))) wr False (fst ab),
      dbg_uart_clk True (tx_pin (u_tx (fst ab))) None rd (snd ab))"

fun link_wait :: "nat \<Rightarrow> dbg_uart \<times> dbg_uart \<Rightarrow> dbg_uart \<times> dbg_uart" where
  "link_wait 0 ab = ab"
| "link_wait (Suc n) ab = link_clk None False (link_wait n ab)"

text \<open>The software of both sides: write a byte, wait, read the data register on the other side.\<close>

definition link_byte :: "nat \<Rightarrow> u8 \<Rightarrow> dbg_uart \<times> dbg_uart \<Rightarrow> dbg_uart \<times> dbg_uart" where
  "link_byte n c ab = link_wait n (link_clk (Some c) False ab)"

fun link_bytes :: "nat \<Rightarrow> u8 list \<Rightarrow> dbg_uart \<times> dbg_uart \<Rightarrow> u8 option list \<times> dbg_uart \<times> dbg_uart" where
  "link_bytes n [] ab = ([], ab)"
| "link_bytes n (c # cs) ab =
     (let ab1 = link_byte n c ab; r = u_rx (snd ab1); (rs, ab2) = link_bytes n cs (link_clk None (rd_valid r) ab1)
      in ((if rd_valid r then Some (rd_data r) else None) # rs, ab2))"

definition quiet :: "dbg_uart \<Rightarrow> bool" where
  "quiet u \<longleftrightarrow> rx_sync0 (u_line u) \<and> rx_sync1 (u_line u) \<and> rx_d (u_line u) \<and> \<not> rx_busy (u_rx u) \<and> \<not> rd_valid (u_rx u)"

definition sender_ready :: "dbg_uart \<Rightarrow> bool" where
  "sender_ready u \<longleftrightarrow> tx_ready u \<and> tx_pin (u_tx u)"

text \<open>The sender's pin, clock by clock.\<close>

definition sent_level :: "autobaud \<Rightarrow> u8 \<Rightarrow> nat \<Rightarrow> bool" where
  "sent_level c b i \<longleftrightarrow> i = 0 \<or> level b ((i - 1) div bit_clocks c)"

lemma tx_done: "\<not> tx_busy x \<Longrightarrow> tx_run c n x = x"
  by (induction n) (simp_all add: tx_clk_def)

lemma tx_run_add: "tx_run c (m + n) x = tx_run c n (tx_run c m x)"
  by (induction n) simp_all

definition loaded :: "autobaud \<Rightarrow> u8 \<Rightarrow> transmitter" where
  "loaded c b = \<lparr>tx_timer = baud_div c, tx_bit = 0, tx_sr = b, tx_busy = True, tx_pin = False\<rparr>"

lemma tx_frame:
  "tx_pin (tx_run c m (loaded c b)) = level b (m div bit_clocks c)"
  "10 * bit_clocks c \<le> m \<Longrightarrow> \<not> tx_busy (tx_run c m (loaded c b))"
proof -
  let ?T = "bit_clocks c"
  have d: "10 * ?T div ?T = 10" by (rule nonzero_mult_div_cancel_right) (simp add: bit_clocks_def)
  have e: "\<not> tx_busy (tx_run c (10 * ?T) (loaded c b))" "tx_pin (tx_run c (10 * ?T) (loaded c b))"
    unfolding tx_cell [OF le_refl loaded_def] d by (simp_all add: level_def)
  have l: "10 * ?T \<le> m \<Longrightarrow> tx_run c m (loaded c b) = tx_run c (10 * ?T) (loaded c b)"
    using tx_run_add [of c "10 * ?T" "m - 10 * ?T"] tx_done [OF e(1)] by simp
  have "10 * ?T \<le> m \<Longrightarrow> 10 \<le> m div ?T" by (simp add: less_eq_div_iff_mult_less_eq bit_clocks_def mult.commute)
  then have "10 * ?T \<le> m \<Longrightarrow> level b (m div ?T)" by (simp add: level_def)
  then show "tx_pin (tx_run c m (loaded c b)) = level b (m div ?T)"
    using l e(2) tx_cell [OF _ loaded_def, of m c b] by (cases "10 * ?T \<le> m") simp_all
  show "10 * ?T \<le> m \<Longrightarrow> \<not> tx_busy (tx_run c m (loaded c b))" using l e(1) by simp
qed

lemma link_sender:
  assumes "sender_ready a" 
  shows "u_baud (fst (link_wait n (link_clk (Some b) False (a, u)))) = u_baud a"
    "u_tx (fst (link_wait n (link_clk (Some b) False (a, u)))) = tx_run (u_baud a) n (loaded (u_baud a) b)"
  by (induction n)
    (use assms in \<open>simp_all add: link_clk_def cal_clk_def tx_clk_def sender_ready_def tx_ready_def loaded_def\<close>)

lemma link_receiver:
  assumes "sender_ready a"
  shows "snd (link_byte n b (a, u)) = uart_run (sent_level (u_baud a) b) (Suc n) u"
proof -
  have "snd (link_wait n (link_clk (Some b) False (a, u))) = uart_run (sent_level (u_baud a) b) (Suc n) u"
  proof (induction n)
    case 0
    then show ?case using assms by (simp add: link_clk_def sent_level_def sender_ready_def)
  next
    case (Suc n)
    have "tx_pin (u_tx (fst (link_wait n (link_clk (Some b) False (a, u))))) = sent_level (u_baud a) b (Suc n)"
      by (simp add: link_sender [OF assms] tx_frame sent_level_def)
    then show ?case using Suc by (simp add: link_clk_def)
  qed
  then show ?thesis by (simp add: link_byte_def)
qed

section \<open>One byte\<close>

text \<open>The line as the receiver sees it.\<close>

lemma quiet_wire: "quiet u \<Longrightarrow> wire (u_line u) (sent_level c b) n = (n \<le> 3 \<or> level b ((n - 4) div bit_clocks c))"
  by (auto simp: wire_def quiet_def sent_level_def)

text \<open>A receiver whose bit period differs by less than about five percent samples every cell.\<close>

definition close_bauds :: "autobaud \<Rightarrow> autobaud \<Rightarrow> bool" where
  "close_bauds c d \<longleftrightarrow>
     19 * (bit_clocks c - bit_clocks d) + 2 \<le> bit_clocks c \<and> 19 * (bit_clocks d - bit_clocks c) + 2 \<le> bit_clocks c"

lemma close_samples:
  assumes "close_bauds c d" "k \<le> 9"
  shows "(sample_at d k - 1) div bit_clocks c = k"
proof (rule div_nat_eqI)
  have "k = 0 \<or> k = 1 \<or> k = 2 \<or> k = 3 \<or> k = 4 \<or> k = 5 \<or> k = 6 \<or> k = 7 \<or> k = 8 \<or> k = 9" using assms(2) by auto
  moreover have "2 * (unat (baud_div d) div 2) \<le> unat (baud_div d)" "unat (baud_div d) \<le> 2 * (unat (baud_div d) div 2) + 1"
    by auto
  ultimately show "bit_clocks c * k \<le> sample_at d k - 1" "sample_at d k - 1 < bit_clocks c * Suc k"
    using assms(1) by (auto simp: close_bauds_def sample_at_def bit_clocks_def)
qed

lemma frame_received:
  assumes "quiet u" "baud_locked (u_baud u)" "close_bauds c (u_baud u)" "10 * bit_clocks c \<le> n"
  shows "let v = uart_run (sent_level c b) (3 + n) u
    in u_baud v = u_baud u \<and> rd_valid (u_rx v) \<and> rd_data (u_rx v) = b \<and> \<not> rx_busy (u_rx v) \<and>
       rx_sync0 (u_line v) \<and> rx_sync1 (u_line v) \<and> rx_d (u_line v)"
proof -
  let ?s = "wire (u_line u) (sent_level c b)" and ?d = "u_baud u" and ?T = "bit_clocks c"
  let ?f = "\<lambda>i. ?s (3 + i)" and ?m = "sample_at (u_baud u) 9"
  have s: "?s i = (i \<le> 3 \<or> level b ((i - 4) div ?T))" for i by (rule quiet_wire [OF assms(1)])
  have f: "?f 0" "\<not> ?f 1" by (simp_all add: s level_def)
  have c: "?f (sample_at ?d k) = level b k" if "k \<le> 9" for k
    using close_samples [OF assms(3) that] by (simp add: s sample_at_def)
  have "0 < ?T" "0 < ?m" by (simp_all add: bit_clocks_def sample_at_def)
  moreover from this have "(?m - 1) mod ?T < ?T" by simp
  moreover have "9 * ?T + (?m - 1) mod ?T = ?m - 1"
    using close_samples [OF assms(3), of 9] div_mult_mod_eq [of "?m - 1" ?T] by simp
  ultimately have m: "?m \<le> n" "9 * ?T < ?m" using assms(4) by linarith+
  have tail: "level b ((i - 1) div ?T)" if "9 * ?T < i" for i
  proof -
    have "9 \<le> (i - 1) div ?T" using that by (simp add: less_eq_div_iff_mult_less_eq bit_clocks_def mult.commute)
    then show ?thesis by (simp add: level_def)
  qed
  let ?r = "rx_run ?d ?f ?m (u_rx u)"
  have r: "?r = (u_rx u)\<lparr>rx_busy := False, rx_timer := baud_div ?d, rx_bit := 10, rx_sr := b, rd_data := b, rd_valid := True\<rparr>"
    using assms(1,2) f c by (intro rx_frame) (auto simp: quiet_def level_def)
  have "rx_run ?d ?s (3 + (?m + (n - ?m))) (u_rx u) = rx_run ?d (\<lambda>i. ?f (?m + i)) (n - ?m) ?r"
    using assms(1) by (simp only: rx_run_add) (simp add: rx_idle quiet_def s)
  also have "\<dots> = ?r" using r m(2) tail by (intro rx_idle) (simp_all add: s)
  finally have v: "u_rx (uart_run (sent_level c b) (3 + n) u) = ?r"
    using m(1) by (simp add: run_locked [OF assms(2)] del: uart_run.simps rx_run.simps)
  have "?s (j + n)" if "3 \<le> j" for j
    using tail [of "j + n - 3"] that assms(4) \<open>0 < ?T\<close> by (simp add: s)
  from this [of 3] this [of 4] this [of 5] show ?thesis using v r
    by (simp add: run_locked [OF assms(2)] run_line del: uart_run.simps)
qed

section \<open>Calibration\<close>

lemma u_period: "level 0x55 k \<longleftrightarrow> odd k \<or> 8 < k"
proof (cases "k \<le> 8")
  case True
  then have "k = 0 \<or> k = 1 \<or> k = 2 \<or> k = 3 \<or> k = 4 \<or> k = 5 \<or> k = 6 \<or> k = 7 \<or> k = 8" by auto
  then show ?thesis by (auto simp: level_def)
qed (simp add: level_def)

lemma u_falls:
  assumes "0 < T" "0 < j" "j \<le> 8 * T"
  shows "level 0x55 ((j - 1) div T) \<and> \<not> level 0x55 (j div T) \<longleftrightarrow> 2 * T dvd j"
proof -
  have "j div T \<le> 8" "(j - 1) div T \<le> 8" using div_le_mono [of j "8 * T" T] div_le_mono [of "j - 1" "8 * T" T] assms by auto
  then have l: "level 0x55 ((j - 1) div T) \<and> \<not> level 0x55 (j div T) \<longleftrightarrow> odd ((j - 1) div T) \<and> even (j div T)"
    by (simp add: u_period)
  have d: "j div T = (if T dvd j then Suc ((j - 1) div T) else (j - 1) div T)"
    using div_Suc [of "j - 1" T] assms(2) by (simp add: dvd_eq_mod_eq_0)
  have e: "2 * T dvd j \<longleftrightarrow> T dvd j \<and> even (j div T)"
    using assms(1) by (auto simp: dvd_div_iff_mult mult.commute elim!: dvdE)
  show ?thesis unfolding l e using d by (auto split: if_splits)
qed

lemma frame_locks:
  assumes "quiet u" "\<not> baud_locked (u_baud u)" "\<not> cal_active (u_baud u)" "10 * bit_clocks c \<le> n"
  shows "let v = uart_run (sent_level c 0x55) (3 + n) u
    in baud_locked (u_baud v) \<and> baud_div (u_baud v) = baud_div c \<and> quiet v"
proof -
  let ?s = "wire (u_line u) (sent_level c 0x55)" and ?T = "bit_clocks c"
  let ?f = "\<lambda>i. ?s (3 + i)"
  have s: "?s i = (i \<le> 3 \<or> level 0x55 ((i - 4) div ?T))" for i by (rule quiet_wire [OF assms(1)])
  have "unat (baud_div c) < 2 ^ 10" using unsigned_less [of "baud_div c"] by simp
  then have T: "0 < ?T" "?T \<le> 1024" by (simp_all add: bit_clocks_def)
  have falls: "(?f j \<and> \<not> ?f (Suc j)) = (2 * ?T dvd j)" if "0 < j" "j \<le> 8 * ?T" for j
    using u_falls [OF T(1) that] that by (auto simp: s)
  have f: "?f 0" "\<not> ?f 1" by (simp_all add: s level_def)
  have i: "cal_run ?s m (u_baud u) = u_baud u" if "m \<le> 3" for m
    using assms(2,3) that by (intro cal_idle) (auto simp: s)
  have c: "cal_run ?s (3 + m) (u_baud u) = cal_run ?f m (u_baud u)" for m
    unfolding cal_run_add i [OF le_refl] by simp
  note locks = cal_locks [where s = ?f, OF assms(2,3) f _ T(2), unfolded c [symmetric]]
  have b: "baud_locked (u_baud (uart_run (sent_level c 0x55) m u)) \<Longrightarrow> 8 * ?T + 3 < m" for m
    using locks(1) falls T(1) i [of m] assms(2) run_baud [of "sent_level c 0x55" m u]
    by (cases "m \<le> 3") (auto simp: not_less dest: spec [of _ "m - 3"])
  have k: "k \<le> (m - 4) div ?T" if "k * ?T + 4 \<le> m" for k m
    using that T(1) by (simp add: less_eq_div_iff_mult_less_eq)
  have "?s (Suc m)" if "8 * ?T + 3 < m" "?s m" for m
  proof -
    have "8 \<le> (m - 4) div ?T" "(m - 4) div ?T \<le> (Suc m - 4) div ?T" using that k [of 8 m] by (auto intro: div_le_mono)
    then show ?thesis using that by (auto simp: s u_period dest: antisym)
  qed
  then have "u_rx (uart_run (sent_level c 0x55) (3 + n) u) = u_rx u"
    using b assms(1) by (intro run_no_start) (auto simp: quiet_def)
  moreover have "baud_locked (u_baud (uart_run (sent_level c 0x55) (3 + n) u))"
      "baud_div (u_baud (uart_run (sent_level c 0x55) (3 + n) u)) = of_nat (?T - 1)"
    using locks(2) falls T(1) assms(4) by (simp_all add: run_baud Suc_le_eq del: uart_run.simps)
  moreover have "?s (m + n)" if "3 \<le> m" for m
    using k [of 9 "m + n"] that assms(4) T(1) by (simp add: s u_period)
  note this [of 3] this [of 4] this [of 5]
  ultimately show ?thesis
    using assms(1) by (simp add: quiet_def run_line bit_clocks_def del: uart_run.simps)
qed

section \<open>Bytes\<close>

lemma sender_after:
  assumes "sender_ready a" "10 * bit_clocks (u_baud a) \<le> n"
  shows "u_baud (fst (link_byte n b (a, u))) = u_baud a" "sender_ready (fst (link_byte n b (a, u)))"
proof -
  have l: "10 \<le> n div bit_clocks (u_baud a)"
    using assms(2) by (simp add: less_eq_div_iff_mult_less_eq bit_clocks_def mult.commute)
  show "u_baud (fst (link_byte n b (a, u))) = u_baud a" "sender_ready (fst (link_byte n b (a, u)))"
    unfolding link_byte_def sender_ready_def tx_ready_def link_sender [OF assms(1)]
    using assms l by (simp_all add: tx_frame level_def sender_ready_def tx_ready_def)
qed

lemma sender_idle:
  assumes "sender_ready (fst ab)"
  shows "sender_ready (fst (link_clk None r ab))" "u_baud (fst (link_clk None r ab)) = u_baud (fst ab)"
  using assms by (simp_all add: link_clk_def sender_ready_def tx_ready_def cal_clk_def tx_clk_def)

lemma receiver_idle:
  assumes "sender_ready (fst ab)" "rx_sync0 (u_line (snd ab))" "rx_sync1 (u_line (snd ab))" "rx_d (u_line (snd ab))"
    "\<not> rx_busy (u_rx (snd ab))" "baud_locked (u_baud (snd ab))"
  shows "quiet (snd (link_clk None (rd_valid (u_rx (snd ab))) ab))"
    "u_baud (snd (link_clk None (rd_valid (u_rx (snd ab))) ab)) = u_baud (snd ab)"
  using assms by (auto simp: link_clk_def sender_ready_def quiet_def cal_clk_def line_clk_def rx_clk_def rx_fall_def)

lemma byte_received:
  assumes "sender_ready a" "quiet u" "baud_locked (u_baud u)" "close_bauds (u_baud a) (u_baud u)"
    "10 * bit_clocks (u_baud a) + 2 \<le> n" "v = snd (link_byte n b (a, u))"
  shows "rd_valid (u_rx v)" "rd_data (u_rx v) = b" "u_baud v = u_baud u" "\<not> rx_busy (u_rx v)"
    "rx_sync0 (u_line v)" "rx_sync1 (u_line v)" "rx_d (u_line v)"
proof -
  have "Suc n = 3 + (n - 2)" using assms(5) by simp
  then have "v = uart_run (sent_level (u_baud a) b) (3 + (n - 2)) u"
    using assms(6) link_receiver [OF assms(1)] by metis
  moreover have "10 * bit_clocks (u_baud a) \<le> n - 2" using assms(5) by simp
  ultimately show "rd_valid (u_rx v)" "rd_data (u_rx v) = b" "u_baud v = u_baud u" "\<not> rx_busy (u_rx v)"
    "rx_sync0 (u_line v)" "rx_sync1 (u_line v)" "rx_d (u_line v)"
    using frame_received [OF assms(2-4)] by (simp_all add: Let_def)
qed

lemma bytes_received:
  assumes "sender_ready a" "quiet u" "baud_locked (u_baud u)" "close_bauds (u_baud a) (u_baud u)"
    "10 * bit_clocks (u_baud a) + 2 \<le> n"
  shows "fst (link_bytes n cs (a, u)) = map Some cs"
  using assms
proof (induction cs arbitrary: a u)
  case (Cons c cs)
  let ?ab = "link_byte n c (a, u)"
  let ?ab' = "link_clk None (rd_valid (u_rx (snd ?ab))) ?ab"
  note v = byte_received [OF Cons.prems refl, of c]
  have l: "10 * bit_clocks (u_baud a) \<le> n" using Cons.prems by simp
  note s = sender_after [OF Cons.prems(1) l, of c u]
  have q: "sender_ready (fst ?ab')" "u_baud (fst ?ab') = u_baud a" "quiet (snd ?ab')" "u_baud (snd ?ab') = u_baud u"
    using sender_idle [OF s(2)] receiver_idle [OF s(2)] v s(1) Cons.prems(3) by auto
  have "fst (link_bytes n cs (fst ?ab', snd ?ab')) = map Some cs"
    by (rule Cons.IH) (use q Cons.prems in simp_all)
  then show ?case using v by (simp add: Let_def split_beta)
qed simp

text \<open>A UART after calibration, for examples.\<close>

definition demo_uart :: "10 word \<Rightarrow> dbg_uart" where
  "demo_uart d =
     \<lparr>u_line = \<lparr>rx_sync0 = True, rx_sync1 = True, rx_d = True\<rparr>,
      u_baud = \<lparr>baud_div = d, baud_locked = True, cal_cnt = 0, cal_edge = 0, cal_active = False\<rparr>,
      u_rx = \<lparr>rx_timer = 0, rx_bit = 0, rx_sr = 0, rx_busy = False, rd_data = 0, rd_valid = False\<rparr>,
      u_tx = \<lparr>tx_timer = 0, tx_bit = 0, tx_sr = 0, tx_busy = False, tx_pin = True\<rparr>,
      u_brk = \<lparr>brk_timer = 0, brk_bits = 0, brk_prev = False\<rparr>\<rparr>"

text \<open>C26: Two debug UARTs whose bit periods differ by up to about five percent understand each other:
  with T the period of the sender, 19 times the difference plus 2 at most T, all bytes sent are
  received in order.\<close>

theorem uart_link:
  assumes "sender_ready a" "quiet u" "baud_locked (u_baud u)" 
    "19 * (bit_clocks (u_baud a) - bit_clocks (u_baud u)) + 2 \<le> bit_clocks (u_baud a)"
    "19 * (bit_clocks (u_baud u) - bit_clocks (u_baud a)) + 2 \<le> bit_clocks (u_baud a)"
    "10 * bit_clocks (u_baud a) + 2 \<le> n"
  shows "fst (link_bytes n cs (a, u)) = map Some cs"
  using assms by (intro bytes_received) (simp_all add: close_bauds_def)

lemma uart_link_witness:
  "fst (link_bytes 212 [0x24, 0x00, 0xFF] (demo_uart 20, demo_uart 19)) = [Some 0x24, Some 0x00, Some 0xFF]"
proof -
  have h: "sender_ready (demo_uart 20)" "quiet (demo_uart 19)" "baud_locked (u_baud (demo_uart 19))"
    "19 * (bit_clocks (u_baud (demo_uart 20)) - bit_clocks (u_baud (demo_uart 19))) + 2 \<le> bit_clocks (u_baud (demo_uart 20))"
    "19 * (bit_clocks (u_baud (demo_uart 19)) - bit_clocks (u_baud (demo_uart 20))) + 2 \<le> bit_clocks (u_baud (demo_uart 20))"
    "10 * bit_clocks (u_baud (demo_uart 20)) + 2 \<le> 212"
    by code_simp+
  show ?thesis using uart_link [OF h, of "[0x24, 0x00, 0xFF]"] by simp
qed

text \<open>C25: A debug UART that has just been reset locks to the speed of its peer and then receives
  everything: after the byte 0x55, which is not delivered, every byte the peer transmits
  arrives, in order and unchanged, for every bit period from 2 to 1024 clocks and every sequence
  of bytes, when the peer leaves at least a frame between writes and each byte is read before
  the next.\<close>

theorem uart_session:
  assumes "sender_ready a" "baud_div (u_baud a) \<noteq> 0" "10 * bit_clocks (u_baud a) + 2 \<le> n"
  shows "fst (link_bytes n (0x55 # cs) (a, dbg_uart_clk False p w e u)) = None # map Some cs"
proof -
  let ?u = "dbg_uart_clk False p w e u"
  let ?ab = "link_byte n 0x55 (a, ?u)"
  let ?v = "snd ?ab"
  have u: "quiet ?u" "\<not> baud_locked (u_baud ?u)" "\<not> cal_active (u_baud ?u)"
    by (simp_all add: quiet_def line_clk_def rx_clk_def cal_clk_def)
  have "Suc n = 3 + (n - 2)" using assms(3) by simp
  then have "?v = uart_run (sent_level (u_baud a) 0x55) (3 + (n - 2)) ?u"
    using link_receiver [OF assms(1)] by metis
  moreover have l: "10 * bit_clocks (u_baud a) \<le> n - 2" "10 * bit_clocks (u_baud a) \<le> n" using assms(3) by simp_all
  ultimately have v: "baud_locked (u_baud ?v)" "baud_div (u_baud ?v) = baud_div (u_baud a)" "quiet ?v"
    using frame_locks [OF u l(1)] by (simp_all add: Let_def)
  note s = sender_after [OF assms(1) l(2), of "0x55" ?u]
  let ?ab' = "link_clk None False ?ab"
  have r: "\<not> rd_valid (u_rx ?v)" using v(3) by (simp add: quiet_def)
  have q: "sender_ready (fst ?ab')" "u_baud (fst ?ab') = u_baud a"
    using sender_idle [OF s(2)] s(1) by auto
  have q': "quiet (snd ?ab')" "u_baud (snd ?ab') = u_baud ?v"
    using receiver_idle [OF s(2)] v r by (simp_all add: quiet_def)
  have "0 < unat (baud_div (u_baud a))" using assms(2) by (simp add: unat_gt_0)
  then have "close_bauds (u_baud a) (u_baud ?v)" by (simp add: close_bauds_def bit_clocks_def v(2))
  then have "fst (link_bytes n cs (fst ?ab', snd ?ab')) = map Some cs"
    using q q' v assms(3) by (intro bytes_received) simp_all
  then show ?thesis using r by (simp add: Let_def split_beta)
qed

lemma uart_session_witness:
  "fst (link_bytes 22 [0x55, 0x2B] (demo_uart 1, dbg_uart_clk False True None False (demo_uart 7))) = [None, Some 0x2B]"
proof -
  have h: "sender_ready (demo_uart 1)" "baud_div (u_baud (demo_uart 1)) \<noteq> 0" "10 * bit_clocks (u_baud (demo_uart 1)) + 2 \<le> 22"
    by code_simp+
  show ?thesis using uart_session [OF h, of "[0x2B]" True None False "demo_uart 7"] by simp
qed

end
