(* ===== verification/Uart_Break.thy ===== *)
theory Uart_Break
  imports Uart_Link
begin

text \<open>
  The break detector: how long the line must be low, that the detector then pulses for exactly
  one clock, and that the receiver delivers no byte for it.
\<close>

lemma eleven: "11 \<le> q \<Longrightarrow> \<not> 12 \<le> q \<Longrightarrow> of_nat q = (11 :: 4 word)"
proof -
  assume "11 \<le> q" "\<not> 12 \<le> q"
  then have "q = 11" by simp
  then show ?thesis by simp
qed

lemma low_clock:
  assumes "baud_locked c" "brk_timer k = of_nat (n mod bit_clocks c) \<and> brk_bits k = of_nat (min 12 (n div bit_clocks c))"
  shows "brk_timer (brk_clk True c False k) = of_nat (Suc n mod bit_clocks c) \<and>
    brk_bits (brk_clk True c False k) = of_nat (min 12 (Suc n div bit_clocks c))"
proof -
  let ?j = "min 12 (n div bit_clocks c)"
  have j: "brk_now k \<longleftrightarrow> 12 \<le> n div bit_clocks c"
    using small_eq [of ?j 12] assms(2) by (auto simp: brk_now_def min_def)
  have "n mod bit_clocks c \<le> unat (baud_div c)" by (simp add: bit_clocks_def)
  then have "(of_nat (n mod bit_clocks c) = baud_div c) \<longleftrightarrow> n mod bit_clocks c = unat (baud_div c)"
    by (rule count_eq)
  then show ?thesis using assms j by (auto simp: brk_clk_def div_Suc_cell bit_clocks_def min_def eleven)
qed

lemma run_brk: "baud_locked (u_baud u) \<Longrightarrow>
    u_brk (uart_run p (Suc n) u) = brk_clk True (u_baud u) (wire (u_line u) p (Suc n)) (u_brk (uart_run p n u))"
  by (simp add: run_fall run_baud cal_keeps)

definition brk_idle :: "dbg_uart \<Rightarrow> bool" where
  "brk_idle u \<longleftrightarrow> brk_timer (u_brk u) = 0 \<and> brk_bits (u_brk u) = 0"

lemma brk_state:
  assumes "baud_locked (u_baud u)" "quiet u" "brk_idle u"
  shows "let k = u_brk (uart_run (\<lambda>i. L \<le> i) n u); T = bit_clocks (u_baud u) in
    (n \<le> L + 2 \<longrightarrow> brk_timer k = of_nat ((n - 2) mod T) \<and> brk_bits k = of_nat (min 12 ((n - 2) div T))) \<and>
    (L + 2 < n \<longrightarrow> brk_timer k = 0 \<and> brk_bits k = 0)"
proof (induction n)
  case 0
  then show ?case using assms(3) by (simp add: brk_idle_def)
next
  case (Suc n)
  let ?T = "bit_clocks (u_baud u)" and ?k = "u_brk (uart_run (\<lambda>i. L \<le> i) n u)"
  let ?w = "wire (u_line u) (\<lambda>i. L \<le> i)"
  have w: "?w (Suc n) = (n \<le> 1 \<or> L + 2 \<le> n)" using assms(2) by (auto simp: wire_def quiet_def)
  show ?case
  proof (cases "?w (Suc n)")
    case True
    then have "n \<le> 1 \<or> L + 2 \<le> n" using w by simp
    moreover have "Suc n - 2 = 0" if "n \<le> 1" using that by simp
    ultimately show ?thesis
      using True assms(1) by (auto simp: run_brk brk_clk_def simp del: uart_run.simps(2))
  next
    case False
    then obtain m where m: "n = m + 2" "m < L" using w by (metis add.commute le_Suc_ex not_less_eq_eq numeral_2_eq_2 One_nat_def add_less_cancel_left not_le)
    have "brk_timer ?k = of_nat (m mod ?T) \<and> brk_bits ?k = of_nat (min 12 (m div ?T))"
      using Suc m by (simp add: Let_def del: uart_run.simps(2))
    then have "brk_timer (brk_clk True (u_baud u) False ?k) = of_nat (Suc m mod ?T) \<and>
        brk_bits (brk_clk True (u_baud u) False ?k) = of_nat (min 12 (Suc m div ?T))"
      by (rule low_clock [OF assms(1)])
    then show ?thesis using False m assms(1) by (simp add: run_brk Let_def del: uart_run.simps(2))
  qed
qed

lemma brk_now_iff:
  assumes "baud_locked (u_baud u)" "quiet u" "brk_idle u"
  shows "brk_now (u_brk (uart_run (\<lambda>i. L \<le> i) n u)) \<longleftrightarrow> n \<le> L + 2 \<and> 12 * bit_clocks (u_baud u) + 2 \<le> n"
proof -
  let ?T = "bit_clocks (u_baud u)"
  have "0 < ?T" by (simp add: bit_clocks_def)
  then have "12 \<le> (n - 2) div ?T \<longleftrightarrow> 12 * ?T + 2 \<le> n"
    by (auto simp: less_eq_div_iff_mult_less_eq)
  moreover have "(of_nat (min 12 q) = (12 :: 4 word)) \<longleftrightarrow> 12 \<le> q" for q
    using small_eq [of "min 12 q" 12] by (auto simp: min_def)
  ultimately show ?thesis
    using brk_state [OF assms, of L n] by (cases "n \<le> L + 2") (simp_all add: brk_now_def Let_def)
qed

lemma brk_pulse:
  assumes "baud_locked (u_baud u)" "quiet u" "brk_idle u" "\<not> brk_prev (u_brk u)"
  shows "brk (u_brk (uart_run (\<lambda>i. L \<le> i) n u)) \<longleftrightarrow>
    n = 12 * bit_clocks (u_baud u) + 2 \<and> 12 * bit_clocks (u_baud u) \<le> L"
proof (cases n)
  case 0
  then show ?thesis using assms by (simp add: brk_def brk_now_def brk_idle_def)
next
  case (Suc m)
  have "brk_prev (u_brk (uart_run (\<lambda>i. L \<le> i) n u)) = brk_now (u_brk (uart_run (\<lambda>i. L \<le> i) m u))"
    using assms(1) by (simp add: Suc run_brk brk_clk_def Let_def del: uart_run.simps)
  then show ?thesis unfolding brk_def brk_now_iff [OF assms(1-3)] using Suc by auto
qed

lemma break_no_byte:
  assumes "baud_locked (u_baud u)" "quiet u" "baud_div (u_baud u) \<noteq> 0" "12 * bit_clocks (u_baud u) \<le> L" "L + 3 \<le> n"
  shows "\<not> rd_valid (u_rx (uart_run (\<lambda>i. L \<le> i) n u))"
proof -
  let ?T = "bit_clocks (u_baud u)" and ?s = "wire (u_line u) (\<lambda>i. L \<le> i)" and ?d = "u_baud u"
  let ?f = "\<lambda>i. ?s (2 + i)" and ?m = "sample_at (u_baud u) 9" and ?b = "unat (baud_div (u_baud u))"
  have s: "?s i = (i \<le> 2 \<or> L + 3 \<le> i)" for i using assms(2) by (auto simp: wire_def quiet_def)
  have "0 < ?b" using assms(3) by (simp add: unat_gt_0)
  then have "?b div 2 < ?b" by simp
  then have m: "?m \<le> 10 * ?T" "sample_at ?d 0 \<le> ?m" by (simp_all add: sample_at_def bit_clocks_def)
  have f: "\<not> ?f i" if "1 \<le> i" "i \<le> ?m" for i using that m(1) assms(4) by (simp add: s)
  have b: "\<not> rx_busy (u_rx u)" and f0: "?f 0" using assms(2) by (simp_all add: quiet_def s)
  have p: "1 \<le> sample_at ?d k" for k by (simp add: sample_at_def)
  let ?r = "rx_run ?d ?f ?m (u_rx u)"
  have r: "\<not> rx_busy ?r" "rd_valid ?r = rd_valid (u_rx u)"
    using rx_no_frame [where s = ?f, OF assms(1) b f0 f f f] m(2) p by simp_all
  have "rx_run ?d ?s (2 + (?m + (n - 2 - ?m))) (u_rx u) = rx_run ?d (\<lambda>i. ?f (?m + i)) (n - 2 - ?m) ?r"
    using assms(2) by (simp only: rx_run_add) (simp add: rx_idle quiet_def s)
  also have "\<dots> = ?r" using r(1) by (intro rx_no_fall) (auto simp: s sample_at_def)
  finally have "rx_run ?d ?s (2 + (?m + (n - 2 - ?m))) (u_rx u) = ?r" .
  moreover have "2 + (?m + (n - 2 - ?m)) = n" using m(1) assms(4,5) by linarith
  ultimately have "u_rx (uart_run (\<lambda>i. L \<le> i) n u) = ?r"
    by (simp only: run_locked [OF assms(1)])
  then show ?thesis using r(2) assms(2) by (simp add: quiet_def)
qed

text \<open>C27: The break detector pulses for exactly one clock, two clocks after the line has been low for
  twelve bit periods, and never for a shorter low phase, so no frame is taken for a break; and a
  break is not delivered as a byte.\<close>

theorem break_pulses:
  assumes "baud_locked (u_baud u)" "quiet u" "brk_idle u" "\<not> brk_prev (u_brk u)" "baud_div (u_baud u) \<noteq> 0"
  shows "(brk (u_brk (uart_run (\<lambda>i. L \<le> i) n u)) \<longleftrightarrow>
      n = 12 * bit_clocks (u_baud u) + 2 \<and> 12 * bit_clocks (u_baud u) \<le> L) \<and>
    (12 * bit_clocks (u_baud u) \<le> L \<and> L + 3 \<le> n \<longrightarrow> \<not> rd_valid (u_rx (uart_run (\<lambda>i. L \<le> i) n u)))"
  using brk_pulse [OF assms(1-4)] break_no_byte [OF assms(1,2,5)] by blast

lemma break_pulses_witness:
  "brk (u_brk (uart_run (\<lambda>i. 30 \<le> i) 26 (demo_uart 1))) \<and> \<not> brk (u_brk (uart_run (\<lambda>i. 18 \<le> i) 26 (demo_uart 1))) \<and>
   \<not> rd_valid (u_rx (uart_run (\<lambda>i. 30 \<le> i) 40 (demo_uart 1)))"
proof -
  have h: "baud_locked (u_baud (demo_uart 1))" "quiet (demo_uart 1)" "brk_idle (demo_uart 1)" "\<not> brk_prev (u_brk (demo_uart 1))"
    "baud_div (u_baud (demo_uart 1)) \<noteq> 0" "bit_clocks (u_baud (demo_uart 1)) = 2"
    by code_simp+
  show ?thesis
    using break_pulses [OF h(1-5), of 30 26] break_pulses [OF h(1-5), of 18 26] break_pulses [OF h(1-5), of 30 40] h(6) by simp
qed

end
