(* ===== verification/Debug_Soc.thy ===== *)
theory Debug_Soc
  imports Uart_Break Core_Handlers
begin

text \<open>
  rtl/attorv32_dbg.v without BENCH: the core, the breakpoint unit and the debug UART on one clock,
  with the read mux of the I/O page. Two things go wrong where they meet: the core's loads of the
  breakpoint unit read zero, and a break is noticed only if the core executes at the one clock of
  the detector's pulse.
\<close>

section \<open>The SoC on one clock\<close>

record debug_soc =
  s_uart :: dbg_uart
  s_bkpt :: hw_bkpt
  s_core :: core

definition sel_uart :: "u32 \<Rightarrow> bool" where
  "sel_uart a \<longleftrightarrow> page_sel a = 2 \<and> io_slot a = 0 \<and> sys_subslot a = 0"

definition bp_rdata :: "debug_soc \<Rightarrow> u32" where
  "bp_rdata s = (let a = ucast (core_mem_addr (s_core s))
     in hw_bkpt_rd (s_bkpt s) (sel_bkpt a \<and> mem_rstrb (s_core s)) (sys_reg a))"

definition sys_rdata :: "debug_soc \<Rightarrow> u32" where
  "sys_rdata s = (let a = ucast (core_mem_addr (s_core s))
     in if sys_subslot a = 0
        then (if bit (sys_reg a) 0 then uart_status_reg (s_uart s) else ucast (rd_data (u_rx (s_uart s))))
        else if sys_subslot a = 1 then bp_rdata s
        else 0)"

definition soc_io_rdata :: "debug_soc \<Rightarrow> u32" where
  "soc_io_rdata s = (if io_slot (ucast (core_mem_addr (s_core s))) = 0 then sys_rdata s else 0)"

text \<open>\<open>uart_break\<close> is the wire from the break detector to the core's halt request.\<close>

definition soc_clk :: "14 word \<Rightarrow> bool \<Rightarrow> bool \<Rightarrow> bool \<Rightarrow> debug_soc \<Rightarrow> debug_soc" where
  "soc_clk mtvec uart_break irq rx_pin s =
     (let c = s_core s; a = ucast (core_mem_addr c); data = sel_uart a \<and> sys_reg a = 0;
          bc = debug_clk mtvec \<lparr>interrupt_request = irq, nmi_request = False, dbg_halt_req = uart_break,
                 io_rdata = soc_io_rdata s\<rparr> (s_bkpt s, c)
      in \<lparr>s_uart = dbg_uart_clk True rx_pin
            (if data \<and> mem_wmask c \<noteq> 0 then Some (ucast (mem_wdata a (rs2_reg c))) else None)
            (data \<and> mem_rstrb c) (s_uart s),
          s_bkpt = fst bc, s_core = snd bc\<rparr>)"

definition debug_soc_clk :: "14 word \<Rightarrow> bool \<Rightarrow> bool \<Rightarrow> debug_soc \<Rightarrow> debug_soc" where
  "debug_soc_clk mtvec irq rx_pin s = soc_clk mtvec (brk (u_brk (s_uart s))) irq rx_pin s"

fun soc_run :: "14 word \<Rightarrow> (nat \<Rightarrow> bool) \<Rightarrow> (nat \<Rightarrow> bool) \<Rightarrow> nat \<Rightarrow> debug_soc \<Rightarrow> debug_soc" where
  "soc_run mtvec irq rx 0 s = s"
| "soc_run mtvec irq rx (Suc n) s = debug_soc_clk mtvec (irq n) (rx n) (soc_run mtvec irq rx n s)"

text \<open>The same SoC with the wire of the break detector cut.\<close>

fun cut_run :: "14 word \<Rightarrow> (nat \<Rightarrow> bool) \<Rightarrow> (nat \<Rightarrow> bool) \<Rightarrow> nat \<Rightarrow> debug_soc \<Rightarrow> debug_soc" where
  "cut_run mtvec irq rx 0 s = s"
| "cut_run mtvec irq rx (Suc n) s = soc_clk mtvec False (irq n) (rx n) (cut_run mtvec irq rx n s)"

section \<open>Loads from the I/O page\<close>

lemma soc_core: "\<exists>q. io_rdata q = soc_io_rdata s \<and> s_core (debug_soc_clk m irq rx s) = core_clk m q (s_core s)"
  by (rule exI [of _ "\<lparr>interrupt_request = irq, nmi_request = False,
      dbg_halt_req = brk (u_brk (s_uart s)) \<or> halt_req (s_bkpt s), io_rdata = soc_io_rdata s\<rparr>"])
    (simp add: debug_soc_clk_def soc_clk_def debug_clk_def Let_def)

lemma soc_core_run: "\<exists>qs. length qs = n \<and> s_core (soc_run m irq rx n s) = fold (core_clk m) qs (s_core s)"
proof (induction n)
  case (Suc n)
  then obtain qs where "length qs = n" "s_core (soc_run m irq rx n s) = fold (core_clk m) qs (s_core s)" by blast
  moreover obtain q where "s_core (soc_run m irq rx (Suc n) s) = core_clk m q (s_core (soc_run m irq rx n s))"
    using soc_core [of "soc_run m irq rx n s" m "irq n" "rx n"] by auto
  ultimately show ?case by (intro exI [of _ "qs @ [q]"]) simp
qed simp

lemma load_zero: "load_result i a 0 = 0"
  by (cases "access_width i") (simp_all add: load_result_def load_sign_def LOAD_byte_def LOAD_halfword_def rep_def bits_def Let_def)

lemma execute_waits:
  assumes "executing s c" "waits p s" "\<not> wfi_stall True p (arch_instr s)"
  shows "fsm_state (core_clk m p c) = S_WAIT" "core_mem_addr (core_clk m p c) = arch_addr s"
proof -
  note v = executing_values [OF assms(1)]
  show "fsm_state (core_clk m p c) = S_WAIT" by (simp add: step_execute [OF assms(1,3)] assms(2))
  then show "core_mem_addr (core_clk m p c) = arch_addr s"
    by (simp add: step_execute [OF assms(1,3)] core_mem_addr_def assms(2) data_clk_def Let_def v arch_addr_def)
qed

lemma wb_io: "page_sel (ucast (arch_addr a)) = 2 \<Longrightarrow> isLoad (arch_instr a) \<Longrightarrow>
    arch_wb a (arch_data p io a) = load_result (arch_instr a) (ucast (arch_addr a)) io"
  by (simp add: arch_wb_def load_only arch_data_def)

text \<open>The clock of the strobe and the one in which the core takes the data.\<close>

lemma io_load:
  assumes "at_fetch (s_core s)" "a = arch_of (s_core s)" "code_ok a" "k = fetch_cycles (s_core s)"
    and "isLoad (arch_instr a)" "rdId (arch_instr a) \<noteq> 0" "page_sel (ucast (arch_addr a)) = 2"
    and "csr_mcause (a_csrs a)" "dbg_halt_mask (a_csrs a)"
  shows "executing a (s_core (soc_run m irq rx k s))"
    "fsm_state (s_core (soc_run m irq rx (Suc k) s)) = S_WAIT"
    "core_mem_addr (s_core (soc_run m irq rx (Suc k) s)) = arch_addr a"
    "registerFile (s_core (soc_run m irq rx (Suc (Suc k)) s)) (rdId (arch_instr a)) =
       load_result (arch_instr a) (ucast (arch_addr a)) (soc_io_rdata (soc_run m irq rx (Suc k) s))"
    "pc_reg (s_core (soc_run m irq rx (Suc (Suc k)) s)) = arch_pc_new a"
proof -
  let ?s1 = "soc_run m irq rx k s" and ?s2 = "soc_run m irq rx (Suc k) s" and ?t = "soc_run m irq rx (Suc (Suc k)) s"
  obtain qs where "length qs = k" "s_core ?s1 = fold (core_clk m) qs (s_core s)" using soc_core_run by blast
  then show x: "executing a (s_core ?s1)"
    using fetch_executes [OF assms(1) assms(3) [unfolded assms(2)]] assms(2,4) by simp
  obtain q where q: "s_core ?s2 = core_clk m q (s_core ?s1)"
    using soc_core [of ?s1 m "irq k" "rx k"] by auto
  have nt: "\<not> trap_entry True q (arch_instr a) (a_csrs a)" for q
    using assms(8,9) by (auto simp: trap_entry_def interrupt_accepted_def nmi_accepted_def dbg_halt_accepted_def env_trap_accepted_def)
  have nw: "\<not> wfi_stall True q (arch_instr a)" "\<not> isStore (arch_instr a)" "\<not> isBranch (arch_instr a)"
    using assms(5) by (auto simp: wfi_stall_def is_wfi_def isSYSTEM_def isLoad_def isStore_def isBranch_def)
  have w: "waits q a" using assms(5) nt by (simp add: waits_def needToWait_def)
  have ok: "step_ok q a" using assms(3) nw w by (simp add: step_ok_def)
  note f = execute_waits [OF x w nw(1), of m, folded q]
  then show "fsm_state (s_core ?s2) = S_WAIT" "core_mem_addr (s_core ?s2) = arch_addr a" by blast+
  obtain q' where "s_core ?t = core_clk m q' (s_core ?s2)" "io_rdata q' = soc_io_rdata ?s2"
    using soc_core [of ?s2 m "irq (Suc k)" "rx (Suc k)"] by (metis soc_run.simps(2))
  then have t: "arch_of (s_core ?t) = arch_step m q (soc_io_rdata ?s2) a"
    using execute_two(1) [OF x ok w, of m q'] q by (simp del: soc_run.simps)
  have "registerFile c = a_regs (arch_of c)" "pc_reg c = a_pc (arch_of c)" for c by (simp_all add: arch_of_def)
  then show "registerFile (s_core ?t) (rdId (arch_instr a)) =
      load_result (arch_instr a) (ucast (arch_addr a)) (soc_io_rdata ?s2)" "pc_reg (s_core ?t) = arch_pc_new a"
    using t nt nw assms(6) wb_io [OF assms(7,5)] by (simp_all add: arch_step_fields write_reg_def del: soc_run.simps)
qed

text \<open>C14: In the clocked SoC the stub cannot read the breakpoint unit: a load from any of its
  registers, in a trap handler entered by a debug halt, puts zero into the destination register
  and goes on, whatever the unit holds, because the unit answers only in the clock of the strobe
  and the core takes the data in the next one.\<close>

theorem unit_reads_zero:
  assumes "at_fetch (s_core s)" "a = arch_of (s_core s)" "code_ok a" "n = fetch_cycles (s_core s) + 2"
    and "isLoad (arch_instr a)" "rdId (arch_instr a) \<noteq> 0" "sel_bkpt (ucast (arch_addr a))"
    and "csr_mcause (a_csrs a)" "dbg_halt_mask (a_csrs a)"
  shows "let c = s_core (soc_run m irq rx n s) in registerFile c (rdId (arch_instr a)) = 0 \<and> pc_reg c = arch_pc_new a"
proof -
  have p: "page_sel (ucast (arch_addr a)) = 2" using assms(7) by (simp add: sel_bkpt_def)
  note l = io_load [OF assms(1-3) refl assms(5,6) p assms(8,9), of m irq rx]
  have "soc_io_rdata (soc_run m irq rx (Suc (fetch_cycles (s_core s))) s) = 0"
    using l(2,3) assms(7) by (simp add: soc_io_rdata_def sys_rdata_def bp_rdata_def hw_bkpt_rd_def mem_rstrb_def sel_bkpt_def Let_def del: soc_run.simps)
  then show ?thesis using l(4,5) assms(4) by (simp add: load_zero Let_def del: soc_run.simps)
qed

definition demo_unit :: hw_bkpt where
  "demo_unit = \<lparr>bp_addr = (\<lambda>_. 0x20), bp_en = 3, bp_hit = 0, halt_req = False\<rparr>"

definition stub_soc :: "u32 \<Rightarrow> debug_soc" where
  "stub_soc instr =
     (let c = demo_core (code_words [(0, instr)]) False True 0
      in \<lparr>s_uart = demo_uart 0, s_bkpt = demo_unit,
          s_core = c\<lparr>registerFile := (\<lambda>_. 0x2020), core_csrs := (core_csrs c)\<lparr>dbg_halt_mask := True\<rparr>\<rparr>\<rparr>)"

lemma unit_reads_zero_witness:
  "hw_bkpt_rd (s_bkpt (stub_soc 0x0085A503)) True 2 = 4 \<and>
   registerFile (s_core (soc_run 0x1000 (\<lambda>_. True) (\<lambda>_. True) 4 (stub_soc 0x0085A503))) 10 = 0"
proof -
  let ?s = "stub_soc 0x0085A503"
  let ?a = "arch_of (s_core ?s)"
  have h: "at_fetch (s_core ?s)" "code_ok ?a" "4 = fetch_cycles (s_core ?s) + 2" "isLoad (arch_instr ?a)" 
    "rdId (arch_instr ?a) = 10" "sel_bkpt (ucast (arch_addr ?a))" "csr_mcause (a_csrs ?a)" "dbg_halt_mask (a_csrs ?a)"
    "hw_bkpt_rd (s_bkpt ?s) True 2 = 4"
    by code_simp+
  have "rdId (arch_instr ?a) \<noteq> 0" using h(5) by simp
  from unit_reads_zero [OF h(1) refl h(2-4) this h(6-8), of "0x1000" "\<lambda>_. True" "\<lambda>_. True"] h(5,9)
  show ?thesis by (simp add: Let_def)
qed

text \<open>While no frame arrives the receiver keeps its byte, however often it is read.\<close>

lemma idle_line:
  assumes "rx_sync0 (u_line (s_uart s))" "rx_sync1 (u_line (s_uart s))" "rx_d (u_line (s_uart s))" "\<not> rx_busy (u_rx (s_uart s))"
    and "\<forall>i<n. rx i"
  shows "let u = s_uart (soc_run m irq rx n s) in rx_sync0 (u_line u) \<and> rx_sync1 (u_line u) \<and> rx_d (u_line u) \<and>
    \<not> rx_busy (u_rx u) \<and> rd_data (u_rx u) = rd_data (u_rx (s_uart s))"
  using assms(5)
proof (induction n)
  case (Suc n)
  then show ?case
    by (auto simp: debug_soc_clk_def soc_clk_def Let_def line_clk_def rx_clk_def rx_fall_def)
qed (use assms(1-4) in simp)

theorem uart_data_load:
  assumes "at_fetch (s_core s)" "a = arch_of (s_core s)" "code_ok a" "n = fetch_cycles (s_core s) + 2"
    and "isLoad (arch_instr a)" "rdId (arch_instr a) \<noteq> 0" "sel_uart (ucast (arch_addr a))" "sys_reg (ucast (arch_addr a)) = 0"
    and "csr_mcause (a_csrs a)" "dbg_halt_mask (a_csrs a)"
    and "rx_sync0 (u_line (s_uart s))" "rx_sync1 (u_line (s_uart s))" "rx_d (u_line (s_uart s))" "\<not> rx_busy (u_rx (s_uart s))"
    and "\<forall>i<n. rx i"
  shows "let t = soc_run m irq rx n s
    in registerFile (s_core t) (rdId (arch_instr a)) =
         load_result (arch_instr a) (ucast (arch_addr a)) (ucast (rd_data (u_rx (s_uart s)))) \<and>
       pc_reg (s_core t) = arch_pc_new a \<and> \<not> rd_valid (u_rx (s_uart t))"
proof -
  let ?k = "fetch_cycles (s_core s)"
  have p: "page_sel (ucast (arch_addr a)) = 2" using assms(7) by (simp add: sel_uart_def)
  note l = io_load [OF assms(1-3) refl assms(5,6) p assms(9,10), of m irq rx]
  note u = idle_line [OF assms(11-14), of _ rx m irq, unfolded Let_def]
  have u1: "\<forall>i<?k. rx i" "\<forall>i<Suc ?k. rx i" using assms(4,15) by auto
  have "soc_io_rdata (soc_run m irq rx (Suc ?k) s) = ucast (rd_data (u_rx (s_uart s)))"
    using l(2,3) u [OF u1(2)] assms(7,8)
    by (simp add: soc_io_rdata_def sys_rdata_def sel_uart_def Let_def del: soc_run.simps)
  moreover have "\<not> rd_valid (u_rx (s_uart (soc_run m irq rx (Suc (Suc ?k)) s)))"
  proof -
    have x: "fsm_state (s_core (soc_run m irq rx ?k s)) = S_EXECUTE" "instr_reg (s_core (soc_run m irq rx ?k s)) = arch_instr a"
      "core_mem_addr (s_core (soc_run m irq rx ?k s)) = arch_addr a" using executing_values [OF l(1)] by auto
    have "\<not> rd_valid (u_rx (s_uart (soc_run m irq rx (Suc ?k) s)))"
      using x u [OF u1(1)] assms(5,7,8)
      by (simp add: debug_soc_clk_def soc_clk_def Let_def rx_clk_def rx_fall_def mem_rstrb_def)
    moreover have "rx_sync1 (u_line (s_uart (soc_run m irq rx (Suc ?k) s)))" "\<not> rx_busy (u_rx (s_uart (soc_run m irq rx (Suc ?k) s)))"
      using u [OF u1(2)] by blast+
    ultimately show ?thesis
      unfolding soc_run.simps(2) [of m irq rx "Suc ?k"]
      by (simp add: debug_soc_clk_def [of m "irq (Suc ?k)"] soc_clk_def [of m _ "irq (Suc ?k)"] Let_def rx_clk_def rx_fall_def del: soc_run.simps)
  qed
  ultimately show ?thesis using l(4,5) assms(4) by (simp add: Let_def del: soc_run.simps)
qed

lemma uart_data_load_witness:
  "let s = (stub_soc 0x0005C503)\<lparr>s_uart := (demo_uart 0)\<lparr>u_rx := (u_rx (demo_uart 0))\<lparr>rd_data := 0x24, rd_valid := True\<rparr>\<rparr>,
         s_core := (s_core (stub_soc 0x0005C503))\<lparr>registerFile := (\<lambda>_. 0x2000)\<rparr>\<rparr>;
       t = soc_run 0x1000 (\<lambda>_. False) (\<lambda>_. True) 4 s
   in registerFile (s_core t) 10 = 0x24 \<and> \<not> rd_valid (u_rx (s_uart t))"
proof -
  let ?s = "(stub_soc 0x0005C503)\<lparr>s_uart := (demo_uart 0)\<lparr>u_rx := (u_rx (demo_uart 0))\<lparr>rd_data := 0x24, rd_valid := True\<rparr>\<rparr>,
         s_core := (s_core (stub_soc 0x0005C503))\<lparr>registerFile := (\<lambda>_. 0x2000)\<rparr>\<rparr>"
  let ?a = "arch_of (s_core ?s)"
  have h: "at_fetch (s_core ?s)" "code_ok ?a" "4 = fetch_cycles (s_core ?s) + 2" "isLoad (arch_instr ?a)"
    "rdId (arch_instr ?a) = 10" "sel_uart (ucast (arch_addr ?a))" "sys_reg (ucast (arch_addr ?a)) = 0"
    "csr_mcause (a_csrs ?a)" "dbg_halt_mask (a_csrs ?a)" "rx_sync0 (u_line (s_uart ?s))" "rx_sync1 (u_line (s_uart ?s))"
    "rx_d (u_line (s_uart ?s))" "\<not> rx_busy (u_rx (s_uart ?s))"
    "load_result (arch_instr ?a) (ucast (arch_addr ?a)) (ucast (rd_data (u_rx (s_uart ?s)))) = 0x24"
    by code_simp+
  have "rdId (arch_instr ?a) \<noteq> 0" using h(5) by simp
  from uart_data_load [OF h(1) refl h(2-4) this h(6-13), of "\<lambda>_. True" "0x1000" "\<lambda>_. False"] h(5,14)
  show ?thesis by (simp add: Let_def)
qed

section \<open>Break\<close>

lemma halt_ignored:
  assumes "fsm_state c \<noteq> S_EXECUTE"
  shows "core_clk m \<lparr>interrupt_request = i, nmi_request = j, dbg_halt_req = h, io_rdata = d\<rparr> c =
    core_clk m \<lparr>interrupt_request = i, nmi_request = j, dbg_halt_req = h', io_rdata = d\<rparr> c"
  using assms
  by (cases "fsm_state c") (simp_all add: core_clk_def fsm_clk_def data_clk_def csr_idle core_mem_rdata_def cached_mem_def
      current_unaligned_long_def core_decomp_input_def Let_def)

lemma halt_masked:
  assumes "dbg_halt_mask (core_csrs c)" "is_wfi (instr_reg c) \<longrightarrow> i \<or> j"
  shows "core_clk m \<lparr>interrupt_request = i, nmi_request = j, dbg_halt_req = h, io_rdata = d\<rparr> c =
    core_clk m \<lparr>interrupt_request = i, nmi_request = j, dbg_halt_req = h', io_rdata = d\<rparr> c"
proof (cases "fsm_state c = S_EXECUTE")
  case True
  let ?p = "\<lambda>h. \<lparr>interrupt_request = i, nmi_request = j, dbg_halt_req = h, io_rdata = d\<rparr>"
  have w: "\<not> wfi_stall True (?p x) (instr_reg c)" for x using assms(2) by (auto simp: wfi_stall_def)
  have a: "\<not> dbg_halt_accepted e (?p x) (core_csrs c)" for e x using assms(1) by (simp add: dbg_halt_accepted_def)
  have t: "trap_entry e (?p h) k (core_csrs c) = trap_entry e (?p h') k (core_csrs c)"
    "interrupt_accepted e (?p h) (core_csrs c) = interrupt_accepted e (?p h') (core_csrs c)"
    "nmi_accepted e (?p h) (core_csrs c) = nmi_accepted e (?p h') (core_csrs c)" for e k
    by (auto simp: trap_entry_def a interrupt_accepted_def nmi_accepted_def)
  have "data_clk (?p h) c = data_clk (?p h') c"
    by (simp add: data_clk_def csr_clk_def t a core_mem_rdata_def cached_mem_def core_decomp_input_def Let_def)
  then show ?thesis by (simp add: core_clk_def fsm_clk_def True w t)
qed (rule halt_ignored)

definition same_line :: "dbg_uart \<Rightarrow> dbg_uart \<Rightarrow> bool" where
  "same_line u v \<longleftrightarrow> u_line u = u_line v \<and> u_baud u = u_baud v \<and> u_brk u = u_brk v"

lemma soc_line: "same_line (s_uart (soc_run m irq rx n s)) (uart_run rx n (s_uart s))"
  by (induction n) (simp_all add: same_line_def debug_soc_clk_def soc_clk_def Let_def)

definition pulse_unseen :: "bool \<Rightarrow> debug_soc \<Rightarrow> bool" where
  "pulse_unseen i s \<longleftrightarrow> fsm_state (s_core s) \<noteq> S_EXECUTE \<or>
     dbg_halt_mask (core_csrs (s_core s)) \<and> (is_wfi (instr_reg (s_core s)) \<longrightarrow> i \<or> halt_req (s_bkpt s))"

lemma unseen_clk: "pulse_unseen i s \<Longrightarrow> soc_clk m True i r s = soc_clk m False i r s"
  using halt_ignored [of "s_core s" m i False True "soc_io_rdata s" "halt_req (s_bkpt s)"]
    halt_masked [of "s_core s" i False m True "soc_io_rdata s" "halt_req (s_bkpt s)"]
  by (cases "halt_req (s_bkpt s)") (auto simp: pulse_unseen_def soc_clk_def debug_clk_def Let_def)

lemma break_unseen:
  assumes "baud_locked (u_baud (s_uart s))" "quiet (s_uart s)" "brk_idle (s_uart s)" "\<not> brk_prev (u_brk (s_uart s))"
    and "n = 12 * bit_clocks (u_baud (s_uart s)) + 2"
    and "n < k \<longrightarrow> pulse_unseen (irq n) (soc_run m irq (\<lambda>i. L \<le> i) n s)"
  shows "soc_run m irq (\<lambda>i. L \<le> i) k s = cut_run m irq (\<lambda>i. L \<le> i) k s"
  using assms(6)
proof (induction k)
  case (Suc k)
  let ?s = "soc_run m irq (\<lambda>i. L \<le> i) k s"
  have b: "brk (u_brk (s_uart ?s)) = (k = n \<and> 12 * bit_clocks (u_baud (s_uart s)) \<le> L)"
    using brk_pulse [OF assms(1-4)] soc_line [of m irq "\<lambda>i. L \<le> i" k s] assms(5) by (simp add: same_line_def)
  show ?case
  proof (cases "k = n \<and> 12 * bit_clocks (u_baud (s_uart s)) \<le> L")
    case True
    then have "pulse_unseen (irq k) ?s" using Suc.prems by simp
    then show ?thesis using unseen_clk [of "irq k" ?s m "L \<le> k"] b True Suc by (simp add: debug_soc_clk_def)
  next
    case False
    then have "\<not> brk (u_brk (s_uart ?s))" using b by blast
    then show ?thesis using Suc by (simp add: debug_soc_clk_def)
  qed
qed simp

lemma break_taken:
  assumes "brk (u_brk (s_uart s))" "fsm_state (s_core s) = S_EXECUTE" "\<not> dbg_halt_mask (core_csrs (s_core s))"
  shows "pc_reg (s_core (debug_soc_clk m irq rx s)) = m"
  using assms by (simp add: debug_soc_clk_def soc_clk_def debug_clk_def Let_def core_clk_def fsm_clk_def wfi_stall_def
      trap_entry_def dbg_halt_accepted_def)

lemma stalled_clk:
  assumes "fsm_state (s_core s) = S_EXECUTE" "is_wfi (instr_reg (s_core s))" "dbg_halt_mask (core_csrs (s_core s))"
    and "\<not> halt_req (s_bkpt s)"
  shows "pc_reg (s_core (soc_clk m True False r s)) = core_pc_new (s_core s)"
    and "pc_reg (s_core (soc_clk m False False r s)) = pc_reg (s_core s)"
    and "fsm_state (s_core (soc_clk m False False r s)) = S_EXECUTE"
  using assms
  by (simp_all add: soc_clk_def debug_clk_def core_clk_def fsm_clk_def data_clk_def wfi_stall_def trap_entry_def Let_def
      dbg_halt_accepted_def interrupt_accepted_def nmi_accepted_def env_trap_accepted_def is_env_trap_def)

text \<open>C15: A break on the serial line is noticed in one clock only, two clocks after the line has been
  low for twelve bit periods, however long it stays low afterwards. The UART has locked to its
  speed and is quiet before. In that clock, if the core is in S_EXECUTE and its debug halt is
  not masked, it goes to the trap vector. If it is in S_EXECUTE, masked, and in a wfi that
  neither an interrupt nor the breakpoint unit wakes, the pulse wakes it: it goes on to the next
  instruction, where without the pulse it would stay. In every other case the whole SoC runs for
  ever exactly as if the wire from the break detector to the core were cut.\<close>

theorem break_lost:
  assumes "baud_locked (u_baud (s_uart s))" "quiet (s_uart s)" "brk_idle (s_uart s)" "\<not> brk_prev (u_brk (s_uart s))"
    and "12 * bit_clocks (u_baud (s_uart s)) \<le> L" "n = 12 * bit_clocks (u_baud (s_uart s)) + 2"
    and "t = soc_run m irq (\<lambda>i. L \<le> i) n s" "c = s_core t"
    and "t' = soc_run m irq (\<lambda>i. L \<le> i) (Suc n) s" "u' = cut_run m irq (\<lambda>i. L \<le> i) (Suc n) s"
  shows "if fsm_state c = S_EXECUTE \<and> \<not> dbg_halt_mask (core_csrs c) then pc_reg (s_core t') = m
    else if fsm_state c = S_EXECUTE \<and> is_wfi (instr_reg c) \<and> \<not> irq n \<and> \<not> halt_req (s_bkpt t)
    then pc_reg (s_core t') = core_pc_new c \<and> pc_reg (s_core u') = pc_reg c \<and> fsm_state (s_core u') = S_EXECUTE
    else soc_run m irq (\<lambda>i. L \<le> i) k s = cut_run m irq (\<lambda>i. L \<le> i) k s"
proof -
  have b: "brk (u_brk (s_uart t))"
    using brk_pulse [OF assms(1-4), of L n] soc_line [of m irq "\<lambda>i. L \<le> i" n s] assms(5-7) by (simp add: same_line_def)
  have t': "t' = debug_soc_clk m (irq n) (L \<le> n) t" and u': "u' = soc_clk m False (irq n) (L \<le> n) t"
    using break_unseen [OF assms(1-4,6), of n irq m L] assms(7,9,10) by simp_all
  show ?thesis
    using break_unseen [OF assms(1-4,6), of k irq m L] break_taken [OF b] stalled_clk [of t m "L \<le> n"] b assms(7,8)
    by (auto simp: t' u' pulse_unseen_def debug_soc_clk_def)
qed

definition loop_soc :: debug_soc where
  "loop_soc = \<lparr>s_uart = demo_uart 0, s_bkpt = demo_unit,
     s_core = demo_core (code_words [(0, 0x13), (1, 0x6F)]) False False 0\<rparr>"

lemma break_lost_witness:
  "soc_run 0x1000 (\<lambda>_. False) (\<lambda>i. 40 \<le> i) 60 loop_soc = cut_run 0x1000 (\<lambda>_. False) (\<lambda>i. 40 \<le> i) 60 loop_soc"
proof -
  let ?t = "soc_run 0x1000 (\<lambda>_. False) (\<lambda>i. 40 \<le> i) 14 loop_soc"
  have h: "baud_locked (u_baud (s_uart loop_soc))" "quiet (s_uart loop_soc)" "brk_idle (s_uart loop_soc)"
    "\<not> brk_prev (u_brk (s_uart loop_soc))" "12 * bit_clocks (u_baud (s_uart loop_soc)) \<le> 40"
    "14 = 12 * bit_clocks (u_baud (s_uart loop_soc)) + 2"
    by code_simp+
  have c: "fsm_state (s_core ?t) \<noteq> S_EXECUTE"
    by code_simp
  show ?thesis using break_lost [OF h refl refl refl refl, of "0x1000" "\<lambda>_. False" 60] c by simp
qed

end
