(* ===== verification/Core_Counters.thy ===== *)
theory Core_Counters
  imports Core_Pipeline
begin

text \<open>
  The core built with NRV_PERF_CSR: the cycle counter and the counter of retired instructions of
  rtl/attorv32.v beside the core, and the CSR reads that return them.
\<close>

section \<open>The counters\<close>

record perf =
  p_core :: core
  cycles :: "64 word"
  instret :: "64 word"

definition instr_retired :: "pins \<Rightarrow> core \<Rightarrow> bool" where
  "instr_retired p c \<longleftrightarrow>
     fsm_state c = S_EXECUTE \<and> \<not> needToWait (instr_reg c) \<and> \<not> wfi_stall True p (instr_reg c) \<or>
     fsm_state c = S_EXECUTE \<and> needToWait (instr_reg c) \<and> trap_entry True p (instr_reg c) (core_csrs c) \<or>
     fsm_state c = S_WAIT"

definition perf_read :: "u32 \<Rightarrow> perf \<Rightarrow> u32" where
  "perf_read instr s =
     (if sel_csr 0xC00 instr then ucast (cycles s) else 0) OR
     (if sel_csr 0xC80 instr then ucast (drop_bit 32 (cycles s)) else 0) OR
     (if sel_csr 0xC02 instr then ucast (instret s) else 0) OR
     (if sel_csr 0xC82 instr then ucast (drop_bit 32 (instret s)) else 0)"

text \<open>A CSR instruction writes the counters' share of \<open>CSR_read\<close> as well; the other registers of the
  core do not depend on it.\<close>

definition perf_clk :: "14 word \<Rightarrow> pins \<Rightarrow> perf \<Rightarrow> perf" where
  "perf_clk mtvec p s =
     (let c = p_core s; i = instr_reg c; c' = core_clk mtvec p c
      in \<lparr>p_core = (if (fsm_state c = S_EXECUTE \<or> fsm_state c = S_WAIT) \<and> isSYSTEM i
                    then c'\<lparr>registerFile := write_reg i (CSR_read i (core_csrs c) OR perf_read i s) (registerFile c)\<rparr>
                    else c'),
          cycles = cycles s + 1,
          instret = (if instr_retired p c then instret s + 1 else instret s)\<rparr>)"

definition perf_reset :: "perf \<Rightarrow> perf" where
  "perf_reset s = \<lparr>p_core = core_reset (p_core s), cycles = cycles s + 1, instret = 0\<rparr>"

lemma perf_fields:
  "cycles (perf_clk m p s) = cycles s + 1"
  "instret (perf_clk m p s) = instret s + of_bool (instr_retired p (p_core s))"
  "\<not> isSYSTEM (instr_reg (p_core s)) \<Longrightarrow> p_core (perf_clk m p s) = core_clk m p (p_core s)"
  "fsm_state (p_core s) \<in> {S_FETCH_INSTR, S_WAIT_INSTR} \<Longrightarrow> p_core (perf_clk m p s) = core_clk m p (p_core s)"
  by (auto simp: perf_clk_def Let_def)

section \<open>An instruction\<close>

definition perf_instr :: "14 word \<Rightarrow> pins \<Rightarrow> perf \<Rightarrow> perf" where
  "perf_instr mtvec p s = fold (perf_clk mtvec) (replicate (instr_cycles p (p_core s)) p) s"

lemma perf_fetch:
  assumes "at_fetch (p_core s)" "code_ok (arch_of (p_core s))" "k \<le> fetch_cycles (p_core s)"
  shows "fold (perf_clk m) (replicate k p) s =
    s\<lparr>p_core := fold (core_clk m) (replicate k p) (p_core s), cycles := cycles s + of_nat k\<rparr>"
  using assms(3)
proof (induction k)
  case (Suc k)
  let ?c = "fold (core_clk m) (replicate k p) (p_core s)"
  have f: "fsm_state ?c \<in> {S_FETCH_INSTR, S_WAIT_INSTR}"
    using fetch_path [OF assms(1,2), of "replicate k p" m] Suc.prems by simp
  have r: "replicate (Suc k) p = replicate k p @ [p]" by (simp add: replicate_append_same)
  have nr: "\<not> instr_retired p ?c" using f by (auto simp: instr_retired_def)
  let ?s = "s\<lparr>p_core := ?c, cycles := cycles s + of_nat k\<rparr>"
  have "p_core (perf_clk m p ?s) = core_clk m p ?c" using perf_fields(4) [of ?s m p] f by simp
  moreover have "cycles (perf_clk m p ?s) = cycles s + of_nat (Suc k)" "instret (perf_clk m p ?s) = instret s"
    using nr by (simp_all add: perf_fields)
  ultimately have "perf_clk m p ?s = s\<lparr>p_core := core_clk m p ?c, cycles := cycles s + of_nat (Suc k)\<rparr>"
    by (intro perf.equality) simp_all
  then show ?case unfolding r fold_append o_apply using Suc by simp
qed simp

lemma regs_only: "at_fetch (c\<lparr>registerFile := r\<rparr>) = at_fetch c" "arch_of (c\<lparr>registerFile := r\<rparr>) = (arch_of c)\<lparr>a_regs := r\<rparr>"
  by (simp_all add: at_fetch_def current_cache_hit_def arch_of_def arch_word_def Let_def)

text \<open>What an instruction with the pins held does to the core and the counters.\<close>

definition counted :: "pins \<Rightarrow> arch \<Rightarrow> nat" where
  "counted p a = (if needToWait (arch_instr a) \<and> interrupt_accepted True p (a_csrs a) then 2 else 1)"

text \<open>The registers an instruction leaves when the counters' share of the CSR read is written as well.\<close>

definition with_read :: "u32 \<Rightarrow> perf \<Rightarrow> arch \<Rightarrow> arch \<Rightarrow> arch" where
  "with_read i s a t =
     (if isSYSTEM i then t\<lparr>a_regs := write_reg i (CSR_read i (a_csrs a) OR perf_read i s) (a_regs a)\<rparr> else t)"

lemma system_waits: "needToWait i \<Longrightarrow> \<not> isSYSTEM i"
  by (auto simp: needToWait_def isLoad_def isStore_def isSYSTEM_def)

lemma retired_executing:
  assumes "executing a d" "step_ok p a"
  shows "instr_retired p d \<longleftrightarrow> \<not> needToWait (arch_instr a) \<or> interrupt_accepted True p (a_csrs a) \<or> \<not> waits p a"
proof -
  have "interrupt_accepted True p (a_csrs a) \<Longrightarrow> trap_entry True p (arch_instr a) (a_csrs a)" by (simp add: trap_entry_def)
  then show ?thesis using assms by (auto simp: instr_retired_def executing_values step_ok_def waits_def)
qed

lemma perf_one:
  assumes x: "executing a (p_core s)" "step_ok p a" "\<not> waits p a"
  shows "at_fetch (p_core (perf_clk m p s))"
    "arch_of (p_core (perf_clk m p s)) = with_read (arch_instr a) s a (arch_step m p (io_rdata p) a)"
    "cycles (perf_clk m p s) = cycles s + 1" "instret (perf_clk m p s) = instret s + of_nat (counted p a)"
proof -
  note e = execute_one [OF x, of m] executing_values [OF x(1)]
  have "instr_retired p (p_core s)" "counted p a = 1"
    using retired_executing [OF x(1,2)] x(3) by (auto simp: counted_def waits_def)
  with e show "at_fetch (p_core (perf_clk m p s))"
    "arch_of (p_core (perf_clk m p s)) = with_read (arch_instr a) s a (arch_step m p (io_rdata p) a)"
    "cycles (perf_clk m p s) = cycles s + 1" "instret (perf_clk m p s) = instret s + of_nat (counted p a)"
    by (simp_all add: perf_clk_def with_read_def regs_only Let_def)
qed

lemma perf_two:
  fixes m :: "14 word"
  assumes x: "executing a (p_core s)" "step_ok p a" "waits p a"
  defines "t \<equiv> perf_clk m p (perf_clk m p s)"
  shows "at_fetch (p_core t)" "arch_of (p_core t) = with_read (arch_instr a) s a (arch_step m p (io_rdata p) a)"
    "cycles t = cycles s + 2" "instret t = instret s + of_nat (counted p a)"
proof -
  have ns: "\<not> isSYSTEM (arch_instr a)" "needToWait (arch_instr a)" using x(3) system_waits by (auto simp: waits_def)
  have nw: "\<not> wfi_stall True p (arch_instr a)" using x(2) by (simp add: step_ok_def)
  note v = executing_values [OF x(1)]
  have c1: "p_core (perf_clk m p s) = core_clk m p (p_core s)" using ns by (simp add: perf_fields v)
  have w: "fsm_state (core_clk m p (p_core s)) = S_WAIT" "instr_reg (core_clk m p (p_core s)) = arch_instr a"
    using x(3) by (simp_all add: step_execute [OF x(1) nw] data_clk_def Let_def v)
  have c2: "p_core t = core_clk m p (core_clk m p (p_core s))" using ns w c1 by (simp add: t_def perf_fields)
  show "at_fetch (p_core t)" "arch_of (p_core t) = with_read (arch_instr a) s a (arch_step m p (io_rdata p) a)"
    using execute_two [OF x, of m p] ns by (simp_all add: c2 with_read_def)
  show "cycles t = cycles s + 2" by (simp add: t_def perf_fields)
  have "instr_retired p (core_clk m p (p_core s))" by (simp add: instr_retired_def w)
  then show "instret t = instret s + of_nat (counted p a)"
    using retired_executing [OF x(1,2)] ns x(3) by (simp add: t_def perf_fields c1 counted_def)
qed

definition perf_arch_step :: "14 word \<Rightarrow> pins \<Rightarrow> perf \<Rightarrow> arch" where
  "perf_arch_step mtvec p s =
     (let a = arch_of (p_core s)
      in with_read (arch_instr a) (s\<lparr>cycles := cycles s + of_nat (fetch_cycles (p_core s))\<rparr>) a
           (arch_step mtvec p (io_rdata p) a))"

lemma perf_step:
  fixes s :: perf
  defines "a \<equiv> arch_of (p_core s)"
  assumes "at_fetch (p_core s)" "step_ok p a"
  shows "at_fetch (p_core (perf_instr m p s))"
    "arch_of (p_core (perf_instr m p s)) = perf_arch_step m p s"
    "cycles (perf_instr m p s) = cycles s + of_nat (instr_cycles p (p_core s))"
    "instret (perf_instr m p s) = instret s + of_nat (counted p a)"
proof -
  let ?k = "fetch_cycles (p_core s)"
  have ok: "code_ok (arch_of (p_core s))" using assms(3) by (simp add: step_ok_def a_def)
  define d where "d = fold (core_clk m) (replicate ?k p) (p_core s)"
  have x: "executing a d" unfolding d_def a_def by (rule fetch_executes [OF assms(2) ok]) simp
  define u where "u = s\<lparr>p_core := d, cycles := cycles s + of_nat ?k\<rparr>"
  have f: "fold (perf_clk m) (replicate ?k p) s = u"
    unfolding u_def d_def by (rule perf_fetch [OF assms(2) ok le_refl])
  have "perf_read i u = perf_read i (s\<lparr>cycles := cycles s + of_nat ?k\<rparr>)" for i by (simp add: perf_read_def u_def)
  then have wr: "perf_arch_step m p s = with_read (arch_instr a) u a (arch_step m p (io_rdata p) a)"
    by (simp add: perf_arch_step_def with_read_def a_def Let_def)
  have xu: "executing a (p_core u)" using x by (simp add: u_def)
  have i: "perf_instr m p s = (if waits p a then perf_clk m p (perf_clk m p u) else perf_clk m p u)"
    unfolding perf_instr_def instr_cycles_def replicate_add fold_append o_apply f
    by (simp add: a_def numeral_2_eq_2)
  have u: "cycles u = cycles s + of_nat ?k" "instret u = instret s" by (simp_all add: u_def)
  show "at_fetch (p_core (perf_instr m p s))" "arch_of (p_core (perf_instr m p s)) = perf_arch_step m p s"
    "cycles (perf_instr m p s) = cycles s + of_nat (instr_cycles p (p_core s))"
    "instret (perf_instr m p s) = instret s + of_nat (counted p a)"
    using perf_one [OF xu assms(3), of m] perf_two [OF xu assms(3), of m]
    by (simp_all add: i wr u instr_cycles_def a_def)
qed

section \<open>Programs\<close>

fun perf_ok :: "14 word \<Rightarrow> pins list \<Rightarrow> perf \<Rightarrow> bool" where
  "perf_ok mtvec [] s = True"
| "perf_ok mtvec (p # ps) s = (step_ok p (arch_of (p_core s)) \<and> perf_ok mtvec ps (perf_instr mtvec p s))"

fun summed :: "14 word \<Rightarrow> (pins \<Rightarrow> core \<Rightarrow> nat) \<Rightarrow> pins list \<Rightarrow> perf \<Rightarrow> nat" where
  "summed mtvec f [] s = 0"
| "summed mtvec f (p # ps) s = f p (p_core s) + summed mtvec f ps (perf_instr mtvec p s)"

definition interrupted_access :: "pins \<Rightarrow> core \<Rightarrow> nat" where
  "interrupted_access p c =
     (let a = arch_of c in of_bool (needToWait (arch_instr a) \<and> interrupt_accepted True p (a_csrs a)))"

lemma instret_counts:
  assumes "at_fetch (p_core s)" "perf_ok m ps s"
  shows "at_fetch (p_core (fold (perf_instr m) ps s)) \<and> cycles (fold (perf_instr m) ps s) = cycles s + of_nat (summed m instr_cycles ps s) \<and>
    instret (fold (perf_instr m) ps s) = instret s + of_nat (length ps + summed m interrupted_access ps s)"
  using assms
proof (induction ps arbitrary: s)
  case (Cons p ps)
  then have "step_ok p (arch_of (p_core s))" by simp
  note st = perf_step [OF Cons.prems(1) this, of m]
  have "perf_ok m ps (perf_instr m p s)" using Cons.prems by simp
  with Cons.IH [OF st(1) this] st(3,4) show ?case
    by (simp add: interrupted_access_def counted_def Let_def)
qed simp

text \<open>A CSR instruction that writes \<open>mstatus\<close> or \<open>mepc\<close> reads no counter: what it writes is as without them.\<close>

lemma counters_apart: "sel_csr 0x300 i \<or> sel_csr 0x341 i \<or> sel_csr 0x342 i \<Longrightarrow> perf_read i s = 0"
  by (auto simp: perf_read_def sel_csr_def)

text \<open>After reset the counter is one before any instruction has run: the state machine starts in \<open>S_WAIT\<close>.\<close>

lemma reset_counts_one: "instret (perf_clk m p (perf_reset s)) = 1"
  by (simp add: perf_fields perf_reset_def instr_retired_def core_reset_def)

section \<open>Reading the counters\<close>

text \<open>\<open>csrr rd, n\<close> of a counter: the low word of it as it stands after the fetch.\<close>

definition reads_counter :: "u32 \<Rightarrow> arch \<Rightarrow> bool" where
  "reads_counter n a \<longleftrightarrow> isSYSTEM (arch_instr a) \<and> sel_csr n (arch_instr a) \<and> rdId (arch_instr a) \<noteq> 0"

definition next_rd :: "perf \<Rightarrow> nat" where
  "next_rd s = rdId (arch_instr (arch_of (p_core s)))"

definition read_value :: "14 word \<Rightarrow> pins \<Rightarrow> perf \<Rightarrow> u32" where
  "read_value mtvec p s = registerFile (p_core (perf_instr mtvec p s)) (next_rd s)"

lemma counter_read:
  assumes "at_fetch (p_core s)" "step_ok p (arch_of (p_core s))" "reads_counter n (arch_of (p_core s))"
  shows "n = 0xC00 \<Longrightarrow> read_value m p s = ucast (cycles s + of_nat (fetch_cycles (p_core s)))"
    "n = 0xC02 \<Longrightarrow> read_value m p s = ucast (instret s)"
proof -
  let ?a = "arch_of (p_core s)"
  note f = perf_step(2) [OF assms(1,2), of m]
  have r: "read_value m p s = a_regs (perf_arch_step m p s) (rdId (arch_instr ?a))"
    unfolding read_value_def next_rd_def f [symmetric] by (simp add: arch_of_def)
  have nb: "\<not> (isBranch (arch_instr ?a) \<or> isStore (arch_instr ?a))"
    using assms(3) by (auto simp: reads_counter_def isSYSTEM_def isBranch_def isStore_def)
  show "n = 0xC00 \<Longrightarrow> read_value m p s = ucast (cycles s + of_nat (fetch_cycles (p_core s)))"
    "n = 0xC02 \<Longrightarrow> read_value m p s = ucast (instret s)"
    using assms(3) nb
    by (auto simp: r perf_arch_step_def with_read_def reads_counter_def write_reg_def perf_read_def CSR_read_def sel_csr_def Let_def)
qed

lemma low_word_add: "ucast (x + of_nat k :: 64 word) = (ucast x + of_nat k :: u32)"
proof (transfer, goal_cases)
  case (1 x k)
  show ?case using take_bit_add [of "LENGTH(32)" "take_bit LENGTH(64) x" "int k"] take_bit_add [of "LENGTH(32)" x "int k"]
    by simp
qed

lemma perf_ok_append: "perf_ok m (ps @ qs) s \<longleftrightarrow> perf_ok m ps s \<and> perf_ok m qs (fold (perf_instr m) ps s)"
  by (induction ps arbitrary: s) auto

text \<open>What a program that reads a counter before and after some instructions sees.\<close>

text \<open>C16: What a program sees that reads a performance counter before and after some instructions,
  with csrr as the benchmarks do: the cycle counter advances by the clocks that the clocked core
  takes, and the counter of retired instructions by their number, plus one for every load or
  store at which an interrupt is accepted, which the core counts twice.\<close>

theorem counters_measure:
  assumes "at_fetch (p_core s)" "perf_ok m ((p # ps) @ [q]) s" "t = fold (perf_instr m) (p # ps) s"
    and "reads_counter n (arch_of (p_core s))" "reads_counter n (arch_of (p_core t))"
  shows "(n = 0xC02 \<longrightarrow> read_value m q t - read_value m p s =
            of_nat (length (p # ps) + summed m interrupted_access (p # ps) s)) \<and>
         (n = 0xC00 \<longrightarrow> read_value m q t - read_value m p s =
            of_nat (summed m instr_cycles (p # ps) s + fetch_cycles (p_core t)) - of_nat (fetch_cycles (p_core s)))"
proof -
  have ok: "perf_ok m (p # ps) s" "step_ok q (arch_of (p_core t))" "step_ok p (arch_of (p_core s))"
    using assms(2) unfolding perf_ok_append by (simp_all add: assms(3))
  note c = instret_counts [OF assms(1) ok(1), folded assms(3)]
  note r = counter_read [OF assms(1) ok(3) assms(4), of m] counter_read [OF _ ok(2) assms(5), of m]
  have "instret t = instret s + of_nat (length (p # ps) + summed m interrupted_access (p # ps) s)"
    "cycles t = cycles s + of_nat (summed m instr_cycles (p # ps) s)" using c by (simp_all only:)
  then have "ucast (instret t) - ucast (instret s) = (of_nat (length (p # ps) + summed m interrupted_access (p # ps) s) :: u32)"
    "(ucast (cycles t) :: u32) = ucast (cycles s) + of_nat (summed m instr_cycles (p # ps) s)"
    by (simp_all only: low_word_add add_diff_cancel_left')
  with c show ?thesis by (auto simp only: r low_word_add of_nat_add) (simp_all add: algebra_simps)
qed

text \<open>Two instructions from one read to the other, the second a store at which an interrupt is accepted: the
  counter says three.\<close>

definition perf_demo :: perf where
  "perf_demo = \<lparr>p_core = (demo_core (code_words [(0, 0xC02022F3), (1, 0x04002023)]) True False 0)
     \<lparr>core_rom := (\<lambda>_. 0xC0202373)\<rparr>, cycles = 0, instret = 0\<rparr>"

lemma counters_measure_witness:
  "read_value 0x1000 (demo_pins False False) (fold (perf_instr 0x1000) [demo_pins False False, demo_pins True False] perf_demo) -
   read_value 0x1000 (demo_pins False False) perf_demo = 3"
proof -
  let ?p = "demo_pins False False" and ?q = "demo_pins True False"
  have h: "at_fetch (p_core perf_demo)" "perf_ok 0x1000 ((?p # [?q]) @ [?p]) perf_demo"
    "reads_counter 0xC02 (arch_of (p_core perf_demo))"
    "reads_counter 0xC02 (arch_of (p_core (fold (perf_instr 0x1000) (?p # [?q]) perf_demo)))"
    "length (?p # [?q]) + summed 0x1000 interrupted_access (?p # [?q]) perf_demo = 3"
    by code_simp+
  show ?thesis using counters_measure [OF h(1,2) refl h(3,4), unfolded h(5)] by simp
qed

end
