(* ===== verification/Ahb_Wrapper.thy ===== *)
theory Ahb_Wrapper
  imports Core_Pipeline
begin

text \<open>
  The AHB-Lite master of rtl/attorv32_ahbl.v: the state machine between the memory port of the core
  and the bus, the busy signals and the read register, with the core on it. The address width is that
  of the core model. The bus is an input (HREADY and HRDATA of each clock); a slave that answers
  without wait states, as the AHB-Lite protocol describes it, is modelled to state what a master gets.
\<close>

section \<open>The master\<close>

datatype hstate = H_IDLE | H_DATA

record ahbl =
  h_state :: hstate
  haddr :: u32
  hwrite :: bool
  hsize :: "3 word"
  hprot :: "4 word"
  htrans :: "2 word"
  is_write_d :: bool
  rdata_q :: u32

definition size_from_mask :: "4 word \<Rightarrow> 3 word" where
  "size_from_mask m = (if m = 15 then 2 else if m = 12 \<or> m = 3 then 1 else 0)"

text \<open>The request of the core in a clock: read strobe, write mask and address.\<close>

definition ahbl_clk :: "bool \<Rightarrow> bool \<Rightarrow> 4 word \<Rightarrow> u32 \<Rightarrow> bool \<Rightarrow> u32 \<Rightarrow> ahbl \<Rightarrow> ahbl" where
  "ahbl_clk resetn rstrb wmask a hready hrdata w =
     (if \<not> resetn
      then w\<lparr>h_state := H_IDLE, htrans := 0, haddr := 0, hwrite := False, hsize := 2, hprot := 3, is_write_d := False\<rparr>
      else case h_state w of
        H_IDLE \<Rightarrow>
          (if rstrb \<or> wmask \<noteq> 0
           then w\<lparr>htrans := 2, haddr := a, hwrite := (wmask \<noteq> 0),
                  hsize := (if wmask \<noteq> 0 then size_from_mask wmask else 2),
                  hprot := (if rstrb \<and> wmask = 0 then 2 else 3), is_write_d := (wmask \<noteq> 0), h_state := H_DATA\<rparr>
           else w\<lparr>htrans := 0\<rparr>)
      | H_DATA \<Rightarrow> w\<lparr>htrans := 0, h_state := (if hready then H_IDLE else H_DATA)\<rparr>)
     \<lparr>rdata_q := (if h_state w = H_DATA \<and> hready \<and> \<not> is_write_d w then hrdata else rdata_q w)\<rparr>"

definition mem_rbusy :: "bool \<Rightarrow> bool \<Rightarrow> ahbl \<Rightarrow> bool" where
  "mem_rbusy rstrb hready w \<longleftrightarrow> h_state w = H_IDLE \<and> rstrb \<or> h_state w = H_DATA \<and> \<not> hready \<and> \<not> is_write_d w"

definition mem_wbusy :: "4 word \<Rightarrow> bool \<Rightarrow> ahbl \<Rightarrow> bool" where
  "mem_wbusy wmask hready w \<longleftrightarrow> h_state w = H_IDLE \<and> wmask \<noteq> 0 \<or> h_state w = H_DATA \<and> \<not> hready \<and> is_write_d w"

section \<open>The core on a memory port\<close>

text \<open>
  A clock of the core with the word \<open>d\<close> on \<open>mem_rdata\<close> and the busy signals. It is \<open>core_clk\<close>, whose
  memory is made to read \<open>d\<close> everywhere, but for the two waits: in \<open>S_WAIT_INSTR\<close> nothing is latched,
  in \<open>S_WAIT\<close> the register is written and the state kept.
\<close>

definition port_sees :: "u32 \<Rightarrow> core \<Rightarrow> core" where
  "port_sees d c = c\<lparr>ram_rdata := d, core_rom := (\<lambda>_. d)\<rparr>"

definition port_clk :: "14 word \<Rightarrow> pins \<Rightarrow> u32 \<Rightarrow> bool \<Rightarrow> bool \<Rightarrow> core \<Rightarrow> core" where
  "port_clk mtvec p d rbusy wbusy c =
     (let c' = core_clk mtvec (p\<lparr>io_rdata := d\<rparr>) (port_sees d c)
      in if fsm_state c = S_WAIT_INSTR \<and> rbusy then c
         else if fsm_state c = S_WAIT \<and> (rbusy \<or> wbusy) then c'\<lparr>fsm_state := S_WAIT\<rparr>
         else c')"

lemma port_addr: "core_mem_addr (port_sees d c) = core_mem_addr c"
  by (simp add: port_sees_def core_mem_addr_def)

lemma port_rdata: "core_mem_rdata (p\<lparr>io_rdata := d\<rparr>) (port_sees d c) = d"
  by (simp add: core_mem_rdata_def Let_def) (simp add: port_sees_def)

lemma port_pins:
  "trap_entry ex (p\<lparr>io_rdata := d\<rparr>) i s = trap_entry ex p i s" "wfi_stall ex (p\<lparr>io_rdata := d\<rparr>) i = wfi_stall ex p i"
  "interrupt_accepted ex (p\<lparr>io_rdata := d\<rparr>) s = interrupt_accepted ex p s"
  "csr_clk ex (p\<lparr>io_rdata := d\<rparr>) i v a b s = csr_clk ex p i v a b s"
  by (simp_all add: trap_entry_def interrupt_accepted_def nmi_accepted_def dbg_halt_accepted_def env_trap_accepted_def
    wfi_stall_def csr_clk_def Let_def)

text \<open>With the memory of the debug SoC on the port it is the core of that SoC.\<close>

definition port_state :: "core \<Rightarrow> core" where
  "port_state c = c\<lparr>core_ram := (\<lambda>_. 0), core_rom := (\<lambda>_. 0), ram_rdata := 0\<rparr>"

lemma port_agrees: "port_state (port_clk m p (core_mem_rdata p c) False False c) = port_state (core_clk m p c)"
proof -
  let ?d = "core_mem_rdata p c"
  let ?p = "p\<lparr>io_rdata := ?d\<rparr>" and ?c = "port_sees ?d c"
  have hit: "current_cache_hit ?c = current_cache_hit c" by (simp add: current_cache_hit_def port_sees_def)
  have cm: "cached_mem ?p ?c = cached_mem p c" by (simp add: cached_mem_def hit port_rdata) (simp add: port_sees_def)
  have di: "core_decomp_input ?p ?c = core_decomp_input p c"
    by (simp add: core_decomp_input_def cm port_rdata) (simp add: port_sees_def)
  have ul: "current_unaligned_long ?p ?c = current_unaligned_long p c"
    by (simp add: current_unaligned_long_def cm) (simp add: port_sees_def)
  have pn: "core_pc_new ?c = core_pc_new c" by (simp add: core_pc_new_def port_sees_def)
  have nh: "next_cache_hit ?c = next_cache_hit c" "next_unaligned_long ?c = next_unaligned_long c"
    by (simp_all add: next_cache_hit_def next_unaligned_long_def pn) (simp_all add: port_sees_def)
  have f: "fsm_state ?c = fsm_state c" "instr_reg ?c = instr_reg c" "rs1_reg ?c = rs1_reg c" "rs2_reg ?c = rs2_reg c"
    "long_reg ?c = long_reg c" "pc_reg ?c = pc_reg c" "core_csrs ?c = core_csrs c" "registerFile ?c = registerFile c"
    "fetch_second_half ?c = fetch_second_half c" "cached_addr ?c = cached_addr c" "cached_data ?c = cached_data c"
    "skip_fetch ?c = skip_fetch c"
    by (simp_all add: port_sees_def)
  show ?thesis
    by (cases "fsm_state c")
      (auto simp: port_clk_def port_state_def core_clk_def fsm_clk_def data_clk_def Let_def port_pins hit cm di ul pn nh f port_addr port_rdata)
qed

section \<open>Core and master\<close>

record ahb_core =
  h_core :: core
  h_bus :: ahbl

definition ahb_clk :: "14 word \<Rightarrow> pins \<Rightarrow> bool \<Rightarrow> u32 \<Rightarrow> ahb_core \<Rightarrow> ahb_core" where
  "ahb_clk mtvec p hready hrdata s =
     (let c = h_core s; w = h_bus s; rs = mem_rstrb c; wm = mem_wmask c
      in \<lparr>h_core = port_clk mtvec p (rdata_q w) (mem_rbusy rs hready w) (mem_wbusy wm hready w) c,
          h_bus = ahbl_clk True rs wm (ucast (core_mem_addr c)) hready hrdata w\<rparr>)"

definition ahb_reset :: "bool \<Rightarrow> u32 \<Rightarrow> ahb_core \<Rightarrow> ahb_core" where
  "ahb_reset hready hrdata s =
     \<lparr>h_core = core_reset (h_core s), h_bus = ahbl_clk False False 0 0 hready hrdata (h_bus s)\<rparr>"

definition hwdata :: "core \<Rightarrow> u32" where
  "hwdata c = mem_wdata (ucast (ls_addr (instr_reg c) (rs1_reg c))) (rs2_reg c)"

text \<open>The core waits for the bus, and then takes what the read register held before the read.\<close>

lemma ahb_waits:
  assumes "fsm_state (h_core s) = S_WAIT_INSTR" "h_state (h_bus s) = H_DATA" "\<not> is_write_d (h_bus s)"
  shows "\<forall>b \<in> set bs. \<not> fst b \<Longrightarrow>
    h_core (fold (\<lambda>b. ahb_clk m p (fst b) (snd b)) bs s) = h_core s \<and>
    h_state (h_bus (fold (\<lambda>b. ahb_clk m p (fst b) (snd b)) bs s)) = H_DATA \<and>
    \<not> is_write_d (h_bus (fold (\<lambda>b. ahb_clk m p (fst b) (snd b)) bs s)) \<and>
    rdata_q (h_bus (fold (\<lambda>b. ahb_clk m p (fst b) (snd b)) bs s)) = rdata_q (h_bus s)"
proof (induction bs rule: rev_induct)
  case (snoc b bs)
  then show ?case
    using assms(1) by (simp add: ahb_clk_def port_clk_def ahbl_clk_def mem_rbusy_def Let_def)
qed (simp add: assms)

definition bus_run :: "14 word \<Rightarrow> pins \<Rightarrow> (bool \<times> u32) list \<Rightarrow> ahb_core \<Rightarrow> ahb_core" where
  "bus_run mtvec p bs s = fold (\<lambda>b. ahb_clk mtvec p (fst b) (snd b)) bs s"

theorem ahb_first_instruction:
  assumes "\<forall>b \<in> set ws. \<not> fst b" "s = ahb_reset hready hrdata q" 
    "t = bus_run m p (x # y # ws @ [(True, d)]) s"
  shows "fsm_state (h_core t) = S_EXECUTE \<and> instr_reg (h_core t) = decompressor (rdata_q (h_bus s)) \<and>
    cached_data (h_core t) = rdata_q (h_bus s) \<and> rdata_q (h_bus t) = d"
proof -
  define r where "r = rdata_q (h_bus s)"
  define u where "u = ahb_clk m p (fst y) (snd y) (ahb_clk m p (fst x) (snd x) s)"
  have a: "h_state (h_bus s) = H_IDLE" "fsm_state (h_core s) = S_WAIT" "h_core s = core_reset (h_core q)"
    by (simp_all add: assms(2) ahb_reset_def ahbl_clk_def core_reset_def)
  have s1: "fsm_state (h_core (ahb_clk m p (fst x) (snd x) s)) = S_FETCH_INSTR"
    "h_state (h_bus (ahb_clk m p (fst x) (snd x) s)) = H_IDLE" "rdata_q (h_bus (ahb_clk m p (fst x) (snd x) s)) = r"
    "cached_addr (h_core (ahb_clk m p (fst x) (snd x) s)) = - 1" "pc_reg (h_core (ahb_clk m p (fst x) (snd x) s)) = 0"
    "\<not> fetch_second_half (h_core (ahb_clk m p (fst x) (snd x) s))"
    using a(1,2) by (simp_all add: a(3) r_def ahb_clk_def port_clk_def step_wait port_sees_def core_reset_def mem_rbusy_def mem_wbusy_def
      mem_rstrb_def mem_wmask_def ahbl_clk_def Let_def)
  have s2: "fsm_state (h_core u) = S_WAIT_INSTR" "h_state (h_bus u) = H_DATA" "\<not> is_write_d (h_bus u)" "rdata_q (h_bus u) = r"
    "cached_addr (h_core u) = - 1" "pc_reg (h_core u) = 0" "\<not> fetch_second_half (h_core u)"
    using s1 by (simp_all add: u_def ahb_clk_def [of m p "fst y"] port_clk_def step_fetch port_sees_def mem_rbusy_def mem_wbusy_def
      mem_rstrb_def mem_wmask_def ahbl_clk_def Let_def)
  define v where "v = fold (\<lambda>b. ahb_clk m p (fst b) (snd b)) ws u"
  have v: "h_core v = h_core u" "h_state (h_bus v) = H_DATA" "\<not> is_write_d (h_bus v)" "rdata_q (h_bus v) = r"
    using ahb_waits [OF s2(1-3) assms(1), of m p] by (simp_all add: v_def s2(4))
  have t: "t = ahb_clk m p True d v"
    by (simp add: assms(3) bus_run_def v_def u_def)
  let ?c = "port_sees r (h_core u)" and ?p = "p\<lparr>io_rdata := r\<rparr>"
  have hit: "\<not> current_cache_hit ?c" "\<not> fetch_second_half ?c" "pc_reg ?c = 0" "fsm_state ?c = S_WAIT_INSTR"
    using s2 by (simp_all add: current_cache_hit_def port_sees_def word_addr_def)
  then have "core_decomp_input ?p ?c = r" "\<not> current_unaligned_long ?p ?c"
    by (simp_all add: core_decomp_input_def cached_mem_def port_rdata current_unaligned_long_def)
  then have "fsm_state (core_clk m ?p ?c) = S_EXECUTE" "instr_reg (core_clk m ?p ?c) = decompressor r" "cached_data (core_clk m ?p ?c) = r"
    using hit by (simp_all add: step_decode Let_def port_rdata)
  then show ?thesis
    using v s2 by (simp add: t ahb_clk_def port_clk_def mem_rbusy_def mem_rstrb_def ahbl_clk_def Let_def r_def)
qed

text \<open>The bus answers the fetch with \<open>nop\<close>; the core executes what the register held before.\<close>

definition demo_ahb :: ahb_core where
  "demo_ahb = \<lparr>h_core = demo_core (\<lambda>_. 0) True False 0,
     h_bus = \<lparr>h_state = H_IDLE, haddr = 0, hwrite = False, hsize = 2, hprot = 3, htrans = 0, is_write_d = False, rdata_q = 0x00500093\<rparr>\<rparr>"

lemma ahb_first_instruction_witness:
  "instr_reg (h_core (bus_run 0x1000 (demo_pins False False) [(True, 0), (True, 0), (False, 0), (True, 0x13)] (ahb_reset True 0 demo_ahb))) = 0x00500093"
proof -
  have w: "\<forall>b \<in> set [(False, 0 :: u32)]. \<not> fst b" by simp
  have "rdata_q (h_bus (ahb_reset True 0 demo_ahb)) = 0x00500093" "decompressor 0x00500093 = 0x00500093" by code_simp+
  then show ?thesis
    using ahb_first_instruction [OF w refl refl, where hready = True and hrdata = 0 and q = demo_ahb and d = "0x13" and m = "0x1000"
      and p = "demo_pins False False" and x = "(True, 0)" and y = "(True, 0)"] by simp
qed

section \<open>A slave without wait states\<close>

text \<open>
  It samples the address phase at every edge and answers in the next clock, the data phase: a read puts
  the word on HRDATA, a write takes HWDATA at the end of it. Outside a data phase of a read HRDATA is
  whatever the bus holds, an input.
\<close>

record slave =
  sl_mem :: "u32 \<Rightarrow> u32"
  data_phase :: "(u32 \<times> bool \<times> 3 word) option"

definition lanes :: "3 word \<Rightarrow> u32 \<Rightarrow> 4 word" where
  "lanes z a =
     (if z = 2 then 15 else if z = 1 then (if bit a 1 then 12 else 3)
      else if bit a 1 then (if bit a 0 then 8 else 4) else (if bit a 0 then 2 else 1))"

definition slave_hrdata :: "u32 \<Rightarrow> slave \<Rightarrow> u32" where
  "slave_hrdata idle s =
     (case data_phase s of Some (a, wr, z) \<Rightarrow> if wr then idle else sl_mem s (drop_bit 2 a) | None \<Rightarrow> idle)"

definition slave_clk :: "ahbl \<Rightarrow> u32 \<Rightarrow> slave \<Rightarrow> slave" where
  "slave_clk w wdata s =
     \<lparr>sl_mem = (case data_phase s of
        Some (a, wr, z) \<Rightarrow>
          if wr then (sl_mem s)(drop_bit 2 a := ram_merge (sl_mem s (drop_bit 2 a)) wdata (lanes z a)) else sl_mem s
      | None \<Rightarrow> sl_mem s),
      data_phase = (if htrans w = 2 then Some (haddr w, hwrite w, hsize w) else None)\<rparr>"

record board =
  b_core :: ahb_core
  b_slave :: slave

definition board_clk :: "14 word \<Rightarrow> pins \<times> u32 \<Rightarrow> board \<Rightarrow> board" where
  "board_clk mtvec x b =
     \<lparr>b_core = ahb_clk mtvec (fst x) True (slave_hrdata (snd x) (b_slave b)) (b_core b),
      b_slave = slave_clk (h_bus (b_core b)) (hwdata (h_core (b_core b))) (b_slave b)\<rparr>"

definition board_reset :: "(u32 \<Rightarrow> u32) \<Rightarrow> ahb_core \<Rightarrow> board" where
  "board_reset mem s = \<lparr>b_core = ahb_reset True 0 s, b_slave = \<lparr>sl_mem = mem, data_phase = None\<rparr>\<rparr>"

text \<open>
  The master looks at the bus in the clock of the address phase, when no data phase is under way.
\<close>

definition early :: "board \<Rightarrow> bool" where
  "early b \<longleftrightarrow> (h_state (h_bus (b_core b)) = H_IDLE \<longrightarrow> htrans (h_bus (b_core b)) = 0) \<and>
     (h_state (h_bus (b_core b)) = H_DATA \<longrightarrow> data_phase (b_slave b) = None)"

lemma early_clk: "early b \<Longrightarrow> early (board_clk m x b)"
  by (cases "h_state (h_bus (b_core b))")
    (auto simp: early_def board_clk_def ahb_clk_def ahbl_clk_def slave_clk_def Let_def split: if_splits)

lemma early_reset: "early (board_reset mem s)"
  by (simp add: early_def board_reset_def ahb_reset_def ahbl_clk_def)

text \<open>Two boards that differ in their memories only.\<close>

definition same_but_memory :: "board \<Rightarrow> board \<Rightarrow> bool" where
  "same_but_memory b b' \<longleftrightarrow> b_core b = b_core b' \<and> data_phase (b_slave b) = data_phase (b_slave b')"

lemma hrdata_unused: "h_state (h_bus s) = H_IDLE \<Longrightarrow> ahb_clk m p r d s = ahb_clk m p r d' s"
  by (simp add: ahb_clk_def ahbl_clk_def mem_rbusy_def mem_wbusy_def Let_def)

lemma same_clk:
  assumes "early b" "same_but_memory b b'"
  shows "same_but_memory (board_clk m x b) (board_clk m x b')"
proof (cases "h_state (h_bus (b_core b))")
  case H_IDLE
  then have "b_core (board_clk m x b) = b_core (board_clk m x b')"
    using assms(2) hrdata_unused [of "b_core b'"] by (simp add: board_clk_def same_but_memory_def)
  then show ?thesis using assms(2) by (simp add: same_but_memory_def board_clk_def slave_clk_def)
next
  case H_DATA
  then have "data_phase (b_slave b) = None" using assms(1) by (simp add: early_def)
  then show ?thesis using assms(2) by (simp add: same_but_memory_def board_clk_def slave_clk_def slave_hrdata_def)
qed

text \<open>C17: Behind the AHB-Lite wrapper the core never sees the memory. On a bus whose only slave
  answers without wait states, as the protocol describes it, the core and the wrapper run in
  exactly the same way whatever the memory contains, for any time, interrupts and contents of
  the idle bus: the wrapper looks at HREADY and HRDATA in the clock of the address phase, when
  the slave has not yet seen the address.\<close>

theorem ahb_memory_unseen:
  "b_core (fold (board_clk m) xs (board_reset mem s)) = b_core (fold (board_clk m) xs (board_reset mem' s))"
proof -
  have "same_but_memory (fold (board_clk m) xs b) (fold (board_clk m) xs b')" if "early b" "same_but_memory b b'" for b b'
    using that by (induction xs arbitrary: b b') (simp_all add: early_clk same_clk)
  from this [OF early_reset, of mem s "board_reset mem' s"] show ?thesis
    by (simp add: same_but_memory_def board_reset_def)
qed

section \<open>Stores\<close>

lemma lanes_mask: "lanes (size_from_mask (STORE_wmask z a)) a = STORE_wmask z a"
  by (cases z) (simp_all add: lanes_def size_from_mask_def)

lemma mask_nonzero: "STORE_wmask z a \<noteq> 0"
  by (cases z) simp_all

text \<open>A store from its execution to the data phase: the registers it writes from stay as they are.\<close>

lemma store_execute:
  fixes m :: "14 word" and d :: u32 and rb wb :: bool
  assumes "fsm_state c = S_EXECUTE" "isStore (instr_reg c)" "\<not> trap_entry True p (instr_reg c) (core_csrs c)"
  defines "c' \<equiv> port_clk m p d rb wb c"
  shows "fsm_state c' = S_WAIT" "instr_reg c' = instr_reg c" "rs1_reg c' = rs1_reg c" "rs2_reg c' = rs2_reg c"
proof -
  have "\<not> wfi_stall True p (instr_reg c)"
    using assms(2) by (auto simp: wfi_stall_def is_wfi_def isSYSTEM_def isStore_def)
  then show "fsm_state c' = S_WAIT" "instr_reg c' = instr_reg c" "rs1_reg c' = rs1_reg c" "rs2_reg c' = rs2_reg c"
    using assms by (simp_all add: c'_def port_clk_def core_clk_def fsm_clk_def data_clk_def port_sees_def port_pins needToWait_def Let_def)
qed

lemma store_wait:
  fixes m :: "14 word" and p :: pins and d :: u32 and rb wb :: bool
  assumes "fsm_state c = S_WAIT"
  defines "c' \<equiv> port_clk m p d rb wb c"
  shows "instr_reg c' = instr_reg c" "rs1_reg c' = rs1_reg c" "rs2_reg c' = rs2_reg c"
  using assms(1) by (simp_all add: c'_def port_clk_def step_wait port_sees_def Let_def)

theorem ahb_store:
  assumes "fsm_state c = S_EXECUTE" "isStore (instr_reg c)" "\<not> trap_entry True (fst x) (instr_reg c) (core_csrs c)"
    and "h_core (b_core b) = c" "h_state (h_bus (b_core b)) = H_IDLE" "htrans (h_bus (b_core b)) = 0"
    and "data_phase (b_slave b) = None"
  shows "sl_mem (b_slave (board_clk m z (board_clk m y (board_clk m x b)))) =
    (let a = ucast (core_mem_addr c); k = drop_bit 2 a
     in (sl_mem (b_slave b))(k := ram_merge (sl_mem (b_slave b) k) (mem_wdata a (rs2_reg c))
          (STORE_wmask (access_width (instr_reg c)) a)))"
proof -
  let ?a = "ucast (core_mem_addr c) :: u32"
  let ?w = "STORE_wmask (access_width (instr_reg c)) ?a"
  have m: "mem_wmask c = ?w" "\<not> mem_rstrb c"
    using assms(1,2) by (auto simp: mem_wmask_def mem_rstrb_def isLoad_def isStore_def)
  define b1 where "b1 = board_clk m x b"
  have c1: "fsm_state (h_core (b_core b1)) = S_WAIT" "instr_reg (h_core (b_core b1)) = instr_reg c"
    "rs1_reg (h_core (b_core b1)) = rs1_reg c" "rs2_reg (h_core (b_core b1)) = rs2_reg c"
    using store_execute [OF assms(1-3)] by (simp_all add: b1_def board_clk_def ahb_clk_def assms(4) Let_def)
  have w1: "h_state (h_bus (b_core b1)) = H_DATA" "htrans (h_bus (b_core b1)) = 2" "haddr (h_bus (b_core b1)) = ?a"
    "hwrite (h_bus (b_core b1))" "hsize (h_bus (b_core b1)) = size_from_mask ?w"
    using m mask_nonzero by (simp_all add: b1_def board_clk_def ahb_clk_def ahbl_clk_def assms(4,5) Let_def del: STORE_wmask.simps)
  have s1: "sl_mem (b_slave b1) = sl_mem (b_slave b)" "data_phase (b_slave b1) = None"
    using assms(6,7) by (simp_all add: b1_def board_clk_def slave_clk_def)
  define b2 where "b2 = board_clk m y b1"
  have c2: "instr_reg (h_core (b_core b2)) = instr_reg c" "rs1_reg (h_core (b_core b2)) = rs1_reg c"
    "rs2_reg (h_core (b_core b2)) = rs2_reg c"
    using store_wait [OF c1(1)] c1 by (simp_all add: b2_def board_clk_def ahb_clk_def Let_def)
  have s2: "sl_mem (b_slave b2) = sl_mem (b_slave b)" "data_phase (b_slave b2) = Some (?a, True, size_from_mask ?w)"
    using s1 w1 by (simp_all add: b2_def board_clk_def slave_clk_def)
  have h: "hwdata (h_core (b_core b2)) = mem_wdata ?a (rs2_reg c)"
    using c2 assms(1) by (simp add: hwdata_def core_mem_addr_def)
  show ?thesis
    unfolding b1_def [symmetric] b2_def [symmetric]
    by (simp add: board_clk_def slave_clk_def s2 h lanes_mask Let_def del: STORE_wmask.simps)
qed

lemma ahb_store_witness:
  "sl_mem (b_slave (fold (board_clk 0x1000) (replicate 3 (demo_pins False False, 0))
     \<lparr>b_core = demo_ahb\<lparr>h_core := (h_core demo_ahb)\<lparr>fsm_state := S_EXECUTE, instr_reg := 0x04102023, rs2_reg := 7\<rparr>\<rparr>,
      b_slave = \<lparr>sl_mem = (\<lambda>_. 0), data_phase = None\<rparr>\<rparr>)) 16 = 7"
proof -
  let ?c = "(h_core demo_ahb)\<lparr>fsm_state := S_EXECUTE, instr_reg := 0x04102023, rs2_reg := 7\<rparr>" and ?x = "(demo_pins False False, 0 :: u32)"
  let ?b = "\<lparr>b_core = demo_ahb\<lparr>h_core := ?c\<rparr>, b_slave = \<lparr>sl_mem = (\<lambda>_. 0), data_phase = None\<rparr>\<rparr>"
  have h: "fsm_state ?c = S_EXECUTE" "isStore (instr_reg ?c)" "\<not> trap_entry True (fst ?x) (instr_reg ?c) (core_csrs ?c)"
    "h_state (h_bus (b_core ?b)) = H_IDLE" "htrans (h_bus (b_core ?b)) = 0" "data_phase (b_slave ?b) = None"
    "drop_bit 2 (ucast (core_mem_addr ?c)) = (16 :: u32)"
    "ram_merge 0 (mem_wdata (ucast (core_mem_addr ?c)) (rs2_reg ?c)) (STORE_wmask (access_width (instr_reg ?c)) (ucast (core_mem_addr ?c))) = 7"
    by code_simp+
  have c: "h_core (b_core ?b) = ?c" by simp
  show ?thesis using ahb_store [OF h(1-3) c h(4-6), of "0x1000" ?x ?x] h(7,8) by (simp add: numeral_3_eq_3 Let_def)
qed

end
