(* ===== verification/Bridge_Sockets.thy ===== *)
theory Bridge_Sockets
  imports Gdb_Bridge
begin

text \<open>
  The sockets of sim/tb_dbg_gdb.cpp: the descriptors that \<open>tcp_listen\<close> and \<open>tcp_accept\<close> open and set up,
  what a cycle of the loop does with them, and the end of main. Whether the operating system lets a
  call succeed is an input; what it does to the descriptor table is the documented behaviour: a new
  descriptor is the lowest free one, closing frees it.
\<close>

section \<open>Descriptors\<close>

locale descriptor_table =
  fixes look :: "'t \<Rightarrow> int \<Rightarrow> 'a option"
    and alloc :: "'a \<Rightarrow> 't \<Rightarrow> int \<times> 't"
    and change :: "int \<Rightarrow> ('a \<Rightarrow> 'a) \<Rightarrow> 't \<Rightarrow> 't"
    and free :: "int \<Rightarrow> 't \<Rightarrow> 't"
  assumes alloc_fresh: "look t (fst (alloc a t)) = None" "0 \<le> fst (alloc a t)"
    and look_alloc: "look (snd (alloc a t)) = (look t)(fst (alloc a t) := Some a)"
    and look_change: "look (change fd f t) = (look t)(fd := map_option f (look t fd))"
    and look_free: "look (free fd t) = (look t)(fd := None)"
begin

lemmas look_simps = alloc_fresh look_alloc look_change look_free

text \<open>Closing a descriptor that was free before leaves the table as it was then.\<close>

lemma close_new: "look t = base(fd := x) \<Longrightarrow> base fd = None \<Longrightarrow> look (free fd t) = base"
  by (auto simp: look_simps)

lemma close_two:
  assumes "look t = base(l := x, f := y)" "base l = None" "base f = None" "f \<noteq> l"
  shows "look (free l (free f t)) = base"
  by (rule close_new [OF close_new [OF assms(1)]]) (use assms in simp_all)

end

record sock =
  reuse_addr :: bool
  bound_to :: "(u32 \<times> u16) option"
  backlog :: "int option"
  no_delay :: bool
  status_flags :: u32

definition new_sock :: sock where
  "new_sock = \<lparr>reuse_addr = False, bound_to = None, backlog = None, no_delay = False, status_flags = 0\<rparr>"

type_synonym fd_table = "sock option list"

definition fd_look :: "fd_table \<Rightarrow> int \<Rightarrow> sock option" where
  "fd_look t fd = (if 0 \<le> fd \<and> nat fd < length t then t ! nat fd else None)"

definition low_slot :: "fd_table \<Rightarrow> nat" where
  "low_slot t = length (takeWhile (\<lambda>e. e \<noteq> None) t)"

definition fd_alloc :: "sock \<Rightarrow> fd_table \<Rightarrow> int \<times> fd_table" where
  "fd_alloc s t = (int (low_slot t), if low_slot t < length t then t[low_slot t := Some s] else t @ [Some s])"

definition fd_change :: "int \<Rightarrow> (sock \<Rightarrow> sock) \<Rightarrow> fd_table \<Rightarrow> fd_table" where
  "fd_change fd f t = (if 0 \<le> fd \<and> nat fd < length t then t[nat fd := map_option f (t ! nat fd)] else t)"

definition fd_free :: "int \<Rightarrow> fd_table \<Rightarrow> fd_table" where
  "fd_free fd t = (if 0 \<le> fd then t[nat fd := None] else t)"

lemma low_slot_le: "low_slot t \<le> length t"
  by (simp add: low_slot_def length_takeWhile_le)

lemma low_slot_free: "low_slot t < length t \<Longrightarrow> t ! low_slot t = None"
  using nth_length_takeWhile [of "\<lambda>e. e \<noteq> None" t] by (simp add: low_slot_def)

interpretation fds: descriptor_table fd_look fd_alloc fd_change fd_free
proof
  show "fd_look t (fst (fd_alloc a t)) = None" "0 \<le> fst (fd_alloc a t)" for t a
    using low_slot_free [of t] by (auto simp: fd_look_def fd_alloc_def)
  show "fd_look (snd (fd_alloc a t)) = (fd_look t)(fst (fd_alloc a t) := Some a)" for t a
    using low_slot_le [of t] by (auto simp: fd_look_def fd_alloc_def fun_eq_iff nth_append nth_list_update)
  show "fd_look (fd_change fd f t) = (fd_look t)(fd := map_option f (fd_look t fd))" for fd f t
    by (auto simp: fd_look_def fd_change_def fun_eq_iff nth_list_update)
  show "fd_look (fd_free fd t) = (fd_look t)(fd := None)" for fd t
    by (auto simp: fd_look_def fd_free_def fun_eq_iff nth_list_update)
qed

section \<open>Opening sockets\<close>

datatype message = Perror string | Waiting int | GDB_connected | GDB_disconnected | Write_error | Waiting_reconnect
  | Cannot_bind int | Cannot_open string | Ended u64

text \<open>The descriptor table, what has been printed, and the two descriptors the program keeps.\<close>

record net =
  fd_table :: fd_table
  console :: "message list"
  listen_desc :: int
  client_desc :: int

text \<open>Which calls succeed.\<close>

record listen_answers =
  socket_ok :: bool
  reuse_ok :: bool
  bind_ok :: bool
  listen_ok :: bool

record option_answers =
  nodelay_ok :: bool
  getfl_ok :: bool
  setfl_ok :: bool

definition say :: "message \<Rightarrow> net \<Rightarrow> net" where
  "say m n = n\<lparr>console := console n @ [m]\<rparr>"

definition on_fd :: "int \<Rightarrow> (sock \<Rightarrow> sock) \<Rightarrow> net \<Rightarrow> net" where
  "on_fd fd f n = n\<lparr>fd_table := fd_change fd f (fd_table n)\<rparr>"

definition close_fd :: "int \<Rightarrow> net \<Rightarrow> net" where
  "close_fd fd n = n\<lparr>fd_table := fd_free fd (fd_table n)\<rparr>"

definition open_fd :: "net \<Rightarrow> int \<times> net" where
  "open_fd n = (let (fd, t) = fd_alloc new_sock (fd_table n) in (fd, n\<lparr>fd_table := t\<rparr>))"

definition tcp_listen :: "listen_answers \<Rightarrow> int \<Rightarrow> net \<Rightarrow> int \<times> net" where
  "tcp_listen a port n =
     (if \<not> socket_ok a then (- 1, say (Perror ''socket'') n)
      else let (fd, n) = open_fd n;
               n = (if reuse_ok a then on_fd fd (\<lambda>s. s\<lparr>reuse_addr := True\<rparr>) n else n)
           in if \<not> bind_ok a then (- 1, close_fd fd (say (Perror ''bind'') n))
              else let n = on_fd fd (\<lambda>s. s\<lparr>bound_to := Some (0x7F000001, word_of_int port)\<rparr>) n
                   in if \<not> listen_ok a then (- 1, close_fd fd (say (Perror ''listen'') n))
                      else (fd, on_fd fd (\<lambda>s. s\<lparr>backlog := Some 1\<rparr>) n))"

definition O_NONBLOCK :: u32 where "O_NONBLOCK = 0x800"

definition set_nonblock :: "option_answers \<Rightarrow> sock \<Rightarrow> sock" where
  "set_nonblock q s =
     (let fl = (if getfl_ok q then status_flags s else - 1)
      in if setfl_ok q then s\<lparr>status_flags := fl OR O_NONBLOCK\<rparr> else s)"

definition listening :: "int \<Rightarrow> net \<Rightarrow> bool" where
  "listening fd n = (case fd_look (fd_table n) fd of Some s \<Rightarrow> backlog s \<noteq> None | None \<Rightarrow> False)"

text \<open>accept on a listening socket blocks; \<open>None\<close>: it never returns.\<close>

definition tcp_accept :: "bool option \<Rightarrow> option_answers \<Rightarrow> int \<Rightarrow> int \<Rightarrow> net \<Rightarrow> int option \<times> net" where
  "tcp_accept ok q port lfd n =
     (let n = say (Waiting port) n
      in if \<not> listening lfd n \<or> ok = Some False then (Some (- 1), say (Perror ''accept'') n)
         else if ok = None then (None, n)
         else let (fd, n) = open_fd n;
                  n = (if nodelay_ok q then on_fd fd (\<lambda>s. s\<lparr>no_delay := True\<rparr>) n else n)
              in (Some fd, say GDB_connected (on_fd fd (set_nonblock q) n)))"

section \<open>The loop and the end\<close>

definition drop_client :: "message \<Rightarrow> net \<Rightarrow> net" where
  "drop_client m n = (close_fd (client_desc n) (say m n))\<lparr>client_desc := - 1\<rparr>"

definition fd_try_read :: "sock_read \<Rightarrow> net \<Rightarrow> int \<times> net" where
  "fd_try_read r n =
     (if client_desc n < 0 then (- 1, n)
      else case r of Data c \<Rightarrow> (uint c, n) | Eof \<Rightarrow> (- 1, drop_client GDB_disconnected n) | Again \<Rightarrow> (- 1, n))"

definition fd_write :: "sock_write \<Rightarrow> net \<Rightarrow> net" where
  "fd_write w n =
     (if client_desc n < 0 then n
      else case w of Wrote \<Rightarrow> n | Would_block \<Rightarrow> n | Failed \<Rightarrow> drop_client Write_error n)"

definition may_inject :: "cycle_env \<Rightarrow> bridge \<Rightarrow> bool" where
  "may_inject e b \<longleftrightarrow> \<not> uart_rx_valid (sim b) \<and> core_state e \<noteq> 3 \<and> break_cycles b = 0"

text \<open>The socket calls of a cycle, made where the loop makes them.\<close>

definition net_cycle :: "config \<Rightarrow> cycle_env \<Rightarrow> option_answers \<Rightarrow> bridge \<Rightarrow> net \<Rightarrow> net" where
  "net_cycle c e q b n =
     (let b = drive_break b;
          n = (if may_inject e b \<and> pending_rx b < 0 then snd (fd_try_read (env_read e) n) else n);
          b = clock_up e (inject_rx (trace_uart c) e b);
          n = (if uart_tx_valid (sim b) then fd_write (env_write e) n else n)
      in if client_desc n < 0
         then (case tcp_accept (env_accept e) q (tcp_port c) (listen_desc n) (say Waiting_reconnect n) of
                 (Some fd, n) \<Rightarrow> n\<lparr>client_desc := fd\<rparr>
               | (None, n) \<Rightarrow> n)
         else n)"

function net_loop :: "config \<Rightarrow> (u64 \<Rightarrow> cycle_env) \<Rightarrow> (u64 \<Rightarrow> option_answers) \<Rightarrow> bridge \<Rightarrow> net \<Rightarrow> bridge \<times> net" where
  "net_loop c env opts b n =
     (let e = env (cycle b)
      in if \<not> stuck b \<and> \<not> env_quit e \<and> \<not> env_finish e \<and> cycle b < max_cycles c
         then net_loop c env opts (bridge_cycle (trace_uart c) e b) (net_cycle c e (opts (cycle b + 1)) b n)
         else (b, n))"
  by auto

termination net_loop
  by (relation "measure (\<lambda>(c, env, opts, b, n). unat (max_cycles c - cycle b))") (use loop_decreases in \<open>auto simp del: cycle_bridge\<close>)

declare net_loop.simps [simp del]

definition net_end :: "u64 \<Rightarrow> net \<Rightarrow> net" where
  "net_end n_cycles n =
     (let n = say (Ended n_cycles) n;
          n = (if 0 \<le> client_desc n then close_fd (client_desc n) n else n)
      in if 0 \<le> listen_desc n then close_fd (listen_desc n) n else n)"

definition net_init :: "fd_table \<Rightarrow> net" where
  "net_init t = \<lparr>fd_table = t, console = [], listen_desc = - 1, client_desc = - 1\<rparr>"

text \<open>What main returns, \<open>None\<close> if it waits for a connection for ever, and the descriptors it leaves.\<close>

definition net_serve :: "config \<Rightarrow> listen_answers \<Rightarrow> bool option \<Rightarrow> (u64 \<Rightarrow> cycle_env) \<Rightarrow> (u64 \<Rightarrow> option_answers) \<Rightarrow> dut \<Rightarrow>
    net \<Rightarrow> (int + bridge) option \<times> net" where
  "net_serve c a ok env opts d n =
     (let (l, n) = tcp_listen a (tcp_port c) n; n = n\<lparr>listen_desc := l\<rparr>
      in if l < 0 then (Some (Inl 1), say (Cannot_bind (tcp_port c)) n)
         else case tcp_accept ok (opts 0) (tcp_port c) l n of
                (None, n) \<Rightarrow> (None, n)
              | (Some f, n) \<Rightarrow>
                  let n = n\<lparr>client_desc := f\<rparr>
                  in if f < 0 then (Some (Inl 1), close_fd l n)
                     else let (b, n) = net_loop c env opts (bridge_start d) n
                          in if stuck b then (None, n) else (Some (Inr b), net_end (cycle b) n))"

definition net_main :: "string list \<Rightarrow> (string \<Rightarrow> string option) \<Rightarrow> listen_answers \<Rightarrow> bool option \<Rightarrow> (u64 \<Rightarrow> cycle_env) \<Rightarrow>
    (u64 \<Rightarrow> option_answers) \<Rightarrow> dut \<Rightarrow> fd_table \<Rightarrow> (int + (nat \<Rightarrow> u32) \<times> bridge) option \<times> net" where
  "net_main argv files a ok env opts d t =
     (let c = parse_args argv; mem = (\<lambda>i. 0);
          ram = (case hex_file c of Some path \<Rightarrow> map_option (\<lambda>f. fst (load_hex f mem)) (files path) | None \<Rightarrow> Some mem)
      in case ram of
           None \<Rightarrow> (Some (Inl 1), say (Cannot_open (the (hex_file c))) (net_init t))
         | Some m \<Rightarrow> map_prod (map_option (map_sum id (Pair m))) id (net_serve c a ok env opts d (net_init t)))"

section \<open>What the calls leave\<close>

abbreviation looks :: "net \<Rightarrow> int \<Rightarrow> sock option" where "looks n \<equiv> fd_look (fd_table n)"

definition listen_sock :: "listen_answers \<Rightarrow> int \<Rightarrow> sock" where
  "listen_sock a port = \<lparr>reuse_addr = reuse_ok a, bound_to = Some (0x7F000001, word_of_int port), backlog = Some 1,
     no_delay = False, status_flags = 0\<rparr>"

definition client_sock :: "option_answers \<Rightarrow> sock" where
  "client_sock q = set_nonblock q (new_sock\<lparr>no_delay := nodelay_ok q\<rparr>)"

lemma net_frame:
  "looks (say m n) = looks n" "listen_desc (say m n) = listen_desc n" "client_desc (say m n) = client_desc n"
  "looks (on_fd fd f n) = (looks n)(fd := map_option f (looks n fd))"
  "listen_desc (on_fd fd f n) = listen_desc n" "client_desc (on_fd fd f n) = client_desc n"
  "looks (close_fd fd n) = (looks n)(fd := None)"
  "listen_desc (close_fd fd n) = listen_desc n" "client_desc (close_fd fd n) = client_desc n"
  by (simp_all add: say_def on_fd_def close_fd_def fds.look_simps)

lemma open_frame:
  assumes "open_fd n = (fd, n')"
  shows "0 \<le> fd" "looks n fd = None" "looks n' = (looks n)(fd := Some new_sock)"
    "listen_desc n' = listen_desc n" "client_desc n' = client_desc n"
  using assms fds.alloc_fresh [where t = "fd_table n" and a = new_sock] fds.look_alloc [where t = "fd_table n" and a = new_sock]
  by (auto simp: open_fd_def split: prod.splits)

lemma listen_cases:
  assumes "tcp_listen a port n = (fd, n')"
  shows "listen_desc n' = listen_desc n \<and> client_desc n' = client_desc n \<and>
    (if socket_ok a \<and> bind_ok a \<and> listen_ok a
     then 0 \<le> fd \<and> looks n fd = None \<and> looks n' = (looks n)(fd := Some (listen_sock a port))
     else fd = - 1 \<and> looks n' = looks n)"
  using assms open_frame
  by (auto simp: tcp_listen_def Let_def net_frame listen_sock_def new_sock_def fun_eq_iff split: prod.splits if_splits)


lemma no_delay_unset: "new_sock\<lparr>no_delay := False\<rparr> = new_sock"
  by (simp add: new_sock_def)

lemma accept_cases:
  assumes "tcp_accept ok q port l n = (r, n')"
  shows "listen_desc n' = listen_desc n \<and> client_desc n' = client_desc n \<and>
    (if listening l n \<and> ok = Some True
     then \<exists>fd. r = Some fd \<and> 0 \<le> fd \<and> looks n fd = None \<and> looks n' = (looks n)(fd := Some (client_sock q))
     else r = (if listening l n \<and> ok = None then None else Some (- 1)) \<and> looks n' = looks n)"
proof -
  have li: "listening l (say m n) = listening l n" for m by (simp add: listening_def net_frame)
  show ?thesis
    using assms open_frame [of "say (Waiting port) n", unfolded net_frame]
    by (cases ok) (auto simp: tcp_accept_def Let_def net_frame client_sock_def li no_delay_unset fun_eq_iff split: prod.splits if_splits)
qed

section \<open>Through the loop\<close>

text \<open>
  \<open>base\<close> is the table before the program; \<open>s\<close> the listening socket. \<open>Q\<close> holds of what the options of
  every connection were.
\<close>

definition connected :: "(int \<Rightarrow> sock option) \<Rightarrow> sock \<Rightarrow> (option_answers \<Rightarrow> bool) \<Rightarrow> bool \<Rightarrow> net \<Rightarrow> bool" where
  "connected base s Q up n \<longleftrightarrow>
     (let l = listen_desc n; f = client_desc n
      in 0 \<le> l \<and> base l = None \<and> backlog s \<noteq> None \<and>
         (if up then 0 \<le> f \<and> base f = None \<and> f \<noteq> l \<and> (\<exists>q. Q q \<and> looks n = base(l := Some s, f := Some (client_sock q)))
          else f = - 1 \<and> looks n = base(l := Some s)))"

lemma connected_say: "connected base s Q up (say m n) = connected base s Q up n"
  by (simp add: connected_def net_frame)

lemma connected_sign: "connected base s Q up n \<Longrightarrow> client_desc n < 0 \<longleftrightarrow> \<not> up"
  by (auto simp: connected_def Let_def split: if_splits)

lemma connected_drop:
  assumes "connected base s Q True n"
  shows "connected base s Q False (drop_client m n)"
  using assms by (auto simp: connected_def drop_client_def net_frame Let_def fun_eq_iff)

lemma connected_read:
  assumes "connected base s Q (client_fd b) n"
  shows "connected base s Q (client_fd (snd (tcp_try_read r b))) (snd (fd_try_read r n))"
proof (cases "client_fd b")
  case True
  then have "\<not> client_desc n < 0" using assms by (auto simp: connected_def Let_def)
  then show ?thesis
    using assms True connected_drop by (auto simp: tcp_try_read_def fd_try_read_def split: sock_read.splits)
next
  case False
  then have "client_desc n < 0" using assms by (auto simp: connected_def Let_def)
  then show ?thesis using assms False by (simp add: tcp_try_read_def fd_try_read_def)
qed

lemma connected_write:
  assumes "connected base s Q (client_fd b) n"
  shows "connected base s Q (client_fd (tcp_write w x b)) (fd_write w n)"
proof (cases "client_fd b")
  case True
  then have "\<not> client_desc n < 0" using assms by (auto simp: connected_def Let_def)
  then show ?thesis
    using assms True connected_drop by (auto simp: tcp_write_def fd_write_def split: sock_write.splits)
next
  case False
  then have "client_desc n < 0" using assms by (auto simp: connected_def Let_def)
  then show ?thesis using assms False by (simp add: tcp_write_def fd_write_def)
qed

lemma connected_accept:
  assumes "connected base s Q False n" "Q q" "tcp_accept ok q port (listen_desc n) n = (r, n')"
  shows "case ok of None \<Rightarrow> r = None \<and> connected base s Q False n'
    | Some up \<Rightarrow> \<exists>fd. r = Some fd \<and> connected base s Q up (n'\<lparr>client_desc := fd\<rparr>)"
proof -
  have "listening (listen_desc n) n" using assms(1) by (auto simp: listening_def connected_def Let_def split: if_splits)
  then show ?thesis
    using accept_cases [OF assms(3)] assms(1,2)
    by (auto simp: connected_def Let_def split: if_splits option.splits)
qed

lemma inject_client:
  "client_fd (inject_rx tr e b) =
     (if may_inject e b \<and> pending_rx b < 0 then client_fd (snd (tcp_try_read (env_read e) b)) else client_fd b)"
  by (auto simp: inject_rx_def may_inject_def Let_def split: prod.splits)

lemma client_cycle:
  assumes "connected base s Q (client_fd b) n" "Q q"
  shows "connected base s Q (client_fd (bridge_cycle (trace_uart c) e b)) (net_cycle c e q b n)"
proof -
  let ?b1 = "drive_break b" and ?tr = "trace_uart c"
  define b2 where "b2 = clock_up e (inject_rx ?tr e ?b1)"
  define n1 where "n1 = (if may_inject e ?b1 \<and> pending_rx ?b1 < 0 then snd (fd_try_read (env_read e) n) else n)"
  define n2 where "n2 = (if uart_tx_valid (sim b2) then fd_write (env_write e) n1 else n1)"
  have "connected base s Q (client_fd ?b1) n" using assms(1) by (simp add: out_frame)
  then have "connected base s Q (client_fd b2) n1"
    using connected_read by (auto simp: b2_def n1_def inject_client clock_up_def)
  then have c2: "connected base s Q (client_fd (transmit ?tr e b2)) n2"
    using connected_write by (auto simp: transmit_def n2_def Let_def)
  define b3 where "b3 = (track_rx ?tr (transmit ?tr e b2))\<lparr>cycle := cycle (track_rx ?tr (transmit ?tr e b2)) + 1\<rparr>"
  have b: "bridge_cycle ?tr e b = reaccept e b3" by (simp add: bridge_cycle_def b2_def b3_def Let_def)
  have up: "client_fd b3 = client_fd (transmit ?tr e b2)" by (simp add: b3_def out_frame)
  have n: "net_cycle c e q b n =
      (if client_desc n2 < 0
       then (case tcp_accept (env_accept e) q (tcp_port c) (listen_desc n2) (say Waiting_reconnect n2) of
               (Some fd, n) \<Rightarrow> n\<lparr>client_desc := fd\<rparr> | (None, n) \<Rightarrow> n)
       else n2)"
    unfolding net_cycle_def Let_def b2_def [symmetric] n1_def [symmetric] n2_def [symmetric] by (rule refl)
  show ?thesis
  proof (cases "client_fd b3")
    case True
    then show ?thesis using c2 up connected_sign [OF c2] by (simp add: b n reaccept_def)
  next
    case False
    then have c3: "connected base s Q False (say Waiting_reconnect n2)"
      using c2 up by (simp add: connected_say)
    obtain r n' where ac: "tcp_accept (env_accept e) q (tcp_port c) (listen_desc n2) (say Waiting_reconnect n2) = (r, n')"
      by (cases "tcp_accept (env_accept e) q (tcp_port c) (listen_desc n2) (say Waiting_reconnect n2)") auto
    have "net_cycle c e q b n = (case r of Some fd \<Rightarrow> n'\<lparr>client_desc := fd\<rparr> | None \<Rightarrow> n')"
      using False up ac connected_sign [OF c2] by (simp add: n)
    moreover have "case env_accept e of None \<Rightarrow> r = None \<and> connected base s Q False n'
        | Some up \<Rightarrow> \<exists>fd. r = Some fd \<and> connected base s Q up (n'\<lparr>client_desc := fd\<rparr>)"
      by (rule connected_accept [OF c3 assms(2)]) (use ac in \<open>simp add: net_frame\<close>)
    ultimately show ?thesis using False by (auto simp: b reaccept_def split: option.splits)
  qed
qed

lemma net_loop_bridge: "fst (net_loop c env opts b n) = bridge_loop c env b"
proof (induction c env opts b n rule: net_loop.induct)
  case (1 c env opts b n)
  then show ?case by (simp add: net_loop.simps [of c env opts b n] bridge_loop.simps [of c env b] Let_def)
qed

lemma net_loop_keeps:
  assumes "\<And>k. Q (opts k)"
  shows "connected base s Q (client_fd b) n \<Longrightarrow>
    connected base s Q (client_fd (fst (net_loop c env opts b n))) (snd (net_loop c env opts b n))"
  using assms
proof (induction c env opts b n rule: net_loop.induct)
  case (1 c env opts b n)
  have "connected base s Q (client_fd (bridge_cycle (trace_uart c) (env (cycle b)) b)) (net_cycle c (env (cycle b)) (opts (cycle b + 1)) b n)"
    by (rule client_cycle [OF 1(2) 1(3)])
  then show ?case using 1 by (auto simp: net_loop.simps [of c env opts b n] Let_def)
qed

text \<open>Between two cycles nothing is pending, and a break lasts at most 20 cycles.\<close>

definition in_range :: "bridge \<Rightarrow> bool" where
  "in_range b \<longleftrightarrow> pending_rx b = - 1 \<and> break_cycles b \<le> 20"

lemma read_range: "- 1 \<le> fst (tcp_try_read r b) \<and> fst (tcp_try_read r b) \<le> 255"
proof (cases "client_fd b \<and> (\<exists>c. r = Data c)")
  case True
  then obtain c where "r = Data c" by blast
  moreover have "- 1 \<le> uint c" using uint_nonnegative [of c] by linarith
  moreover have "uint c < 2 ^ LENGTH(8)" by (rule unsigned_less)
  ultimately show ?thesis using True by (simp add: tcp_try_read_def)
qed (auto simp: tcp_try_read_def split: sock_read.splits)

lemma in_range_frame:
  "in_range (clock_up e b) = in_range b" "in_range (transmit tr e b) = in_range b" "in_range (track_rx tr b) = in_range b"
  "in_range (b\<lparr>cycle := n\<rparr>) = in_range b" "in_range b \<Longrightarrow> in_range (reaccept e b)"
  by (simp_all add: in_range_def clock_up_def transmit_def tcp_write_def track_rx_def reaccept_def Let_def
      split: sock_write.splits option.splits)

lemma in_range_cycle:
  assumes "in_range b"
  shows "in_range (bridge_cycle tr e b)"
proof -
  let ?b = "drive_break b"
  have r: "in_range ?b" using assms by (auto simp: in_range_def drive_break_def)
  have "in_range (snd (tcp_try_read (env_read e) ?b))" using r by (auto simp: in_range_def tcp_try_read_def split: sock_read.splits)
  moreover have "fst (tcp_try_read (env_read e) ?b) < 0 \<longrightarrow> fst (tcp_try_read (env_read e) ?b) = - 1"
    using read_range [of "env_read e" ?b] by linarith
  ultimately have "in_range (inject_rx tr e ?b)"
    using r by (auto simp: in_range_def inject_rx_def Let_def split: prod.splits)
  then show ?thesis by (simp add: bridge_cycle_def Let_def in_range_frame)
qed

section \<open>Properties\<close>

lemma connected_start:
  assumes "tcp_listen a port n0 = (l, n1)" "0 \<le> l"
    and "tcp_accept ok (opts 0) port l (n1\<lparr>listen_desc := l\<rparr>) = (Some f, n2)" "0 \<le> f"
  shows "connected (looks n0) (listen_sock a port) (\<lambda>q. \<exists>k. q = opts k) True (n2\<lparr>client_desc := f\<rparr>)"
proof -
  have l: "looks n0 l = None" "looks n1 = (looks n0)(l := Some (listen_sock a port))"
    using listen_cases [OF assms(1)] assms(2) by (simp_all split: if_splits)
  have f: "listen_desc n2 = l" "looks n1 f = None" "looks n2 = (looks n1)(f := Some (client_sock (opts 0)))"
    using accept_cases [OF assms(3)] assms(4) by (auto split: if_splits)
  have ne: "f \<noteq> l" "looks n0 f = None" using f(2) l(2) by (auto split: if_splits)
  have "looks n2 = (looks n0)(l := Some (listen_sock a port), f := Some (client_sock (opts 0)))" using f(3) l(2) by simp
  with ne l(1) f(1) assms(2,4) show ?thesis
    unfolding connected_def Let_def by (simp add: listen_sock_def) blast
qed

text \<open>C36: The variables of the bridge stay well formed, whatever the debugger, the core and the
  operating system do. When the loop has stopped, or waits for ever for a reconnection, no byte
  is pending and a break has at most 20 cycles left; client_fd is -1 or a descriptor of its own,
  open, with the options its accept has set; listen_fd is open, bound to the loopback address
  and the low 16 bits of the port, and listening; every other descriptor is as it was before.\<close>

theorem net_types:
  assumes "tcp_listen a (tcp_port c) (net_init t) = (l, n1)" "0 \<le> l"
    and "tcp_accept ok (opts 0) (tcp_port c) l (n1\<lparr>listen_desc := l\<rparr>) = (Some f, n2)" "0 \<le> f"
    and "net_loop c env opts (bridge_start d) (n2\<lparr>client_desc := f\<rparr>) = (b, n)"
  shows "in_range b \<and> (client_fd b \<longleftrightarrow> client_desc n \<noteq> - 1) \<and> client_desc n \<noteq> listen_desc n \<and>
    looks n (listen_desc n) = Some (listen_sock a (tcp_port c)) \<and>
    (client_desc n \<noteq> - 1 \<longrightarrow> (\<exists>k. looks n (client_desc n) = Some (client_sock (opts k)))) \<and>
    (\<forall>fd. fd \<noteq> listen_desc n \<and> fd \<noteq> client_desc n \<longrightarrow> looks n fd = fd_look t fd)"
proof -
  have fb: "b = bridge_loop c env (bridge_start d)"
    using net_loop_bridge [of c env opts "bridge_start d" "n2\<lparr>client_desc := f\<rparr>"] assms(5) by simp
  have "in_range (bridge_start d)" by (simp add: in_range_def bridge_start_def)
  then have r: "in_range b" unfolding fb using bridge_loop_keeps [of in_range] in_range_cycle by blast
  have "connected (fd_look t) (listen_sock a (tcp_port c)) (\<lambda>q. \<exists>k. q = opts k) (client_fd (bridge_start d)) (n2\<lparr>client_desc := f\<rparr>)"
    using connected_start [where opts = opts, OF assms(1-4)] by (simp add: net_init_def bridge_start_def)
  from net_loop_keeps [OF _ this, of opts c env] assms(5)
  have "connected (fd_look t) (listen_sock a (tcp_port c)) (\<lambda>q. \<exists>k. q = opts k) (client_fd b) n" by auto
  then show ?thesis using r by (auto simp: connected_def Let_def split: if_splits)
qed

definition all_ok :: option_answers where
  "all_ok = \<lparr>nodelay_ok = True, getfl_ok = True, setfl_ok = True\<rparr>"

definition listen_all :: listen_answers where
  "listen_all = \<lparr>socket_ok = True, reuse_ok = True, bind_ok = True, listen_ok = True\<rparr>"

lemma net_types_witness:
  "let c = default_config\<lparr>max_cycles := 3\<rparr>; (l, n1) = tcp_listen listen_all 3333 (net_init [None]);
       (f, n2) = tcp_accept (Some True) all_ok 3333 l (n1\<lparr>listen_desc := l\<rparr>);
       (b, n) = net_loop c sample_env (\<lambda>_. all_ok) (bridge_start sample_dut) (n2\<lparr>client_desc := the f\<rparr>)
   in in_range b \<and> looks n (listen_desc n) = Some (listen_sock listen_all 3333)"
proof -
  let ?c = "default_config\<lparr>max_cycles := 3\<rparr>"
  obtain l n1 where l: "tcp_listen listen_all 3333 (net_init [None]) = (l, n1)" by fastforce
  have l0: "0 \<le> l" "listening l (n1\<lparr>listen_desc := l\<rparr>)"
    using listen_cases [OF l] by (auto simp: listen_all_def listening_def listen_sock_def)
  then obtain f n2 where f: "tcp_accept (Some True) all_ok 3333 l (n1\<lparr>listen_desc := l\<rparr>) = (Some f, n2)" and f0: "0 \<le> f"
    using accept_cases [of "Some True" all_ok 3333 l "n1\<lparr>listen_desc := l\<rparr>"]
    by (cases "tcp_accept (Some True) all_ok 3333 l (n1\<lparr>listen_desc := l\<rparr>)") auto
  obtain b n where b: "net_loop ?c sample_env (\<lambda>_. all_ok) (bridge_start sample_dut) (n2\<lparr>client_desc := f\<rparr>) = (b, n)"
    by fastforce
  have p: "tcp_port ?c = 3333" by (simp add: default_config_def)
  from net_types [where c = ?c and opts = "\<lambda>_. all_ok", unfolded p, OF l l0(1) f f0 b] l f b
  show ?thesis by simp
qed

lemma net_end_closes: "connected base s Q up n \<Longrightarrow> looks (net_end k n) = base"
  by (auto simp: connected_def net_end_def close_fd_def say_def Let_def fds.close_new fds.close_two split: if_splits)

text \<open>What is open while main waits for a connection: the listening socket only.\<close>

definition waiting :: "(int \<Rightarrow> sock option) \<Rightarrow> sock \<Rightarrow> net \<Rightarrow> bool" where
  "waiting base s n \<longleftrightarrow> base (listen_desc n) = None \<and> looks n = base(listen_desc n := Some s)"

lemma connected_waiting: "connected base s Q False n \<Longrightarrow> waiting base s n"
  by (simp add: connected_def waiting_def Let_def)

lemma stuck_cycle_down: "\<not> stuck b \<Longrightarrow> stuck (bridge_cycle tr e b) \<Longrightarrow> \<not> client_fd (bridge_cycle tr e b)"
  by (auto simp: bridge_cycle_def Let_def reaccept_def stuck_frame split: if_splits option.splits)

lemma stuck_down: "\<not> stuck b \<Longrightarrow> stuck (bridge_loop c env b) \<Longrightarrow> \<not> client_fd (bridge_loop c env b)"
proof (induction c env b rule: bridge_loop.induct)
  case (1 c env b)
  let ?b = "bridge_cycle (trace_uart c) (env (cycle b)) b"
  show ?case
  proof (cases "\<not> env_quit (env (cycle b)) \<and> \<not> env_finish (env (cycle b)) \<and> cycle b < max_cycles c")
    case True
    then have l: "bridge_loop c env b = bridge_loop c env ?b" using 1(2) by (simp add: bridge_loop.simps [of c env b])
    show ?thesis
    proof (cases "stuck ?b")
      case True
      then have "bridge_loop c env ?b = ?b" by (simp add: bridge_loop.simps)
      then show ?thesis using l stuck_cycle_down [OF 1(2) True] by simp
    next
      case False
      then show ?thesis using 1 l True by simp
    qed
  next
    case False
    then have "bridge_loop c env b = b" by (auto simp: bridge_loop.simps [of c env b])
    then show ?thesis using 1 by simp
  qed
qed

lemma net_serve_closes:
  assumes "looks n0 = base"
  shows "fst (net_serve c a ok env opts d n0) =
      (if \<not> (socket_ok a \<and> bind_ok a \<and> listen_ok a) \<or> ok = Some False then Some (Inl 1)
       else let b = bridge_loop c env (bridge_start d) in if ok = None \<or> stuck b then None else Some (Inr b)) \<and>
    (if fst (net_serve c a ok env opts d n0) = None
     then waiting base (listen_sock a (tcp_port c)) (snd (net_serve c a ok env opts d n0))
     else looks (snd (net_serve c a ok env opts d n0)) = base)"
proof -
  obtain l n1 where l: "tcp_listen a (tcp_port c) n0 = (l, n1)" by fastforce
  let ?n1 = "n1\<lparr>listen_desc := l\<rparr>" and ?s = "listen_sock a (tcp_port c)"
  note lc = listen_cases [OF l]
  show ?thesis
  proof (cases "socket_ok a \<and> bind_ok a \<and> listen_ok a")
    case False
    then have "l = - 1" "looks n1 = base" using lc assms by auto
    then show ?thesis using False by (auto simp: net_serve_def l net_frame)
  next
    case up: True
    then have lu: "0 \<le> l" "base l = None" "looks ?n1 = base(l := Some ?s)" "listening l ?n1"
      using lc assms by (auto simp: listening_def listen_sock_def)
    obtain r n2 where f: "tcp_accept ok (opts 0) (tcp_port c) l ?n1 = (r, n2)" by fastforce
    note ac = accept_cases [OF f]
    have sv: "net_serve c a ok env opts d n0 =
        (case r of None \<Rightarrow> (None, n2)
         | Some fd \<Rightarrow> if fd < 0 then (Some (Inl 1), close_fd l (n2\<lparr>client_desc := fd\<rparr>))
             else let (b, n) = net_loop c env opts (bridge_start d) (n2\<lparr>client_desc := fd\<rparr>)
                  in if stuck b then (None, n) else (Some (Inr b), net_end (cycle b) n))"
      using lu(1) by (cases r) (simp_all add: net_serve_def l f Let_def)
    consider "ok = None" | "ok = Some False" | "ok = Some True" by auto
    then show ?thesis
    proof cases
      case 1
      then have "r = None" "waiting base ?s n2" using ac lu by (auto simp: waiting_def)
      then show ?thesis unfolding sv using 1 up by simp
    next
      case 2
      then have "r = Some (- 1)" "looks n2 = base(l := Some ?s)" using ac lu by auto
      then show ?thesis unfolding sv using 2 up lu(2) fds.close_new by (simp add: close_fd_def)
    next
      case 3
      then obtain fd where fd: "r = Some fd" "0 \<le> fd" using ac lu by auto
      obtain b n where b: "net_loop c env opts (bridge_start d) (n2\<lparr>client_desc := fd\<rparr>) = (b, n)" by fastforce
      have fb: "b = bridge_loop c env (bridge_start d)"
        using net_loop_bridge [of c env opts "bridge_start d" "n2\<lparr>client_desc := fd\<rparr>"] b by simp
      have "connected base ?s (\<lambda>q. \<exists>k. q = opts k) (client_fd (bridge_start d)) (n2\<lparr>client_desc := fd\<rparr>)"
        using connected_start [where opts = opts, OF l lu(1) f [unfolded fd(1)] fd(2)] by (simp add: assms bridge_start_def)
      from net_loop_keeps [OF _ this, of opts c env] b
      have cn: "connected base ?s (\<lambda>q. \<exists>k. q = opts k) (client_fd b) n" by auto
      have s: "net_serve c a ok env opts d n0 = (if stuck b then (None, n) else (Some (Inr b), net_end (cycle b) n))"
        unfolding sv using fd by (simp add: b)
      have "stuck b \<Longrightarrow> waiting base ?s n"
        using stuck_down [of "bridge_start d" c env] cn connected_waiting by (auto simp: fb bridge_start_def)
      then show ?thesis unfolding s using 3 up net_end_closes [OF cn] by (simp add: fb [symmetric])
    qed
  qed
qed

text \<open>C37: With its sockets the bridge does what the bridge without them does, which only asks how the
  calls are answered: same exit status, same firmware, same bytes. If every accept returns, so
  does main, and on every path, errors included, it leaves the descriptor table as it found it.
  If an accept never returns, because no debugger connects, main does not return either, and the
  listening socket is the only descriptor it holds meanwhile.\<close>

theorem net_main_closes:
  "fst (net_main argv files a ok env opts d t) =
     bridge_main argv files (socket_ok a \<and> bind_ok a \<and> listen_ok a) ok env d \<and>
   (let (r, n) = net_main argv files a ok env opts d t
    in if ok \<noteq> None \<and> (\<forall>n. env_accept (env n) \<noteq> None) then r \<noteq> None \<and> fd_look (fd_table n) = fd_look t
       else if r = None then waiting (fd_look t) (listen_sock a (tcp_port (parse_args argv))) n
       else fd_look (fd_table n) = fd_look t)"
proof -
  let ?c = "parse_args argv" and ?r = "net_main argv files a ok env opts d t"
  have i: "looks (net_init t) = fd_look t" by (simp add: net_init_def)
  have m: "fst ?r = bridge_main argv files (socket_ok a \<and> bind_ok a \<and> listen_ok a) ok env d"
    using net_serve_closes [OF i, of ?c a ok env opts d]
    by (auto simp: net_main_def bridge_main_def Let_def split: option.splits)
  have c: "if fst ?r = None then waiting (fd_look t) (listen_sock a (tcp_port ?c)) (snd ?r) else looks (snd ?r) = fd_look t"
    using net_serve_closes [OF i, of ?c a ok env opts d] i
    by (auto simp: net_main_def Let_def net_frame split: option.splits if_splits)
  have "fst ?r \<noteq> None" if "ok \<noteq> None" "\<forall>n. env_accept (env n) \<noteq> None"
    using bridge_loop_runs [of env ?c d] that unfolding m by (auto simp: bridge_main_def Let_def split: option.splits)
  with m c show ?thesis by (auto simp: case_prod_beta)
qed

end
