(* ===== verification/Startup_Code.thy ===== *)
theory Startup_Code
  imports Entry_Code
begin

text \<open>
  The startup code sw/crt0.S for RV32I: the reset code that sets the stack pointer, clears .bss,
  enables interrupts and calls main, and the trap entry that saves the caller-saved registers on the
  stack of the interrupted program, calls \<open>irq_handler\<close> or \<open>ebreak_handler\<close> and restores them. It runs
  from RAM. A label is the address the assembler gave it, an instruction is a word that decodes to it.
  \<open>la\<close> and \<open>call\<close> are the auipc pairs that a link with --no-relax (sw/Makefile) leaves.
\<close>

section \<open>Code in memory\<close>

text \<open>\<open>W\<close> says which words of RAM the code is fetched from.\<close>

definition fetchable :: "(u32 \<Rightarrow> bool) \<Rightarrow> 14 word \<Rightarrow> bool" where
  "fetchable W pc \<longleftrightarrow> page_sel (ucast pc) = 1 \<and> page_sel (ucast (pc + 4)) = 1 \<or>
     page_sel (ucast pc) = 0 \<and> page_sel (ucast (pc + 4)) = 0 \<and> W (ram_waddr (ucast pc)) \<and> W (ram_waddr (ucast (pc + 4)))"

definition same_code :: "(u32 \<Rightarrow> bool) \<Rightarrow> arch \<Rightarrow> arch \<Rightarrow> bool" where
  "same_code W s t \<longleftrightarrow> a_rom t = a_rom s \<and> (\<forall>w. W w \<longrightarrow> a_ram t w = a_ram s w)"

definition next_of :: "arch \<Rightarrow> 14 word \<Rightarrow> 14 word" where
  "next_of s pc = PCinc pc (long_instr (rom_fetch s pc))"

lemma same_fetch: "same_code W s t \<Longrightarrow> fetchable W pc \<Longrightarrow> rom_fetch t pc = rom_fetch s pc"
  by (auto simp: same_code_def fetchable_def rom_fetch_def arch_fetch_def arch_word_def Let_def)

lemma same_next: "same_code W s t \<Longrightarrow> fetchable W pc \<Longrightarrow> next_of t pc = next_of s pc"
  by (simp add: next_of_def same_fetch)

lemma same_trans: "same_code W s t \<Longrightarrow> same_code W t u \<Longrightarrow> same_code W s u"
  by (simp add: same_code_def)

lemma fetch_here: "arch_instr s = decompressor (rom_fetch s (a_pc s))" "next_pc s = next_of s (a_pc s)"
  by (simp_all add: arch_instr_def rom_fetch_def next_of_def)

text \<open>A listing without jumps.\<close>

fun code_on :: "(u32 \<Rightarrow> bool) \<Rightarrow> arch \<Rightarrow> 14 word \<Rightarrow> asm list \<Rightarrow> bool" where
  "code_on W s pc [] = True"
| "code_on W s pc (i # is) = (fetchable W pc \<and> decompressor (rom_fetch s pc) = encode i \<and> code_on W s (next_of s pc) is)"

fun end_of :: "arch \<Rightarrow> 14 word \<Rightarrow> asm list \<Rightarrow> 14 word" where
  "end_of s pc [] = pc"
| "end_of s pc (i # is) = end_of s (next_of s pc) is"

lemma same_listing:
  assumes "same_code W s t" "code_on W s pc is"
  shows "code_on W t pc is \<and> end_of t pc is = end_of s pc is"
  using assms(2) by (induction "is" arbitrary: pc) (auto simp: same_fetch [OF assms(1)] same_next [OF assms(1)])

text \<open>No store of the listing hits the code.\<close>

fun apart :: "(u32 \<Rightarrow> bool) \<Rightarrow> asm list \<Rightarrow> arch \<Rightarrow> bool" where
  "apart W [] s = True"
| "apart W (i # is) s = ((case i of SW rs2 off rs1 \<Rightarrow> \<not> W (ram_waddr (asm_addr s rs1 off)) | _ \<Rightarrow> True) \<and> apart W is (asm_exec i s))"

lemma apart_append: "apart W (is @ js) s \<longleftrightarrow> apart W is s \<and> apart W js (fold asm_exec is s)"
  by (induction "is" arbitrary: s) auto

lemma apart_pc: "apart W is (s\<lparr>a_pc := x\<rparr>) = apart W is s"
  by (induction "is" arbitrary: s) (simp_all add: asm_exec_pc asm_addr_def split: asm.splits)

lemma exec_same: "apart W [i] s \<Longrightarrow> same_code W s (asm_exec i s)"
  by (cases i) (auto simp: same_code_def)

lemma same_pc: "same_code W s (t\<lparr>a_pc := x\<rparr>) = same_code W s t"
  by (simp add: same_code_def)

lemma unhalted_exec: "unhalted p ((asm_exec i s)\<lparr>a_pc := x\<rparr>) = unhalted p s"
  by (cases i) (simp_all add: unhalted_def)

lemma listing_run:
  assumes "code_on W s (a_pc s) is" "asm_oks is s" "apart W is s" "\<forall>p \<in> set ps. unhalted p s" "length ps = length is"
  shows "arch_run m ps s = (fold asm_exec is s)\<lparr>a_pc := end_of s (a_pc s) is\<rparr> \<and>
    same_code W s (arch_run m ps s) \<and> (\<forall>p. unhalted p (arch_run m ps s) = unhalted p s)"
  using assms
proof (induction "is" arbitrary: s ps)
  case Nil
  then show ?case by (simp add: arch_run_def same_code_def)
next
  case (Cons i "is")
  then obtain p qs where ps: "ps = p # qs" by (auto simp: length_Suc_conv)
  let ?t = "(asm_exec i s)\<lparr>a_pc := next_pc s\<rparr>"
  have st: "arch_step m p (io_rdata p) s = ?t"
    using Cons.prems ps by (intro exec_asm) (simp_all add: fetch_here)
  have sc: "same_code W s ?t" using Cons.prems(3) exec_same [of W i s] by (simp add: same_pc)
  have "code_on W s (next_pc s) is" using Cons.prems(1) by (simp add: fetch_here)
  note l = same_listing [OF sc this]
  have "arch_run m qs ?t = (fold asm_exec is ?t)\<lparr>a_pc := end_of ?t (a_pc ?t) is\<rparr> \<and>
    same_code W ?t (arch_run m qs ?t) \<and> (\<forall>p. unhalted p (arch_run m qs ?t) = unhalted p ?t)"
    using Cons.prems ps l by (intro Cons.IH) (simp_all add: asm_oks_pc apart_pc unhalted_exec)
  moreover have "arch_run m ps s = arch_run m qs ?t" by (simp add: ps arch_run_def st)
  ultimately show ?case
    using l sc same_trans by (auto simp: fold_exec_pc unhalted_exec fetch_here)
qed

section \<open>Jumps\<close>

text \<open>The jumps and the other instructions of the listing, recognised by what they decode to.\<close>

datatype jump = MV nat nat | J "14 word" | BGEZ nat "14 word" | BEQ nat nat "14 word" | AUIPC nat u32 | LO nat u32 u32 |
  JALR nat nat u32 | CSRS nat

fun decodes :: "14 word \<Rightarrow> u32 \<Rightarrow> jump \<Rightarrow> bool" where
  "decodes pc i (MV rd rs) = (rdId i = rd \<and> (isALUreg i \<and> funct3 i = 0 \<and> \<not> bit i 30 \<and> rs1Id i = 0 \<and> rs2Id i = rs \<or>
     isALUimm i \<and> funct3 i = 0 \<and> rs1Id i = rs \<and> Iimm i = 0))"
| "decodes pc i (J t) = (isJAL i \<and> rdId i = 0 \<and> PCplusImm pc i = t)"
| "decodes pc i (BGEZ rs t) = (isBranch i \<and> funct3 i = 5 \<and> rs1Id i = rs \<and> rs2Id i = 0 \<and> PCplusImm pc i = t)"
| "decodes pc i (BEQ rs1 rs2 t) = (isBranch i \<and> funct3 i = 0 \<and> rs1Id i = rs1 \<and> rs2Id i = rs2 \<and> PCplusImm pc i = t)"
| "decodes pc i (AUIPC rd v) = (isAUIPC i \<and> rdId i = rd \<and> ucast (PCplusImm pc i) = v)"
| "decodes pc i (LO rd u v) = (isALUimm i \<and> funct3 i = 0 \<and> rdId i = rd \<and> rs1Id i = rd \<and> u + Iimm i = v)"
| "decodes pc i (JALR rd rs off) = (isJALR i \<and> rdId i = rd \<and> rs1Id i = rs \<and> Iimm i = off)"
| "decodes pc i (CSRS rs) = (isSYSTEM i \<and> funct3 i = 2 \<and> rdId i = 0 \<and> rs1Id i = rs \<and> sel_csr 0x300 i)"

definition jump_at :: "(u32 \<Rightarrow> bool) \<Rightarrow> arch \<Rightarrow> 14 word \<Rightarrow> jump \<Rightarrow> bool" where
  "jump_at W s pc j \<longleftrightarrow> fetchable W pc \<and> decodes pc (decompressor (rom_fetch s pc)) j"

lemma same_jump: "same_code W s t \<Longrightarrow> jump_at W s pc j \<Longrightarrow> jump_at W t pc j"
  by (simp add: jump_at_def same_fetch)

definition put_nat :: "nat \<Rightarrow> u32 \<Rightarrow> (nat \<Rightarrow> u32) \<Rightarrow> (nat \<Rightarrow> u32)" where
  "put_nat rd v r = (if rd = 0 then r else r(rd := v))"

fun jump_exec :: "jump \<Rightarrow> arch \<Rightarrow> arch" where
  "jump_exec (MV rd rs) s = s\<lparr>a_pc := next_pc s, a_regs := put_nat rd (a_regs s rs) (a_regs s)\<rparr>"
| "jump_exec (J t) s = s\<lparr>a_pc := t\<rparr>"
| "jump_exec (BGEZ rs t) s = s\<lparr>a_pc := (if bit (a_regs s rs) 31 then next_pc s else t)\<rparr>"
| "jump_exec (BEQ rs1 rs2 t) s = s\<lparr>a_pc := (if a_regs s rs1 = a_regs s rs2 then t else next_pc s)\<rparr>"
| "jump_exec (AUIPC rd v) s = s\<lparr>a_pc := next_pc s, a_regs := put_nat rd v (a_regs s)\<rparr>"
| "jump_exec (LO rd u v) s = s\<lparr>a_pc := next_pc s, a_regs := put_nat rd (a_regs s rd + (v - u)) (a_regs s)\<rparr>"
| "jump_exec (JALR rd rs off) s =
     s\<lparr>a_pc := ucast ((a_regs s rs + off) AND NOT 1), a_regs := put_nat rd (ucast (next_pc s)) (a_regs s)\<rparr>"
| "jump_exec (CSRS rs) s = s\<lparr>a_pc := next_pc s, a_csrs := (a_csrs s)\<lparr>csr_mstatus := csr_mstatus (a_csrs s) \<or> bit (a_regs s rs) 3\<rparr>\<rparr>"

lemma write_nat: "rdId i = rd \<Longrightarrow> \<not> isBranch i \<Longrightarrow> \<not> isStore i \<Longrightarrow> write_reg i v r = put_nat rd v r"
  by (simp add: write_reg_def put_nat_def)

lemma step_jump:
  assumes "unhalted p s" "\<not> isStore (arch_instr s)" "\<not> isSYSTEM (arch_instr s)"
  shows "arch_step m p io s = s\<lparr>a_pc := arch_pc_new s, a_regs := write_reg (arch_instr s) (arch_wb s (arch_data p io s)) (a_regs s)\<rparr>"
proof -
  have n: "\<not> is_mret (arch_instr s)" "\<not> is_env_trap (arch_instr s)" "\<not> csr_wr_en True (arch_instr s)"
    using assms(3) by (simp_all add: is_mret_def is_env_trap_def csr_wr_en_def)
  moreover have "\<not> dbg_halt_accepted True p (a_csrs s)" using assms(1) by (simp add: unhalted_def dbg_halt_accepted_def)
  ultimately show ?thesis
    using unhalted_trap [OF assms(1), of "arch_instr s"] assms(2)
    by (intro arch.equality) (simp_all add: arch_step_fields csr_clk_def Let_def)
qed

lemma opcode_classes:
  "isALUreg i \<Longrightarrow> opcode5 i = 12" "isALUimm i \<Longrightarrow> opcode5 i = 4" "isJAL i \<Longrightarrow> opcode5 i = 27" "isBranch i \<Longrightarrow> opcode5 i = 24"
  "isAUIPC i \<Longrightarrow> opcode5 i = 5" "isJALR i \<Longrightarrow> opcode5 i = 25" "isSYSTEM i \<Longrightarrow> opcode5 i = 28"
  by (simp_all add: isALUreg_def isALUimm_def isJAL_def isBranch_def isAUIPC_def isJALR_def isSYSTEM_def)

lemmas classes = isALUreg_def isALUimm_def isJAL_def isBranch_def isAUIPC_def isJALR_def isSYSTEM_def isStore_def isLoad_def isLUI_def

lemma wb_class:
  fixes s :: arch
  defines "i \<equiv> arch_instr s"
  shows "opcode5 i = 12 \<or> opcode5 i = 4 \<Longrightarrow> arch_wb s d = aluOut_base True i (arch_rs1 s) (a_regs s (rs2Id i))"
    "opcode5 i = 5 \<Longrightarrow> arch_wb s d = ucast (PCplusImm (a_pc s) i)"
    "opcode5 i = 25 \<or> opcode5 i = 27 \<Longrightarrow> arch_wb s d = ucast (next_pc s)"
  by (auto simp: i_def arch_wb_def writeBackData_def classes)

lemma alu_add:
  "opcode5 i = 4 \<Longrightarrow> funct3 i = 0 \<Longrightarrow> aluOut_base True i x y = x + Iimm i"
  "opcode5 i = 12 \<Longrightarrow> funct3 i = 0 \<Longrightarrow> \<not> bit i 30 \<Longrightarrow> aluOut_base True i x y = x + y"
proof -
  have b: "bit i 5 \<longleftrightarrow> bit (opcode5 i) 3" by (simp add: opcode5_def bit_bits)
  show "opcode5 i = 4 \<Longrightarrow> funct3 i = 0 \<Longrightarrow> aluOut_base True i x y = x + Iimm i"
    "opcode5 i = 12 \<Longrightarrow> funct3 i = 0 \<Longrightarrow> \<not> bit i 30 \<Longrightarrow> aluOut_base True i x y = x + y"
    by (auto simp: aluOut_base_def aluPlus_def aluIn2_def classes Let_def b)
qed

lemma funct3_csrs:
  assumes "funct3 i = 2"
  shows "\<not> bit i 14" "bits 13 12 i = 2"
proof -
  have "bit i 14 \<longleftrightarrow> bit (funct3 i) 2" by (simp add: funct3_def bit_bits)
  then show "\<not> bit i 14" by (simp add: assms)
  have "bits 13 12 i = bits 1 0 (funct3 i)" by (rule word32_eqI) (simp_all add: funct3_def bit_bits)
  also have "\<dots> = 2" by (simp add: assms bits_def)
  finally show "bits 13 12 i = 2" .
qed

lemma sign_bit: "sint (x :: u32) < 0 \<longleftrightarrow> bit x 31"
  using bit_last_iff [of x] by simp

lemma exec_jump:
  assumes "unhalted p s" "a_regs s 0 = 0" "decodes (a_pc s) (arch_instr s) j"
  shows "arch_step m p io s = jump_exec j s"
proof -
  let ?i = "arch_instr s"
  have pn: "arch_pc_new s = (if isJALR ?i then ucast (aluPlus ?i (arch_rs1 s) (a_regs s (rs2Id ?i)) AND NOT 1)
      else if isJAL ?i \<or> isBranch ?i \<and> predicate ?i (arch_rs1 s) (a_regs s (rs2Id ?i)) then PCplusImm (a_pc s) ?i
      else if is_mret ?i then csr_mepc (a_csrs s) else next_pc s)"
    by (simp add: arch_pc_new_def PC_new_def)
  have mr: "\<not> isSYSTEM ?i \<Longrightarrow> \<not> is_mret ?i" by (simp add: is_mret_def)
  note c = opcode_classes [of ?i]
  show ?thesis
  proof (cases j)
    case (MV rd rs)
    then have o: "opcode5 ?i = 12 \<or> opcode5 ?i = 4" using assms(3) c by auto
    then have n: "\<not> isStore ?i" "\<not> isSYSTEM ?i" "\<not> isBranch ?i" "\<not> isJALR ?i" "\<not> isJAL ?i" by (auto simp: classes)
    have "arch_wb s (arch_data p io s) = a_regs s rs"
      using assms(2,3) MV c by (auto simp: wb_class alu_add arch_rs1_def)
    then show ?thesis
      using step_jump [OF assms(1) n(1,2), of m io] assms(3) MV n mr by (simp add: pn write_nat)
  next
    case (J t)
    then have n: "\<not> isStore ?i" "\<not> isSYSTEM ?i" "\<not> isBranch ?i" "\<not> isJALR ?i" using assms(3) by (auto simp: classes)
    then show ?thesis
      using step_jump [OF assms(1) n(1,2), of m io] assms(3) J by (simp add: pn write_nat put_nat_def)
  next
    case (BGEZ rs t)
    then have n: "\<not> isStore ?i" "\<not> isSYSTEM ?i" "isBranch ?i" "\<not> isJALR ?i" "\<not> isJAL ?i" using assms(3) by (auto simp: classes)
    have "predicate ?i (arch_rs1 s) (a_regs s (rs2Id ?i)) \<longleftrightarrow> \<not> bit (a_regs s rs) 31"
      using assms(2,3) BGEZ by (simp add: predicate_def Let_def LT_less aluIn2_def arch_rs1_def word_sless_alt sign_bit)
    then show ?thesis
      using step_jump [OF assms(1) n(1,2), of m io] assms(3) BGEZ n mr by (simp add: pn write_reg_def)
  next
    case (BEQ rs1 rs2 t)
    then have n: "\<not> isStore ?i" "\<not> isSYSTEM ?i" "isBranch ?i" "\<not> isJALR ?i" "\<not> isJAL ?i" using assms(3) by (auto simp: classes)
    have "predicate ?i (arch_rs1 s) (a_regs s (rs2Id ?i)) \<longleftrightarrow> a_regs s rs1 = a_regs s rs2"
      using assms(3) BEQ n by (simp add: predicate_def Let_def EQ_eq aluIn2_def arch_rs1_def)
    then show ?thesis
      using step_jump [OF assms(1) n(1,2), of m io] assms(3) BEQ n mr by (simp add: pn write_reg_def)
  next
    case (AUIPC rd v)
    then have n: "\<not> isStore ?i" "\<not> isSYSTEM ?i" "\<not> isBranch ?i" "\<not> isJALR ?i" "\<not> isJAL ?i" using assms(3) by (auto simp: classes)
    then show ?thesis
      using step_jump [OF assms(1) n(1,2), of m io] assms(3) AUIPC mr c by (simp add: pn write_nat wb_class)
  next
    case (LO rd u v)
    then have n: "\<not> isStore ?i" "\<not> isSYSTEM ?i" "\<not> isBranch ?i" "\<not> isJALR ?i" "\<not> isJAL ?i" using assms(3) by (auto simp: classes)
    have "arch_wb s (arch_data p io s) = a_regs s rd + (v - u)"
      using assms(3) LO c by (auto simp: wb_class alu_add arch_rs1_def)
    then show ?thesis
      using step_jump [OF assms(1) n(1,2), of m io] assms(3) LO n mr by (simp add: pn write_nat)
  next
    case (JALR rd rs off)
    then have n: "\<not> isStore ?i" "\<not> isSYSTEM ?i" "\<not> isBranch ?i" "isJALR ?i" using assms(3) by (auto simp: classes)
    have "aluPlus ?i (arch_rs1 s) y = a_regs s rs + off" for y
      using assms(3) JALR by (auto simp: aluPlus_def aluIn2_def arch_rs1_def classes)
    then show ?thesis
      using step_jump [OF assms(1) n(1,2), of m io] assms(3) JALR n c by (simp add: pn write_nat wb_class)
  next
    case (CSRS rs)
    then have o: "opcode5 ?i = 28" "funct3 ?i \<noteq> 0" "rdId ?i = 0" "sel_csr 0x300 ?i" "\<not> sel_csr 0x341 ?i" "\<not> bit ?i 14" "bits 13 12 ?i = 2"
      using assms(3) CSRS c funct3_csrs [of ?i] by (simp_all add: sel_csr_def)
    have "bit (CSR_write ?i (arch_rs1 s) (a_csrs s)) 3 \<longleftrightarrow> csr_mstatus (a_csrs s) \<or> bit (a_regs s rs) 3"
      using o assms(3) CSRS by (auto simp: CSR_write_def CSR_modifier_def CSR_read_def sel_csr_def arch_rs1_def bit_or_iff bit_push_bit_iff)
    then show ?thesis
      using step_system [OF assms(1) refl o(1,2), of m io] o CSRS by (simp add: write_reg_def Let_def)
  qed
qed

lemma jump_run:
  assumes "jump_at W s (a_pc s) j" "unhalted p s" "a_regs s 0 = 0"
  shows "arch_step m p io s = jump_exec j s" "same_code W s (jump_exec j s)"
proof -
  show "arch_step m p io s = jump_exec j s"
    using assms by (intro exec_jump) (simp_all add: jump_at_def fetch_here)
  show "same_code W s (jump_exec j s)" by (cases j) (simp_all add: same_code_def)
qed

text \<open>\<open>call\<close>: auipc and jalr through ra; \<open>t\<close> is where it goes and \<open>r\<close> the address after it.\<close>

definition call_at :: "(u32 \<Rightarrow> bool) \<Rightarrow> arch \<Rightarrow> 14 word \<Rightarrow> 14 word \<Rightarrow> 14 word \<Rightarrow> bool" where
  "call_at W s pc t r \<longleftrightarrow>
     (let u = ucast (PCplusImm pc (decompressor (rom_fetch s pc))); q = next_of s pc;
          off = Iimm (decompressor (rom_fetch s q))
      in jump_at W s pc (AUIPC 1 u) \<and> jump_at W s q (JALR 1 1 off) \<and> t = ucast ((u + off) AND NOT 1) \<and> r = next_of s q)"

lemma same_call: "same_code W s t \<Longrightarrow> call_at W s pc h r \<Longrightarrow> call_at W t pc h r"
  by (auto simp: call_at_def Let_def same_jump same_next same_fetch jump_at_def)

lemma call_run:
  assumes "call_at W s (a_pc s) t r" "unhalted p s" "unhalted q s" "a_regs s 0 = 0"
  shows "arch_run m [p, q] s = s\<lparr>a_pc := t, a_regs := (a_regs s)(1 := ucast r)\<rparr>"
proof -
  obtain u off where c: "jump_at W s (a_pc s) (AUIPC 1 u)" "jump_at W s (next_pc s) (JALR 1 1 off)"
    "t = ucast ((u + off) AND NOT 1)" "r = next_of s (next_pc s)"
    using assms(1) by (auto simp: call_at_def Let_def fetch_here)
  note a = jump_run(1) [OF c(1) assms(2,4), of m] jump_run(2) [OF c(1) assms(2,4)]
  define s' where "s' = jump_exec (AUIPC 1 u) s"
  have s': "a_pc s' = next_pc s" "a_regs s' = (a_regs s)(1 := u)" "s' = s\<lparr>a_pc := next_pc s, a_regs := (a_regs s)(1 := u)\<rparr>"
    by (simp_all add: s'_def put_nat_def)
  have sc: "same_code W s s'" using a(2) by (simp only: s'_def)
  have "jump_at W s' (a_pc s') (JALR 1 1 off)" by (simp only: s'(1) same_jump [OF sc c(2)])
  moreover have "unhalted q s'" "a_regs s' 0 = 0" using assms(3,4) by (simp_all add: unhalted_def s'(3))
  ultimately have b: "arch_step m q (io_rdata q) s' = jump_exec (JALR 1 1 off) s'" by (rule jump_run)
  have "fetchable W (next_pc s)" using c(2) by (simp add: jump_at_def)
  from same_next [OF sc this] have n: "next_of s' (a_pc s') = r" by (simp only: s'(1) c(4))
  have "next_pc s' = next_of s' (a_pc s')" by (rule fetch_here)
  then have n: "next_pc s' = r" by (simp only: n)
  have "arch_run m [p, q] s = arch_step m q (io_rdata q) (arch_step m p (io_rdata p) s)" by (simp add: arch_run_def)
  also have "\<dots> = jump_exec (JALR 1 1 off) s'" by (simp only: a(1) s'_def [symmetric] b)
  also have "\<dots> = s'\<lparr>a_pc := ucast ((a_regs s' 1 + off) AND NOT 1), a_regs := put_nat 1 (ucast r) (a_regs s')\<rparr>"
    by (simp only: jump_exec.simps n)
  finally show ?thesis using c(3) by (simp add: s'(3) put_nat_def)
qed

section \<open>The trap entry\<close>

definition isr_frame :: "(u32 \<times> u32) list" where
  "isr_frame = [(1, 0), (5, 4), (6, 8), (7, 12), (28, 16), (29, 20), (30, 24), (31, 28),
     (10, 32), (11, 36), (12, 40), (13, 44), (14, 48), (15, 52), (16, 56), (17, 60)]"

definition isr_save :: "asm list" where
  "isr_save = ADDI 2 2 0xFC0 # map (\<lambda>(r, k). SW r k 2) isr_frame @ [CSRR 10 0x342]"

definition isr_restore :: "asm list" where
  "isr_restore = map (\<lambda>(r, k). LW r k 2) isr_frame @ [ADDI 2 2 64]"

text \<open>\<open>_isr_entry\<close> at \<open>m\<close> with the handlers at \<open>hI\<close> and \<open>hE\<close>; \<open>rI\<close> is the address after the first call.\<close>

definition isr_code :: "(u32 \<Rightarrow> bool) \<Rightarrow> arch \<Rightarrow> 14 word \<Rightarrow> 14 word \<Rightarrow> 14 word \<Rightarrow> 14 word \<Rightarrow> 14 word \<Rightarrow> 14 word \<Rightarrow> bool" where
  "isr_code W s m hI hE rI L10 L11 \<longleftrightarrow>
     (let a = end_of s m isr_save; b = next_of s a; e = end_of s L11 isr_restore
      in code_on W s m isr_save \<and> jump_at W s a (MV 11 2) \<and> jump_at W s b (BGEZ 10 L10) \<and>
         call_at W s (next_of s b) hI rI \<and> jump_at W s rI (J L11) \<and> call_at W s L10 hE L11 \<and>
         code_on W s L11 isr_restore \<and> fetchable W e \<and> decompressor (rom_fetch s e) = 0x30200073)"

lemma same_isr:
  assumes "same_code W s t" "isr_code W s m hI hE rI L10 L11"
  shows "isr_code W t m hI hE rI L10 L11 \<and> end_of t L11 isr_restore = end_of s L11 isr_restore"
proof -
  let ?a = "end_of s m isr_save"
  have i: "code_on W s m isr_save" "code_on W s L11 isr_restore" "fetchable W ?a" "fetchable W (next_of s ?a)"
    using assms(2) by (auto simp: isr_code_def jump_at_def Let_def)
  note l = same_listing [OF assms(1) i(1)] same_listing [OF assms(1) i(2)] same_next [OF assms(1) i(3)] same_next [OF assms(1) i(4)]
  show ?thesis
    using assms(2) l by (auto simp: isr_code_def Let_def same_jump [OF assms(1)] same_call [OF assms(1)] same_fetch [OF assms(1)])
qed

text \<open>The frame below the stack pointer \<open>sp\<close> of the interrupted program.\<close>

definition frame_base :: "u32 \<Rightarrow> u32" where "frame_base sp = sp - 64"
definition frame_word :: "u32 \<Rightarrow> u32 \<Rightarrow> u32" where "frame_word sp k = ram_waddr (frame_base sp + k)"

definition stack_ok :: "(u32 \<Rightarrow> bool) \<Rightarrow> u32 \<Rightarrow> bool" where
  "stack_ok W sp \<longleftrightarrow> 64 \<le> unat sp \<and> unat sp \<le> 4096 \<and> unat sp mod 4 = 0 \<and> (\<forall>x \<in> set isr_frame. \<not> W (frame_word sp (snd x)))"

lemma frame_regs: "x \<in> set isr_frame \<Longrightarrow> fst x < 32 \<and> fst x \<noteq> 0 \<and> fst x \<noteq> 2 \<and> unat (snd x) \<le> 60 \<and> unat (snd x) mod 4 = 0"
proof -
  assume x: "x \<in> set isr_frame"
  have "list_all (\<lambda>x. fst x < 32 \<and> fst x \<noteq> 0 \<and> fst x \<noteq> 2 \<and> unat (snd x) \<le> 60 \<and> unat (snd x) mod 4 = 0) isr_frame" by code_simp
  then have "\<forall>x \<in> set isr_frame. fst x < 32 \<and> fst x \<noteq> 0 \<and> fst x \<noteq> 2 \<and> unat (snd x) \<le> 60 \<and> unat (snd x) mod 4 = 0"
    by (simp only: list_all_iff)
  then show ?thesis using x by blast
qed

lemma frame_inj: "inj_on snd (set isr_frame)" "inj_on fst (set isr_frame)"
  by (simp_all add: isr_frame_def)

lemma frame_addr:
  assumes "stack_ok W sp" "x \<in> set isr_frame"
  shows "word_in_ram (frame_base sp + snd x)" "unat (frame_word sp (snd x)) = unat (frame_base sp) div 4 + unat (snd x) div 4"
    "sext12 (snd x) = snd x"
proof -
  have k: "unat (snd x) \<le> 60" "unat (snd x) mod 4 = 0" using frame_regs [OF assms(2)] by auto
  have s: "64 \<le> unat sp" "unat sp \<le> 4096" "unat sp mod 4 = 0" using assms(1) by (auto simp: stack_ok_def)
  have b: "unat (frame_base sp) = unat sp - 64" using s(1) by (simp add: frame_base_def unat_sub word_le_nat_alt)
  have u: "unat (frame_base sp + snd x) = unat sp - 64 + unat (snd x)"
    using s k b by (simp add: unat_word_ariths(1))
  have m: "(unat sp - 64 + unat (snd x)) mod 4 = 0" using s(1,3) k(2) by presburger
  show w: "word_in_ram (frame_base sp + snd x)" using s k m by (simp add: word_in_ram_iff u)
  have "(unat sp - 64 + unat (snd x)) div 4 = (unat sp - 64) div 4 + unat (snd x) div 4"
    by (rule div_plus_div_distrib_dvd_right) (simp add: k(2) mod_eq_0_iff_dvd [symmetric])
  then show "unat (frame_word sp (snd x)) = unat (frame_base sp) div 4 + unat (snd x) div 4"
    using unat_waddr [of "frame_base sp + snd x"] w by (simp add: frame_word_def word_in_ram_def u b)
  show "sext12 (snd x) = snd x" using k by (intro sext12_small) (simp add: word_less_nat_alt)
qed

lemma frame_word_inj: "stack_ok W sp \<Longrightarrow> inj_on (\<lambda>x. frame_word sp (snd x)) (set isr_frame)"
proof (rule inj_onI)
  fix x y assume a: "stack_ok W sp" "x \<in> set isr_frame" "y \<in> set isr_frame" "frame_word sp (snd x) = frame_word sp (snd y)"
  then have "unat (snd x) div 4 = unat (snd y) div 4" using frame_addr(2) [OF a(1)] by (metis add_left_cancel)
  moreover have "unat (snd x) mod 4 = 0" "unat (snd y) mod 4 = 0" using frame_regs a(2,3) by blast+
  ultimately have "unat (snd x) = unat (snd y)" by (metis div_mult_mod_eq)
  then have "snd x = snd y" by (simp add: word_unat_eq_iff)
  then show "x = y" using frame_inj(1) a(2,3) by (auto dest: inj_onD)
qed

lemma store_frame:
  assumes "a_regs s 2 = B"
    "\<forall>x \<in> set xs. fst x < 32 \<and> word_in_ram (B + snd x) \<and> sext12 (snd x) = snd x \<and> \<not> W (ram_waddr (B + snd x))"
  shows "fold asm_exec (map (\<lambda>x. SW (fst x) (snd x) 2) xs) s =
      s\<lparr>a_ram := fold (\<lambda>x m. m(ram_waddr (B + snd x) := a_regs s (unat (fst x)))) xs (a_ram s)\<rparr> \<and>
    asm_oks (map (\<lambda>x. SW (fst x) (snd x) 2) xs) s \<and> apart W (map (\<lambda>x. SW (fst x) (snd x) 2) xs) s"
  using assms by (induction xs arbitrary: s) (simp_all add: asm_addr_def)

lemma load_frame:
  assumes "a_regs s 2 = B" "a_ram s = M"
    "\<forall>x \<in> set xs. fst x < 32 \<and> fst x \<noteq> 2 \<and> fst x \<noteq> 0 \<and> word_in_ram (B + snd x) \<and> sext12 (snd x) = snd x"
  shows "fold asm_exec (map (\<lambda>x. LW (fst x) (snd x) 2) xs) s =
      s\<lparr>a_regs := fold (\<lambda>x g. g(unat (fst x) := M (ram_waddr (B + snd x)))) xs (a_regs s)\<rparr> \<and>
    asm_oks (map (\<lambda>x. LW (fst x) (snd x) 2) xs) s \<and> apart W (map (\<lambda>x. LW (fst x) (snd x) 2) xs) s"
  using assms
proof (induction xs arbitrary: s)
  case (Cons x xs)
  have "unat (fst x) \<noteq> 2" using Cons.prems(3) by (auto simp: word_unat_eq_iff)
  then show ?case
    using Cons by (simp add: asm_addr_def put_reg_def del: fun_upd_apply) (simp add: fun_upd_def)
qed simp

lemma stack_imm: "sext12 0xFC0 = - 64" "sext12 64 = 64" by code_simp+

lemma frame_ok:
  assumes "stack_ok W sp"
  shows "\<forall>x \<in> set isr_frame. fst x < 32 \<and> fst x \<noteq> 2 \<and> fst x \<noteq> 0 \<and> word_in_ram (frame_base sp + snd x) \<and> sext12 (snd x) = snd x \<and>
    \<not> W (ram_waddr (frame_base sp + snd x))"
  using frame_addr(1,3) [OF assms] frame_regs assms by (auto simp: stack_ok_def frame_word_def)

definition frame_saved :: "u32 \<Rightarrow> (nat \<Rightarrow> u32) \<Rightarrow> (u32 \<Rightarrow> u32) \<Rightarrow> (u32 \<Rightarrow> u32)" where
  "frame_saved sp g m = fold (\<lambda>x m. m(frame_word sp (snd x) := g (unat (fst x)))) isr_frame m"

lemma save_effect:
  assumes "stack_ok W (a_regs s 2)" "a_regs s 0 = 0"
  shows "fold asm_exec isr_save s =
      s\<lparr>a_regs := (a_regs s)(2 := frame_base (a_regs s 2), 10 := mcause_read (a_csrs s)),
        a_ram := frame_saved (a_regs s 2) (a_regs s) (a_ram s)\<rparr> \<and>
    asm_oks isr_save s \<and> apart W isr_save s"
proof -
  let ?sp = "a_regs s 2" and ?f = "map (\<lambda>x. SW (fst x) (snd x) 2) isr_frame"
  have e: "isr_save = [ADDI 2 2 0xFC0] @ ?f @ [CSRR 10 0x342]" by (simp add: isr_save_def split_def)
  let ?s1 = "s\<lparr>a_regs := (a_regs s)(2 := frame_base ?sp)\<rparr>"
  have 1: "fold asm_exec [ADDI 2 2 0xFC0] s = ?s1" "asm_oks [ADDI 2 2 0xFC0] s" "apart W [ADDI 2 2 0xFC0] s"
    by (simp_all add: put_reg_def stack_imm frame_base_def)
  have "fold (\<lambda>x m. m(ram_waddr (frame_base ?sp + snd x) := a_regs ?s1 (unat (fst x)))) isr_frame (a_ram ?s1) =
      frame_saved ?sp (a_regs s) (a_ram s)"
    unfolding frame_saved_def frame_word_def
  proof (rule fold_cong)
    show "(\<lambda>m. m(ram_waddr (frame_base ?sp + snd x) := a_regs ?s1 (unat (fst x)))) =
        (\<lambda>m. m(ram_waddr (frame_base ?sp + snd x) := a_regs s (unat (fst x))))" if "x \<in> set isr_frame" for x
    proof -
      have "unat (fst x) \<noteq> 2" using frame_regs [OF that] by (auto simp: word_unat_eq_iff)
      then show ?thesis by simp
    qed
  qed simp_all
  then have 2: "fold asm_exec ?f ?s1 = ?s1\<lparr>a_ram := frame_saved ?sp (a_regs s) (a_ram s)\<rparr>" "asm_oks ?f ?s1" "apart W ?f ?s1"
    using store_frame [of ?s1 "frame_base ?sp" isr_frame W] frame_ok [OF assms(1)] by auto
  show ?thesis
    unfolding e fold_append asm_oks_append apart_append o_apply 1 2
    using 1 2 assms(2) by (simp add: put_reg_def)
qed

lemma frame_saved_in: "stack_ok W sp \<Longrightarrow> x \<in> set isr_frame \<Longrightarrow> frame_saved sp g m (frame_word sp (snd x)) = g (unat (fst x))"
  unfolding frame_saved_def by (rule fold_upd_in [OF frame_word_inj])

lemma frame_saved_out: "\<forall>x \<in> set isr_frame. w \<noteq> frame_word sp (snd x) \<Longrightarrow> frame_saved sp g m w = m w"
  unfolding frame_saved_def by (rule fold_upd_out) auto

lemma last_four: "length ps = n + 4 \<Longrightarrow> \<exists>qs p1 p2 p3 p4. ps = qs @ [p1, p2, p3, p4] \<and> length qs = n"
proof -
  assume l: "length ps = n + 4"
  have "\<exists>a b c d. xs = [a, b, c, d]" if "length xs = 4" for xs :: "'a list"
    using that by (auto simp: length_Suc_conv eval_nat_numeral)
  then obtain a b c d where "drop n ps = [a, b, c, d]" using l by fastforce
  then have "ps = take n ps @ [a, b, c, d]" "length (take n ps) = n" using l append_take_drop_id [of n ps] by auto
  then show ?thesis by blast
qed

text \<open>From the trap to the handler.\<close>

lemma isr_dispatch:
  assumes c: "isr_code W s (a_pc s) hI hE rI L10 L11" and k: "stack_ok W (a_regs s 2)" and z: "a_regs s 0 = 0"
    and u: "csr_mcause (a_csrs s)" "\<forall>p \<in> set ps. \<not> dbg_halt_req p" "length ps = 22"
  defines "irq \<equiv> bit (mcause_read (a_csrs s)) 31"
  shows "arch_run m ps s = s\<lparr>a_pc := (if irq then hI else hE),
      a_regs := (a_regs s)(2 := frame_base (a_regs s 2), 10 := mcause_read (a_csrs s), 11 := frame_base (a_regs s 2),
        1 := ucast (if irq then rI else L11)),
      a_ram := frame_saved (a_regs s 2) (a_regs s) (a_ram s)\<rparr> \<and> same_code W s (arch_run m ps s)"
proof -
  obtain qs p1 p2 p3 p4 where ps: "ps = qs @ [p1, p2, p3, p4]" and lq: "length qs = 18"
    using last_four [of ps 18] u(3) by auto
  have uh: "\<forall>p \<in> set ps. unhalted p s" using u(1,2) by (simp add: unhalted_def)
  let ?a = "end_of s (a_pc s) isr_save"
  have co: "code_on W s (a_pc s) isr_save" "jump_at W s ?a (MV 11 2)" "jump_at W s (next_of s ?a) (BGEZ 10 L10)"
    "call_at W s (next_of s (next_of s ?a)) hI rI" "call_at W s L10 hE L11"
    using c by (auto simp: isr_code_def Let_def)
  have fe: "fetchable W ?a" "fetchable W (next_of s ?a)" using co(2,3) by (auto simp: jump_at_def)
  note se = save_effect [OF k z]
  have l18: "length qs = length isr_save" using lq by (simp add: isr_save_def isr_frame_def)
  have uq: "\<forall>p \<in> set qs. unhalted p s" using uh ps by auto
  note lr = listing_run [OF co(1) conjunct1 [OF conjunct2 [OF se]] conjunct2 [OF conjunct2 [OF se]] uq l18, of m]
  define t where "t = arch_run m qs s"
  have t: "t = s\<lparr>a_pc := ?a, a_regs := (a_regs s)(2 := frame_base (a_regs s 2), 10 := mcause_read (a_csrs s)),
      a_ram := frame_saved (a_regs s 2) (a_regs s) (a_ram s)\<rparr>" "same_code W s t"
    using lr se unfolding t_def by (simp, blast)
  have ut: "unhalted p t" if "p \<in> set ps" for p using uh that by (simp add: t(1) unhalted_def)
  have zt: "a_regs t 0 = 0" using z by (simp add: t)
  have jt: "jump_at W t (a_pc t) (MV 11 2)" using same_jump [OF t(2) co(2)] by (simp add: t(1))
  define t1 where "t1 = jump_exec (MV 11 2) t"
  have s1: "arch_step m p1 (io_rdata p1) t = t1" "same_code W t t1"
    using jump_run [OF jt ut zt, of p1] ps by (simp_all add: t1_def)
  have n1: "next_pc t = next_of s ?a" using same_next [OF t(2) fe(1)] unfolding fetch_here by (simp add: t(1))
  have t1: "t1 = t\<lparr>a_pc := next_of s ?a, a_regs := (a_regs t)(11 := frame_base (a_regs s 2))\<rparr>"
    by (simp add: t1_def n1 put_nat_def del: fun_upd_apply) (simp add: t(1))
  have sc1: "same_code W s t1" using same_trans [OF t(2) s1(2)] .
  have jb: "jump_at W t1 (a_pc t1) (BGEZ 10 L10)" using same_jump [OF sc1 co(3)] by (simp add: t1)
  define t2 where "t2 = jump_exec (BGEZ 10 L10) t1"
  have u1: "unhalted p t1" if "p \<in> set ps" for p using ut [OF that] by (simp add: t1 unhalted_def)
  have z1: "a_regs t1 0 = 0" using zt by (simp add: t1)
  have s2: "arch_step m p2 (io_rdata p2) t1 = t2" "same_code W t1 t2"
    using jump_run [OF jb u1 z1, of p2] ps by (simp_all add: t2_def)
  have n2: "next_pc t1 = next_of s (next_of s ?a)" using same_next [OF sc1 fe(2)] unfolding fetch_here by (simp add: t1)
  have "a_regs t1 10 = mcause_read (a_csrs s)" by (simp add: t1 t(1))
  then have t2: "t2 = t1\<lparr>a_pc := (if irq then next_of s (next_of s ?a) else L10)\<rparr>" by (simp add: t2_def n2 irq_def)
  then have pc2: "a_pc t2 = (if irq then next_of s (next_of s ?a) else L10)" by simp
  have sc2: "same_code W s t2" using same_trans [OF sc1 s2(2)] .
  have ca: "call_at W t2 (a_pc t2) (if irq then hI else hE) (if irq then rI else L11)"
    using same_call [OF sc2 co(4)] same_call [OF sc2 co(5)] pc2 by (cases irq) simp_all
  have u2: "unhalted p t2" if "p \<in> set ps" for p using u1 [OF that] by (simp add: t2 unhalted_def)
  have z2: "a_regs t2 0 = 0" using z1 by (simp add: t2)
  have s3: "arch_run m [p3, p4] t2 = t2\<lparr>a_pc := (if irq then hI else hE), a_regs := (a_regs t2)(1 := ucast (if irq then rI else L11))\<rparr>"
    using ps by (intro call_run [OF ca u2 u2 z2]) simp_all
  have "arch_run m ps s = arch_run m [p3, p4] (arch_step m p2 (io_rdata p2) (arch_step m p1 (io_rdata p1) (arch_run m qs s)))"
    by (simp add: ps arch_run_def)
  also have "\<dots> = arch_run m [p3, p4] t2" by (simp only: t_def [symmetric] s1(1) s2(1))
  finally have f: "arch_run m ps s = t2\<lparr>a_pc := (if irq then hI else hE), a_regs := (a_regs t2)(1 := ucast (if irq then rI else L11))\<rparr>"
    unfolding s3 .
  have "same_code W s (arch_run m ps s)" unfolding f using sc2 by (simp add: same_code_def)
  then show ?thesis unfolding f by (simp add: t2 t1 t(1))
qed

lemma restore_effect:
  assumes "stack_ok W sp" "a_regs s 2 = frame_base sp" "M = a_ram s"
  shows "fold asm_exec isr_restore s =
      s\<lparr>a_regs := (fold (\<lambda>x g. g(unat (fst x) := M (frame_word sp (snd x)))) isr_frame (a_regs s))(2 := sp)\<rparr> \<and>
    asm_oks isr_restore s \<and> apart W isr_restore s"
proof -
  let ?l = "map (\<lambda>x. LW (fst x) (snd x) 2) isr_frame"
  let ?R = "fold (\<lambda>x g. g(unat (fst x) := M (frame_word sp (snd x)))) isr_frame (a_regs s)"
  have e: "isr_restore = ?l @ [ADDI 2 2 64]" by (simp add: isr_restore_def split_def)
  have 1: "fold asm_exec ?l s = s\<lparr>a_regs := ?R\<rparr>" "asm_oks ?l s" "apart W ?l s"
    using load_frame [of s "frame_base sp" M isr_frame W] frame_ok [OF assms(1)] assms(2,3) by (auto simp: frame_word_def)
  have "unat (fst x) \<noteq> 2" if "x \<in> set isr_frame" for x using frame_regs [OF that] by (auto simp: word_unat_eq_iff)
  then have "?R 2 = frame_base sp" by (subst fold_upd_out) (auto simp: assms(2))
  then show ?thesis
    unfolding e fold_append asm_oks_append apart_append o_apply 1
    using 1 by (simp add: put_reg_def stack_imm frame_base_def)
qed

definition callee_saved :: "nat set" where
  "callee_saved = {2, 3, 4, 8, 9} \<union> {18..27}"

lemma register_cases: "i \<in> {1..31} \<Longrightarrow> i \<in> callee_saved \<or> (\<exists>x \<in> set isr_frame. unat (fst x) = i)"
proof -
  assume i: "i \<in> {1..31}"
  have "list_all (\<lambda>i. List.member [2, 3, 4, 8, 9, 18, 19, 20, 21, 22, 23, 24, 25, 26, 27] i \<or>
      List.member (map (\<lambda>x. unat (fst x)) isr_frame) i) [1..<32]" by code_simp
  then have "\<forall>i \<in> set [1..<32]. List.member [2, 3, 4, 8, 9, 18, 19, 20, 21, 22, 23, 24, 25, 26, 27] i \<or>
      List.member (map (\<lambda>x. unat (fst x)) isr_frame) i" by (simp only: list_all_iff)
  moreover have "i \<in> set [1..<32]" using i by auto
  ultimately show ?thesis by (fastforce simp: callee_saved_def)
qed

lemma callee_not_frame: "i \<in> callee_saved \<Longrightarrow> x \<in> set isr_frame \<Longrightarrow> unat (fst x) \<noteq> i"
  by (auto simp: callee_saved_def isr_frame_def)

text \<open>From the return of the handler to mret.\<close>

lemma isr_return:
  assumes c: "isr_code W v m hI hE rI L10 L11" and k: "stack_ok W sp" "a_regs v 2 = frame_base sp" and z: "a_regs v 0 = 0"
    and a: "a_pc v = (if irq then rI else L11)" and u: "csr_mcause (a_csrs v)" "\<forall>p \<in> set qs. \<not> dbg_halt_req p"
      "length qs = (if irq then 18 else 17)"
  shows "let w = arch_run m qs v
    in arch_instr w = 0x30200073 \<and> a_csrs w = a_csrs v \<and> a_ram w = a_ram v \<and> a_regs w 2 = sp \<and>
       (\<forall>x \<in> set isr_frame. a_regs w (unat (fst x)) = a_ram v (frame_word sp (snd x))) \<and>
       (\<forall>i \<in> callee_saved. i \<noteq> 2 \<longrightarrow> a_regs w i = a_regs v i)"
proof -
  let ?v = "v\<lparr>a_pc := L11\<rparr>"
  obtain rs where rs: "arch_run m qs v = arch_run m rs ?v" "length rs = 17" "set rs \<subseteq> set qs"
  proof (cases irq)
    case False
    then show ?thesis using that [of qs] a u(3) by (cases v) simp
  next
    case True
    then obtain p rs where qs: "qs = p # rs" "length rs = 17" using u(3) by (cases qs) auto
    have "jump_at W v (a_pc v) (J L11)" using c a True by (simp add: isr_code_def Let_def)
    moreover have "unhalted p v" using u(1,2) qs by (simp add: unhalted_def)
    ultimately have "arch_step m p (io_rdata p) v = ?v" using jump_run(1) [of W v "J L11" p m "io_rdata p"] z by simp
    moreover have "set rs \<subseteq> set qs" using qs by auto
    ultimately show ?thesis using that [of rs] qs by (simp add: arch_run_def)
  qed
  let ?e = "end_of v L11 isr_restore"
  have co: "code_on W v L11 isr_restore" "fetchable W ?e" "decompressor (rom_fetch v ?e) = 0x30200073"
    using c by (auto simp: isr_code_def Let_def)
  have sv: "same_code W v ?v" by (simp add: same_code_def)
  have c': "code_on W ?v (a_pc ?v) isr_restore" "end_of ?v (a_pc ?v) isr_restore = ?e" using same_listing [OF sv co(1)] by simp_all
  have "\<forall>p \<in> set rs. unhalted p ?v" using u(1,2) rs(3) by (auto simp: unhalted_def)
  note re = restore_effect [OF k(1), of ?v "a_ram v"]
  have l: "length rs = length isr_restore" by (simp add: rs(2) isr_restore_def isr_frame_def)
  have re': "fold asm_exec isr_restore ?v =
      ?v\<lparr>a_regs := (fold (\<lambda>x g. g(unat (fst x) := a_ram v (frame_word sp (snd x)))) isr_frame (a_regs v))(2 := sp)\<rparr>"
    "asm_oks isr_restore ?v" "apart W isr_restore ?v" using re k(2) by simp_all
  note lr = listing_run [OF c'(1) re'(2,3) \<open>\<forall>p \<in> set rs. unhalted p ?v\<close> l, of m]
  define R where "R = fold (\<lambda>x g. g(unat (fst x) := a_ram v (frame_word sp (snd x)))) isr_frame (a_regs v)"
  define w where "w = arch_run m qs v"
  have w: "w = v\<lparr>a_pc := ?e, a_regs := R(2 := sp)\<rparr>" "same_code W ?v w"
    using lr re'(1) c'(2) unfolding w_def rs(1) by (simp add: R_def, blast)
  have sw: "same_code W v w" using same_trans [OF sv w(2)] .
  have "rom_fetch w ?e = rom_fetch v ?e" by (rule same_fetch [OF sw co(2)])
  then have i: "arch_instr w = 0x30200073" unfolding fetch_here using co(3) by (simp add: w(1))
  have inj: "inj_on (\<lambda>x. unat (fst x)) (set isr_frame)"
    using frame_inj(2) by (auto simp: inj_on_def word_unat_eq_iff)
  have f: "R (unat (fst x)) = a_ram v (frame_word sp (snd x))" if "x \<in> set isr_frame" for x
    using fold_upd_in [OF inj that, of "\<lambda>x. a_ram v (frame_word sp (snd x))" "a_regs v"] by (simp add: R_def)
  have n2: "unat (fst x) \<noteq> 2" if "x \<in> set isr_frame" for x using frame_regs [OF that] by (auto simp: word_unat_eq_iff)
  have o: "R i = a_regs v i" if "i \<in> callee_saved" for i
    unfolding R_def by (rule fold_upd_out) (use callee_not_frame [OF that] in auto)
  have wf: "a_csrs w = a_csrs v" "a_ram w = a_ram v" "a_regs w = R(2 := sp)" by (simp_all add: w(1))
  have "\<forall>x \<in> set isr_frame. a_regs w (unat (fst x)) = a_ram v (frame_word sp (snd x))" using f n2 by (auto simp: wf)
  moreover have "\<forall>i \<in> callee_saved. i \<noteq> 2 \<longrightarrow> a_regs w i = a_regs v i" using o by (simp add: wf)
  moreover have "a_regs w 2 = sp" by (simp add: wf)
  ultimately show ?thesis unfolding w_def [symmetric] Let_def using i wf(1,2) by blast
qed

text \<open>C3: An interrupt is transparent to a program of the non-debug builds. The core traps at an
  instruction that is neither an environment call nor a load under an NMI or a debug halt, whose
  data the core loses; the entry code of crt0.S stores the caller-saved registers on the
  program's stack and reaches irq_handler or ebreak_handler according to mcause; when the
  handler returns with ra, the callee-saved registers, the saved words and mepc as it found
  them, the rest of the code restores the registers, and mret continues with the address, the 31
  registers and the memory words the handler left alone that the completed instruction alone
  would have left (a wfi counts as completed). No debug halt arrives while this code runs.\<close>

theorem isr_transparent:
  assumes u: "async_trap p u" "\<not> env_trap_accepted True (arch_instr u) (a_csrs u)" "a_regs u 0 = 0"
      "\<not> cut_load p (arch_instr u) (a_csrs u)"
    and s: "s = arch_step m p io u" "isr_code W s m hI hE rI L10 L11" "stack_ok W (a_regs s 2)"
    and t: "t = arch_run m ps s" "\<forall>p \<in> set ps. \<not> dbg_halt_req p" "length ps = 22"
    and v: "a_pc v = ucast (a_regs t 1)" "a_regs v 0 = 0" "\<forall>i \<in> callee_saved. a_regs v i = a_regs t i" "same_code W t v"
      "csr_mcause (a_csrs v)" "csr_mepc (a_csrs v) = csr_mepc (a_csrs t)"
      "\<forall>x \<in> set isr_frame. a_ram v (frame_word (a_regs s 2) (snd x)) = a_ram t (frame_word (a_regs s 2) (snd x))"
      "\<forall>w \<in> P. (\<forall>x \<in> set isr_frame. w \<noteq> frame_word (a_regs s 2) (snd x)) \<and> a_ram v w = a_ram t w"
    and q: "\<forall>p \<in> set qs. \<not> dbg_halt_req p" "length qs = (if bit (mcause_read (a_csrs s)) 31 then 18 else 17)" "\<not> dbg_halt_req q"
  shows "(a_pc t = (if bit (mcause_read (a_csrs s)) 31 then hI else hE)) \<and>
    (let r = arch_step m q io' (arch_run m qs v); n = arch_step m (no_requests p) io u
     in a_pc r = a_pc n \<and> (\<forall>i \<in> {1..31}. a_regs r i = a_regs n i) \<and> (\<forall>w \<in> P. a_ram r w = a_ram n w) \<and>
        \<not> csr_mcause (a_csrs r) \<and> \<not> dbg_halt_mask (a_csrs r))"
proof -
  let ?n = "arch_step m (no_requests p) io u" and ?w = "arch_run m qs v" and ?sp = "a_regs s 2"
  let ?irq = "bit (mcause_read (a_csrs s)) 31"
  note st = async_state [OF u(1), of m io, folded s(1)]
  note pt = precise_step [OF u(1,2,4), of m io, folded s(1), unfolded Let_def]
  have z: "a_regs s 0 = 0" using st(3) u(3) by simp
  have c: "isr_code W s (a_pc s) hI hE rI L10 L11" using s(2) st(1) by simp
  note di = isr_dispatch [OF c s(3) z st(2) t(2,3), of m, folded t(1)]
  have sv: "same_code W s v" using di v(4) same_trans by blast
  have cv: "isr_code W v m hI hE rI L10 L11" using same_isr [OF sv s(2)] by simp
  have t2: "a_regs t i = (if i = 2 then frame_base ?sp else a_regs s i)" if "i \<in> callee_saved" for i
    using di that by (auto simp: callee_saved_def)
  have k2: "a_regs v 2 = frame_base ?sp" using v(3) t2 by (simp add: callee_saved_def)
  have pc: "a_pc v = (if ?irq then rI else L11)" using di v(1) by (simp add: ucast14_back)
  note re = isr_return [OF cv s(3) k2 v(2) pc v(5) q(1,2), unfolded Let_def]
  have "unhalted q ?w" using re v(5) q(3) by (simp add: unhalted_def)
  note mr = mret_returns [OF conjunct1 [OF re] this, of m io', unfolded Let_def]
  have frame: "a_regs ?w (unat (fst x)) = a_regs s (unat (fst x))" if "x \<in> set isr_frame" for x
    using re that v(7) di frame_saved_in [OF s(3) that] by simp
  have regs: "a_regs ?w i = a_regs s i" if "i \<in> {1..31}" for i
    using register_cases [OF that]
  proof
    assume "i \<in> callee_saved"
    then show ?thesis using re v(3) t2 [of i] by (cases "i = 2") auto
  qed (use frame in auto)
  have mem: "a_ram ?w w = a_ram s w" if "w \<in> P" for w
    using re v(8) that di frame_saved_out [of w ?sp "a_regs s" "a_ram s"] by simp
  have "csr_mepc (a_csrs ?w) = a_pc ?n" using re v(6) di pt by simp
  then show ?thesis using mr regs mem pt di by (simp add: Let_def)
qed

section \<open>From reset to main\<close>

text \<open>A listing of instructions of the second kind that only set registers.\<close>

fun plain :: "jump \<Rightarrow> bool" where
  "plain (MV rd rs) = (rd \<noteq> 0)"
| "plain (AUIPC rd v) = (rd \<noteq> 0)"
| "plain (LO rd u v) = (rd \<noteq> 0)"
| "plain _ = False"

fun jumps_on :: "(u32 \<Rightarrow> bool) \<Rightarrow> arch \<Rightarrow> 14 word \<Rightarrow> jump list \<Rightarrow> bool" where
  "jumps_on W s pc [] = True"
| "jumps_on W s pc (j # js) = (jump_at W s pc j \<and> jumps_on W s (next_of s pc) js)"

fun jumps_end :: "arch \<Rightarrow> 14 word \<Rightarrow> jump list \<Rightarrow> 14 word" where
  "jumps_end s pc [] = pc"
| "jumps_end s pc (j # js) = jumps_end s (next_of s pc) js"

lemma same_jumps:
  assumes "same_code W s t" "jumps_on W s pc js"
  shows "jumps_on W t pc js \<and> jumps_end t pc js = jumps_end s pc js"
  using assms(2)
  by (induction js arbitrary: pc) (auto simp: same_jump [OF assms(1)] jump_at_def same_next [OF assms(1)] same_fetch [OF assms(1)])

lemma plain_exec:
  assumes "plain j" "a_regs s 0 = 0"
  shows "a_pc (jump_exec j s) = next_pc s" "a_regs (jump_exec j s) 0 = 0" "a_ram (jump_exec j s) = a_ram s"
    "a_rom (jump_exec j s) = a_rom s" "a_csrs (jump_exec j s) = a_csrs s" "unhalted p (jump_exec j s) = unhalted p s"
  using assms by (cases j; simp add: put_nat_def unhalted_def)+

lemma jumps_run:
  assumes "jumps_on W s (a_pc s) js" "\<forall>j \<in> set js. plain j" "a_regs s 0 = 0" "\<forall>p \<in> set ps. unhalted p s" "length ps = length js"
  shows "arch_run m ps s = fold jump_exec js s \<and> a_pc (fold jump_exec js s) = jumps_end s (a_pc s) js \<and>
    a_ram (fold jump_exec js s) = a_ram s \<and> a_rom (fold jump_exec js s) = a_rom s \<and> a_csrs (fold jump_exec js s) = a_csrs s \<and>
    a_regs (fold jump_exec js s) 0 = 0"
  using assms
proof (induction js arbitrary: s ps)
  case (Cons j js)
  then obtain p qs where ps: "ps = p # qs" by (auto simp: length_Suc_conv)
  have p: "plain j" "jump_at W s (a_pc s) j" "unhalted p s" using Cons.prems ps by simp_all
  define t where "t = jump_exec j s"
  note st = jump_run(1) [OF p(2,3) Cons.prems(3), of m "io_rdata p"] and sc = jump_run(2) [OF p(2,3) Cons.prems(3), folded t_def]
  note e = plain_exec [OF p(1) Cons.prems(3), folded t_def]
  have pc: "a_pc t = next_of s (a_pc s)" using e(1) by (simp add: fetch_here)
  have "jumps_on W s (next_of s (a_pc s)) js" using Cons.prems(1) by simp
  note l = same_jumps [OF sc this]
  have "arch_run m ps s = arch_run m qs t" by (simp add: ps arch_run_def st t_def)
  moreover have "arch_run m qs t = fold jump_exec js t \<and> a_pc (fold jump_exec js t) = jumps_end t (a_pc t) js \<and>
    a_ram (fold jump_exec js t) = a_ram t \<and> a_rom (fold jump_exec js t) = a_rom t \<and> a_csrs (fold jump_exec js t) = a_csrs t \<and>
    a_regs (fold jump_exec js t) 0 = 0"
    using Cons.prems ps l e by (intro Cons.IH) (simp_all add: pc)
  ultimately show ?case using l e by (simp add: pc t_def [symmetric] del: jump_exec.simps)
qed (simp add: arch_run_def)

text \<open>The loop that clears .bss, from label 1 to label 2.\<close>

definition bss_body :: "asm list" where "bss_body = [SW 0 0 5, ADDI 5 5 4]"

definition bss_loop :: "(u32 \<Rightarrow> bool) \<Rightarrow> arch \<Rightarrow> 14 word \<Rightarrow> 14 word \<Rightarrow> bool" where
  "bss_loop W s L1 L2 \<longleftrightarrow> jump_at W s L1 (BEQ 5 6 L2) \<and> code_on W s (next_of s L1) bss_body \<and>
     jump_at W s (end_of s (next_of s L1) bss_body) (J L1)"

lemma same_loop: "same_code W s t \<Longrightarrow> bss_loop W s L1 L2 \<Longrightarrow> bss_loop W t L1 L2"
proof -
  assume a: "same_code W s t" "bss_loop W s L1 L2"
  then have "fetchable W L1" "code_on W s (next_of s L1) bss_body" by (auto simp: bss_loop_def jump_at_def)
  with same_listing [OF a(1) this(2)] a show ?thesis by (auto simp: bss_loop_def same_jump same_next)
qed

definition cleared :: "nat \<Rightarrow> nat \<Rightarrow> (u32 \<Rightarrow> u32) \<Rightarrow> (u32 \<Rightarrow> u32)" where
  "cleared k n m = (\<lambda>w. if k \<le> unat w \<and> unat w < k + n then 0 else m w)"

lemma cleared_none: "cleared k 0 m = m"
  by (rule ext) (auto simp: cleared_def)

lemma cleared_step: "unat w = k \<Longrightarrow> cleared (k + 1) n (m(w := 0)) = cleared k (Suc n) m"
  by (auto simp: cleared_def fun_eq_iff word_unat_eq_iff)

lemma bss_clears:
  assumes "bss_loop W s L1 L2" "a_pc s = L1" "a_regs s 0 = 0"
    and "unat (a_regs s 5) mod 4 = 0" "unat (a_regs s 5) + 4 * n \<le> 4096" "a_regs s 6 = a_regs s 5 + word_of_nat (4 * n)"
    and "\<forall>w. unat (a_regs s 5) div 4 \<le> unat w \<and> unat w < unat (a_regs s 5) div 4 + n \<longrightarrow> \<not> W w"
    and "\<forall>p \<in> set ps. unhalted p s" "length ps = 4 * n + 1"
  shows "arch_run m ps s = s\<lparr>a_pc := L2, a_regs := (a_regs s)(5 := a_regs s 6),
      a_ram := cleared (unat (a_regs s 5) div 4) n (a_ram s)\<rparr>"
  using assms
proof (induction n arbitrary: s ps)
  case 0
  then obtain p where ps: "ps = [p]" by (auto simp: length_Suc_conv)
  have "jump_at W s (a_pc s) (BEQ 5 6 L2)" using 0 by (simp add: bss_loop_def)
  from jump_run(1) [OF this _ 0(3), of p m "io_rdata p"] show ?case
    using 0 ps by (simp add: arch_run_def cleared_none fun_upd_idem)
next
  case (Suc n)
  let ?b = "a_regs s 5"
  obtain p1 p2 p3 p4 qs where ps: "ps = p1 # [p2, p3] @ p4 # qs" "length qs = 4 * n + 1"
    using Suc.prems(9) by (auto simp: length_Suc_conv eval_nat_numeral)
  have k: "unat ?b + 4 * n + 4 \<le> 4096" using Suc.prems(5) by simp
  have ne: "?b \<noteq> a_regs s 6"
  proof
    assume "?b = a_regs s 6"
    then have "word_of_nat (4 * Suc n) = (0 :: u32)" using Suc.prems(6) by simp
    then have "unat (word_of_nat (4 * Suc n) :: u32) = 0" by (simp only: unat_0)
    moreover have "unat (word_of_nat (4 * Suc n) :: u32) = 4 * Suc n" using k by (subst unat_of_nat) simp
    ultimately show False by simp
  qed
  have w: "word_in_ram ?b" using Suc.prems(4) k by (simp add: word_in_ram_iff)
  then have uw: "unat (ram_waddr ?b) = unat ?b div 4" by (intro unat_waddr) (simp add: word_in_ram_def)
  have nW: "\<not> W (ram_waddr ?b)" using Suc.prems(7) uw by simp
  have b4: "unat (?b + 4) = unat ?b + 4" using k by (simp add: unat_word_ariths(1))
  have d4: "unat (?b + 4) div 4 = unat ?b div 4 + 1" by (simp add: b4)
  have lo: "jump_at W s (a_pc s) (BEQ 5 6 L2)" "code_on W s (next_of s L1) bss_body"
    "jump_at W s (end_of s (next_of s L1) bss_body) (J L1)"
    using Suc.prems(1,2) by (simp_all add: bss_loop_def)
  have "unhalted p1 s" using Suc.prems(8) ps by simp
  note j1 = jump_run(1) [OF lo(1) this Suc.prems(3), of m "io_rdata p1"] and c1 = jump_run(2) [OF lo(1) this Suc.prems(3)]
  define s1 where "s1 = s\<lparr>a_pc := next_of s L1\<rparr>"
  have e1: "jump_exec (BEQ 5 6 L2) s = s1" using ne Suc.prems(2) fetch_here(2) [of s] by (simp add: s1_def)
  have sc1: "same_code W s s1" using c1 unfolding e1 .
  have "a_pc s1 = next_of s L1" by (simp add: s1_def)
  then have cb: "code_on W s1 (a_pc s1) bss_body" "end_of s1 (a_pc s1) bss_body = end_of s (next_of s L1) bss_body"
    using same_listing [OF sc1 lo(2)] by simp_all
  have ex: "fold asm_exec bss_body s1 = s1\<lparr>a_regs := (a_regs s)(5 := ?b + 4), a_ram := (a_ram s)(ram_waddr ?b := 0)\<rparr>"
    "asm_oks bss_body s1" "apart W bss_body s1"
    using w nW Suc.prems(3) by (simp_all add: bss_body_def s1_def asm_addr_def put_reg_def sext12_small)
  have "\<forall>p \<in> set [p2, p3]. unhalted p s1" "length [p2, p3] = length bss_body"
    using Suc.prems(8) ps by (simp_all add: s1_def unhalted_def bss_body_def)
  note lr = listing_run [OF cb(1) ex(2,3) this, of m]
  define s2 where "s2 = arch_run m [p2, p3] s1"
  have s2: "s2 = s\<lparr>a_pc := end_of s (next_of s L1) bss_body, a_regs := (a_regs s)(5 := ?b + 4), a_ram := (a_ram s)(ram_waddr ?b := 0)\<rparr>"
    "same_code W s1 s2"
    using lr ex(1) cb(2) unfolding s2_def by (simp add: s1_def, blast)
  have sc2: "same_code W s s2" using same_trans [OF sc1 s2(2)] .
  have "jump_at W s2 (a_pc s2) (J L1)" using same_jump [OF sc2 lo(3)] by (simp add: s2(1))
  moreover have "unhalted p4 s2" "a_regs s2 0 = 0" using Suc.prems(3,8) ps by (simp_all add: s2(1) unhalted_def)
  ultimately have j4: "arch_step m p4 (io_rdata p4) s2 = s2\<lparr>a_pc := L1\<rparr>" using jump_run(1) [of W s2 "J L1"] by simp
  define s3 where "s3 = s2\<lparr>a_pc := L1\<rparr>"
  have "arch_run m ps s = arch_run m qs (arch_step m p4 (io_rdata p4) (arch_run m [p2, p3] (arch_step m p1 (io_rdata p1) s)))"
    by (simp add: ps arch_run_def)
  then have r: "arch_run m ps s = arch_run m qs s3" by (simp only: j1 e1 s2_def [symmetric] j4 s3_def)
  have s3: "a_regs s3 = (a_regs s)(5 := ?b + 4)" "a_ram s3 = (a_ram s)(ram_waddr ?b := 0)" "a_pc s3 = L1"
    "s3 = s\<lparr>a_pc := L1, a_regs := (a_regs s)(5 := ?b + 4), a_ram := (a_ram s)(ram_waddr ?b := 0)\<rparr>"
    by (simp_all add: s3_def s2(1))
  have "bss_loop W s3 L1 L2" using same_loop [OF sc2 Suc.prems(1)] same_loop [of W s2 s3 L1 L2] by (simp add: s3_def same_code_def)
  moreover have "a_regs s3 6 = a_regs s3 5 + word_of_nat (4 * n)" using Suc.prems(6) by (simp add: s3(1))
  moreover have "\<forall>w. unat (?b + 4) div 4 \<le> unat w \<and> unat w < unat (?b + 4) div 4 + n \<longrightarrow> \<not> W w"
    using Suc.prems(7) by (auto simp: d4)
  moreover have "\<forall>p \<in> set qs. unhalted p s3" using Suc.prems(8) ps by (simp add: s3(4) unhalted_def)
  ultimately have "arch_run m qs s3 = s3\<lparr>a_pc := L2, a_regs := (a_regs s3)(5 := a_regs s3 6),
      a_ram := cleared (unat (a_regs s3 5) div 4) n (a_ram s3)\<rparr>"
    using Suc.prems(3,4) k ps(2) b4 by (intro Suc.IH) (simp_all add: s3(1,3))
  then show ?case
    unfolding r using cleared_step [OF uw, of n "a_ram s"] by (simp add: s3(4) d4) (simp add: fun_upd_def)
qed

text \<open>\<open>_reset\<close> at 0 and \<open>_start\<close> at \<open>Ls\<close>: \<open>T\<close>, \<open>B\<close> and \<open>E\<close> are the stack top and the ends of .bss, \<open>us\<close> what the
  first instruction of each \<open>la\<close> puts into its register.\<close>

definition startup_init :: "u32 \<times> u32 \<times> u32 \<Rightarrow> u32 \<Rightarrow> u32 \<Rightarrow> u32 \<Rightarrow> jump list" where
  "startup_init us T B E = (case us of (u1, u2, u3) \<Rightarrow>
     [AUIPC 2 u1, LO 2 u1 T, AUIPC 5 u2, LO 5 u2 B, AUIPC 6 u3, LO 6 u3 E])"

definition startup_code :: "(u32 \<Rightarrow> bool) \<Rightarrow> arch \<Rightarrow> 14 word \<Rightarrow> u32 \<times> u32 \<times> u32 \<Rightarrow> u32 \<Rightarrow> u32 \<Rightarrow> u32 \<Rightarrow> 14 word \<Rightarrow> 14 word \<Rightarrow> 14 word \<Rightarrow> bool" where
  "startup_code W s Ls us T B E L2 hM rM \<longleftrightarrow>
     (let c = next_of s L2
      in jump_at W s 0 (J Ls) \<and> jumps_on W s Ls (startup_init us T B E) \<and>
         bss_loop W s (jumps_end s Ls (startup_init us T B E)) L2 \<and>
         code_on W s L2 [ADDI 5 0 8] \<and> jump_at W s c (CSRS 5) \<and> call_at W s (next_of s c) hM rM)"

lemma init_exec:
  "a_regs (fold jump_exec (startup_init us T B E) s) = (a_regs s)(2 := T, 5 := B, 6 := E)"
  "\<forall>j \<in> set (startup_init us T B E). plain j"
  by (cases us; simp add: startup_init_def put_nat_def fun_eq_iff)+

text \<open>C4: From reset the core reaches main: the loop over .bss ends after four instructions for each
  of its n words and one more; then every word of .bss is zero and no other word has changed,
  the stack pointer is the top of RAM, interrupts are enabled, ra holds the address behind the
  call, and the core is at the first instruction of main.\<close>

theorem startup_reaches_main:
  assumes c: "startup_code W s Ls us T B E L2 hM rM" and r: "a_pc s = 0" "a_regs s 0 = 0" "\<not> csr_mcause (a_csrs s)" "\<not> csr_mstatus (a_csrs s)"
    and b: "unat B mod 4 = 0" "unat B + 4 * n \<le> 4096" "E = B + word_of_nat (4 * n)"
      "\<forall>w. unat B div 4 \<le> unat w \<and> unat w < unat B div 4 + n \<longrightarrow> \<not> W w"
    and p: "\<forall>p \<in> set (p0 # qs @ rs @ [p1, p2, p3, p4]). \<not> dbg_halt_req p \<and> \<not> nmi_request p" "length qs = 6" "length rs = 4 * n + 1"
      "\<not> interrupt_request p3" "\<not> interrupt_request p4"
  shows "arch_run m (p0 # qs @ rs @ [p1, p2, p3, p4]) s =
    s\<lparr>a_pc := hM, a_regs := (a_regs s)(2 := T, 6 := E, 5 := 8, 1 := ucast rM),
      a_csrs := (a_csrs s)\<lparr>csr_mstatus := True\<rparr>, a_ram := cleared (unat B div 4) n (a_ram s)\<rparr>"
proof -
  let ?js = "startup_init us T B E"
  define L1 where "L1 = jumps_end s Ls ?js"
  have co: "jump_at W s 0 (J Ls)" "jumps_on W s Ls ?js" "bss_loop W s L1 L2" "code_on W s L2 [ADDI 5 0 8]"
    "jump_at W s (next_of s L2) (CSRS 5)" "call_at W s (next_of s (next_of s L2)) hM rM"
    using c by (simp_all add: startup_code_def L1_def Let_def)
  have fe: "fetchable W L2" "fetchable W (next_of s L2)" using co(4,5) by (simp_all add: jump_at_def)
  have off: "unhalted p t" if "p \<in> set (p0 # qs @ rs @ [p1, p2, p3, p4])" "\<not> csr_mcause (a_csrs t)" "\<not> csr_mstatus (a_csrs t)" for p t
    using that p(1) by (auto simp: unhalted_def)
  define s1 where "s1 = s\<lparr>a_pc := Ls\<rparr>"
  have "jump_at W s (a_pc s) (J Ls)" using co(1) r(1) by simp
  from jump_run(1) [OF this off r(2), of p0] r have 1: "arch_step m p0 (io_rdata p0) s = s1" by (simp add: s1_def)
  have sc1: "same_code W s s1" by (simp add: s1_def same_code_def)
  have j1: "jumps_on W s1 (a_pc s1) ?js" "jumps_end s1 (a_pc s1) ?js = L1"
    using same_jumps [OF sc1 co(2)] by (simp_all add: s1_def L1_def)
  have "a_regs s1 0 = 0" "\<forall>p \<in> set qs. unhalted p s1" "length qs = length ?js"
    using r off p(2) by (auto simp: s1_def startup_init_def split: prod.splits)
  note jr = jumps_run [OF j1(1) init_exec(2) this, of m]
  define s2 where "s2 = fold jump_exec ?js s1"
  have s2: "arch_run m qs s1 = s2" "s2 = s\<lparr>a_pc := L1, a_regs := (a_regs s)(2 := T, 5 := B, 6 := E)\<rparr>"
  proof -
    show "arch_run m qs s1 = s2" using jr by (simp add: s2_def)
    show "s2 = s\<lparr>a_pc := L1, a_regs := (a_regs s)(2 := T, 5 := B, 6 := E)\<rparr>"
      using jr j1(2) init_exec(1) [of us T B E s1] by (intro arch.equality) (simp_all add: s2_def s1_def)
  qed
  have sc2: "same_code W s s2" by (simp add: s2(2) same_code_def)
  have "bss_loop W s2 L1 L2" by (rule same_loop [OF sc2 co(3)])
  then have 3: "arch_run m rs s2 = s2\<lparr>a_pc := L2, a_regs := (a_regs s2)(5 := a_regs s2 6),
      a_ram := cleared (unat (a_regs s2 5) div 4) n (a_ram s2)\<rparr>"
    using b r p(3) off by (intro bss_clears) (simp_all add: s2(2))
  define s3 where "s3 = arch_run m rs s2"
  have s3: "s3 = s\<lparr>a_pc := L2, a_regs := (a_regs s)(2 := T, 6 := E, 5 := E), a_ram := cleared (unat B div 4) n (a_ram s)\<rparr>"
    unfolding s3_def 3 by (simp add: s2(2) fun_upd_twist)
  have sc3: "same_code W s s3" using b(4) by (auto simp: s3 same_code_def cleared_def)
  have "code_on W s3 (a_pc s3) [ADDI 5 0 8]" using same_listing [OF sc3 co(4)] by (simp add: s3)
  moreover have "\<forall>p \<in> set [p1]. unhalted p s3" using off r by (simp add: s3)
  ultimately have "arch_run m [p1] s3 = (fold asm_exec [ADDI 5 0 8] s3)\<lparr>a_pc := end_of s3 (a_pc s3) [ADDI 5 0 8]\<rparr>"
    using listing_run [of W s3 "[ADDI 5 0 8]" "[p1]" m] by simp
  then have 4: "arch_step m p1 (io_rdata p1) s3 = s3\<lparr>a_pc := next_of s L2, a_regs := (a_regs s3)(5 := 8)\<rparr>"
    using same_next [OF sc3 fe(1)] r(2) by (simp add: arch_run_def put_reg_def sext12_small s3)
  define s4 where "s4 = s3\<lparr>a_pc := next_of s L2, a_regs := (a_regs s3)(5 := 8)\<rparr>"
  have sc4: "same_code W s s4" using sc3 by (simp add: s4_def same_code_def)
  have "jump_at W s4 (a_pc s4) (CSRS 5)" using same_jump [OF sc4 co(5)] by (simp add: s4_def)
  moreover have "unhalted p2 s4" "a_regs s4 0 = 0" using off r by (simp_all add: s4_def s3)
  ultimately have 5: "arch_step m p2 (io_rdata p2) s4 = jump_exec (CSRS 5) s4" by (rule jump_run)
  define s5 where "s5 = s4\<lparr>a_pc := next_of s (next_of s L2), a_csrs := (a_csrs s)\<lparr>csr_mstatus := True\<rparr>\<rparr>"
  have "next_pc s4 = next_of s (next_of s L2)" using same_next [OF sc4 fe(2)] unfolding fetch_here by (simp add: s4_def)
  then have e5: "jump_exec (CSRS 5) s4 = s5" by (simp add: s5_def) (simp add: s4_def s3)
  have sc5: "same_code W s s5" using sc4 by (simp add: s5_def same_code_def)
  have "call_at W s5 (a_pc s5) hM rM" using same_call [OF sc5 co(6)] by (simp add: s5_def)
  moreover have "unhalted p3 s5" "unhalted p4 s5" "a_regs s5 0 = 0" using p(1,4,5) r by (simp_all add: s5_def s4_def s3 unhalted_def)
  ultimately have 6: "arch_run m [p3, p4] s5 = s5\<lparr>a_pc := hM, a_regs := (a_regs s5)(1 := ucast rM)\<rparr>" by (rule call_run)
  have "arch_run m (p0 # qs @ rs @ [p1, p2, p3, p4]) s = arch_run m [p3, p4] (arch_step m p2 (io_rdata p2) (arch_step m p1 (io_rdata p1)
      (arch_run m rs (arch_run m qs (arch_step m p0 (io_rdata p0) s)))))"
    by (simp add: arch_run_def)
  also have "\<dots> = s5\<lparr>a_pc := hM, a_regs := (a_regs s5)(1 := ucast rM)\<rparr>"
    by (simp only: 1 s2(1) s3_def [symmetric] 4 s4_def [symmetric] 5 e5 6)
  finally show ?thesis by (simp add: s5_def s4_def s3)
qed

section \<open>A sample image\<close>

definition demo_crt0 :: "u32 \<Rightarrow> u32" where
  "demo_crt0 w = (if w < 129 then (if w < 64 then (if w < 32 then (if w < 16 then (if w < 8 then (if w < 4 then (if w < 2
     then (if w < 1 then 0x1000006f else 0) else 0) else (if w < 6 then (if w < 5 then 0xfc010113 else
     0x00112023) else (if w < 7 then 0x00512223 else 0x00612423))) else (if w < 12 then (if w < 10 then (if
     w < 9 then 0x00712623 else 0x01c12823) else (if w < 11 then 0x01d12a23 else 0x01e12c23)) else (if w <
     14 then (if w < 13 then 0x01f12e23 else 0x02a12023) else (if w < 15 then 0x02b12223 else 0x02c12423))))
     else (if w < 24 then (if w < 20 then (if w < 18 then (if w < 17 then 0x02d12623 else 0x02e12823) else
     (if w < 19 then 0x02f12a23 else 0x03012c23)) else (if w < 22 then (if w < 21 then 0x03112e23 else
     0x34202573) else (if w < 23 then 0x00010593 else 0x00055863))) else (if w < 28 then (if w < 26 then (if
     w < 25 then 0x00000097 else 0x120080e7) else (if w < 27 then 0x00c0006f else 0x00000097)) else (if w <
     30 then (if w < 29 then 0x154080e7 else 0x00012083) else (if w < 31 then 0x00412283 else
     0x00812303))))) else (if w < 48 then (if w < 40 then (if w < 36 then (if w < 34 then (if w < 33 then
     0x00c12383 else 0x01012e03) else (if w < 35 then 0x01412e83 else 0x01812f03)) else (if w < 38 then (if
     w < 37 then 0x01c12f83 else 0x02012503) else (if w < 39 then 0x02412583 else 0x02812603))) else (if w <
     44 then (if w < 42 then (if w < 41 then 0x02c12683 else 0x03012703) else (if w < 43 then 0x03412783
     else 0x03812803)) else (if w < 46 then (if w < 45 then 0x03c12883 else 0x04010113) else (if w < 47 then
     0x30200073 else 0)))) else 0)) else (if w < 96 then (if w < 80 then (if w < 72 then (if w < 68 then (if
     w < 66 then (if w < 65 then 0x00001117 else 0xef010113) else (if w < 67 then 0x00000297 else
     0x6f828293)) else (if w < 70 then (if w < 69 then 0x00000317 else 0x6f830313) else (if w < 71 then
     0x00628863 else 0x0002a023))) else (if w < 76 then (if w < 74 then (if w < 73 then 0x00428293 else
     0xff5ff06f) else (if w < 75 then 0x00800293 else 0x3002a073)) else (if w < 78 then (if w < 77 then
     0x00000097 else 0x0d0080e7) else 0))) else 0) else (if w < 112 then 0 else (if w < 120 then 0 else (if
     w < 124 then 0 else (if w < 126 then 0 else (if w < 127 then 0 else (if w < 128 then 0 else
     0x00150513)))))))) else 0)"

definition demo_code :: "u32 \<Rightarrow> bool" where "demo_code w \<longleftrightarrow> w < 128"

definition demo_crt :: "bool \<Rightarrow> 14 word \<Rightarrow> arch" where
  "demo_crt mie pc = (arch_of (demo_core demo_crt0 mie False pc))\<lparr>a_regs := (\<lambda>i. if i = 2 then 0xFF0 else word_of_nat (3 * i))\<rparr>"

lemma demo_isr: "isr_code demo_code (demo_crt True 0x200) 0x10 0x180 0x1C0 0x68 0x6C 0x74" by code_simp
lemma demo_start: "startup_code demo_code (demo_crt False 0) 0x100 (0x1100, 0x108, 0x110) 0xFF0 0x800 0x808 0x128 0x200 0x138" by code_simp

lemma startup_reaches_main_witness:
  "let t = arch_run 0x10 (replicate 20 (demo_pins False False)) (demo_crt False 0)
   in a_pc t = 0x200 \<and> a_regs t 2 = 0xFF0 \<and> csr_mstatus (a_csrs t) \<and> a_ram t 0x200 = 0"
proof -
  let ?q = "demo_pins False False" and ?s = "demo_crt False 0"
  have r: "a_pc ?s = 0" "a_regs ?s 0 = 0" "\<not> csr_mcause (a_csrs ?s)" "\<not> csr_mstatus (a_csrs ?s)" by code_simp+
  have p: "\<forall>p \<in> set (?q # replicate 6 ?q @ replicate 9 ?q @ [?q, ?q, ?q, ?q]). \<not> dbg_halt_req p \<and> \<not> nmi_request p"
    "\<not> interrupt_request ?q" by (simp_all add: demo_pins_def)
  have w: "\<forall>w. unat (0x800 :: u32) div 4 \<le> unat w \<and> unat w < unat (0x800 :: u32) div 4 + 2 \<longrightarrow> \<not> demo_code w"
    by (simp add: demo_code_def word_less_nat_alt)
  have e: "replicate 20 ?q = ?q # replicate 6 ?q @ replicate 9 ?q @ [?q, ?q, ?q, ?q]" by (simp add: eval_nat_numeral)
  show ?thesis
    unfolding e using startup_reaches_main [OF demo_start r _ _ _ w p(1) _ _ p(2) p(2), of "0x10"]
    by (simp add: cleared_def Let_def)
qed

lemma isr_transparent_witness:
  "let p = demo_pins True False; q = demo_pins False False; s = arch_step 0x10 p 0 (demo_crt True 0x200);
       t = arch_run 0x10 (replicate 22 q) s; v = t\<lparr>a_pc := ucast (a_regs t 1), a_regs := (a_regs t)(5 := 99)\<rparr>;
       r = arch_step 0x10 q 0 (arch_run 0x10 (replicate 18 q) v)
   in a_pc t = 0x180 \<and> a_pc r = 0x204 \<and> a_regs r 5 = 15 \<and> a_regs r 10 = 31"
proof -
  let ?p = "demo_pins True False" and ?q = "demo_pins False False" and ?u = "demo_crt True 0x200"
  let ?s = "arch_step 0x10 ?p 0 ?u" and ?n = "arch_step 0x10 (no_requests ?p) 0 ?u"
  let ?t = "arch_run 0x10 (replicate 22 ?q) ?s"
  let ?v = "?t\<lparr>a_pc := ucast (a_regs ?t 1), a_regs := (a_regs ?t)(5 := 99)\<rparr>"
  have u1: "async_trap ?p ?u" "\<not> env_trap_accepted True (arch_instr ?u) (a_csrs ?u)" "a_regs ?u 0 = 0" "\<not> cut_load ?p (arch_instr ?u) (a_csrs ?u)"
    by code_simp+
  have ns: "\<not> isStore (arch_instr ?u)" by code_simp
  have u2: "a_pc ?n = 0x204" "a_regs ?n 5 = 15" "a_regs ?n 10 = 31" by code_simp+
  have u3: "mcause_read (a_csrs ?s) = 0x8000000B" "a_regs ?s 2 = 0xFF0" by code_simp+
  have u4: "stack_ok demo_code 0xFF0"
    by (simp add: stack_ok_def isr_frame_def frame_word_def frame_base_def demo_code_def ram_waddr_def) code_simp
  note u = u1 u2 u3 u4
  have "same_code demo_code ?u ?s" using ns by (simp add: same_code_def arch_step_fields)
  from same_isr [OF this demo_isr] have c: "isr_code demo_code ?s 0x10 0x180 0x1C0 0x68 0x6C 0x74" ..
  have st: "a_pc ?s = 0x10" "csr_mcause (a_csrs ?s)" "a_regs ?s 0 = 0"
    using async_state [OF u(1), of "0x10" 0] u(3) by simp_all
  have q: "\<forall>p \<in> set (replicate k ?q). \<not> dbg_halt_req p" "\<not> dbg_halt_req ?q" for k by (simp_all add: demo_pins_def)
  have k: "stack_ok demo_code (a_regs ?s 2)" using u(9,10) by simp
  have c0: "isr_code demo_code ?s (a_pc ?s) 0x180 0x1C0 0x68 0x6C 0x74" using c st(1) by simp
  note di = isr_dispatch [OF c0 k st(3,2) q(1) length_replicate, of "0x10"]
  have cm: "csr_mcause (a_csrs ?v)" "a_regs ?v 0 = 0" using di st by simp_all
  have "bit (0x8000000B :: u32) 31" by code_simp
  then have b: "bit (mcause_read (a_csrs ?s)) 31" by (simp only: u(8))
  have cs: "\<forall>i \<in> callee_saved. a_regs ?v i = a_regs ?t i" by (simp add: callee_saved_def)
  have sc: "same_code demo_code ?t ?v" by (simp add: same_code_def)
  have "length (replicate 18 ?q) = (if bit (mcause_read (a_csrs ?s)) 31 then 18 else 17)" using b by simp
  from isr_transparent [OF u(1-4) refl c k refl q(1) length_replicate _ cm(2) cs sc cm(1) _ _ _ q(1) this q(2), of "{}" 0] b u(5-7)
  show ?thesis by (simp add: Let_def)
qed

end
