(* ===== verification/Spec2Isabelle.thy ===== *)
theory Spec2Isabelle
  imports Command_Replies Rsp_Session Single_Step Isr Bench_Sort Bench_Compute Demos Selftest Gdb_Bridge Stepped_Core Entry_Code Debug_Soc Core_Counters Ahb_Wrapper Bridge_Sockets Startup_Code
begin

text \<open>
  A model of AttoRV32's software: the GDB stub of the debug SoC (sw/gdb_stub.c) with the part of
  the hardware it works on, the interrupt handlers (sw/isr.c), the self test, the two benchmarks
  and the demo programs, the core they run on, and the bridge that connects the simulated SoC to a
  debugger (sim/tb_dbg_gdb.cpp). The definitions are shallow: a C function is a HOL function on
  explicit state, machine integers are words of their width, a loop that polls hardware is a
  \<open>partial_function (option)\<close>, so that not returning is the value
  \<open>None\<close>, and a bounded loop is a structural recursion.

  The environment of the stub.
  \<^item> Soc_Bus: what a C access of the stub does. \<open>load\<close> and \<open>store\<close>
    are the core's load/store unit (rtl/attorv32.v: byte lanes, write mask, low address bits
    ignored), the address decode, RAM and read mux of rtl/attorv32_dbg.v, the registers and the
    clocked process of rtl/hw_bkpt.v, and the UART registers. The bytes the host is going to send,
    each with the number of polls it arrives after, and the time the transmitter stays busy are
    part of the state, so every theorem holds for all timings. The ROM contents (rtl/stub_rom.v is
    generated) are an arbitrary function.
  \<^item> Core_Decode: the decoder of compressed instructions, the immediates, the branch
    comparator and the next-PC multiplexer of rtl/attorv32.v; \<open>core_next\<close> is the
    address the core continues at, which for an environment call is the trap vector.
  \<^item> Core_Alu, Core_Multiplier, Core_Booth, Core_Muldiv: the ALU's shifter and result
    multiplexer, the three multipliers and the divider of rtl/attorv32.v, the clocked ones from
    load to result, each compared with the operation of the instruction set. The locale
    \<open>multiplier\<close> says on which operands a multiplier gives the product; it is
    interpreted on all three.
  \<^item> Core_Traps, Core_Pipeline: the core of rtl/attorv32.v cycle by cycle, built with
    NRV_SRA and otherwise in its default configuration, on the memories of rtl/attorv32_dbg.v.
    \<open>core_clk\<close> is one clock edge: the state machine with the cached fetch word and
    the second half of an unaligned instruction, register file, loads and stores, CSRs and traps.
    \<open>arch_step\<close> is what one instruction does (a load at which an NMI or a debug halt
    is accepted gets whatever the bus holds); \<open>core_program\<close> shows that the core
    refines it, from any state \<open>at_fetch\<close>, which the reset leads to
    (\<open>reset_fetches\<close>). Core_Handlers: what a trap saves and that handlers return, and
    how a debug halt and the breakpoint unit on the same clock depart from it. Stepped_Core puts
    the stub's single step on this core. Core_Counters adds the performance counters of
    NRV_PERF_CSR and what a program that reads them sees.
  \<^item> Ahb_Wrapper: rtl/attorv32_ahbl.v. \<open>port_clk\<close> is the core with its memory
    port and busy signals (it is \<open>core_clk\<close> when the memory of the SoC is on the
    port, \<open>port_agrees\<close>), \<open>ahbl_clk\<close> the master, \<open>ahb_clk\<close>
    both; a slave that answers without wait states shows what a read and a store come to.
  \<^item> Core_Assembly, Entry_Code: assembler listings held by the ROM, in either encoding, and
    the code of sw/crt0_stub.S that saves the registers to \<open>g_regs\<close> and restores
    them; with the trap before and the mret after it, a visit of the debugger is transparent.
  \<^item> Startup_Code: sw/crt0.S for RV32I, run from RAM: the listings with their jumps and
    calls, the trap entry around the handlers (a trap leaves no trace in the program) and the
    reset code (the .bss loop ends and main is reached).
  \<^item> Dbg_Uart: rtl/dbg_uart.v, one definition for what a clock edge does to the registers of
    each part. Uart_Frames gives the parts over whole frames in closed form, Uart_Link composes
    two UARTs (the calibration by 0x55, then the bytes), Uart_Break is the break detector.
  \<^item> Debug_Soc: core, breakpoint unit and debug UART on one clock with the read mux of the
    I/O page, as rtl/attorv32_dbg.v wires them without BENCH. Soc_Bus gives the C code the
    register interface as docs/debug.md describes it, except that the registers of the breakpoint
    unit read zero: it answers in the clock of the strobe only, and the core takes the data of a
    load in the next one (\<open>unit_reads_zero\<close>). So the driver finds no hardware
    breakpoints, and Z1 and z1 are refused.

  The stub, in the order of sw/gdb_stub.c.
  \<^item> Uart_Io: \<open>gdb_uart_getc\<close>, \<open>gdb_uart_putc\<close>. Byte_Channel
    states their contract as a locale (pending bytes, sent bytes, the rest untouched), interpreted
    here on the polling loops.
  \<^item> Hex_Codec: the hex conversions. Rsp_Framing: \<open>get_packet\<close> and
    \<open>put_packet\<close>, written over the two byte operations; their lemmas are proved in
    the locale and hold for the UART by its interpretation.
  \<^item> Stub_State, Sw_Breakpoints, Patched_Code: the static variables, the table of ten slots,
    \<open>bp_insert\<close>, \<open>bp_remove\<close>, \<open>remove_step_bps\<close>.
    Breakpoint_Unit is the contract of a bounded set of breakpoints, a locale interpreted on the
    table (eight user slots, two scratch slots) and in Hw_Breakpoints on
    \<open>hw_bp_insert\<close> and \<open>hw_bp_remove\<close>, which offer no places.
    Patched_Code relates the patched memory to the memory without breakpoints.
  \<^item> Next_Pc: \<open>next_pcs\<close>, with the proof that it agrees with Core_Decode.
    Single_Step: what a step needs (\<open>steppable\<close>), that it lands on a planted
    breakpoint, and that it is undone.
  \<^item> Rsp_Commands, Command_Effects, Command_Replies: the packet handlers and the switch
    (\<open>dispatch\<close>), split into what a command does (\<open>run_command\<close>) and
    sending the reply, with the reply and the effect of each command. Rsp_Session: the loop and
    \<open>gdb_stub_entry\<close>, the relation \<open>session\<close> of a conversation with the
    host, the invariant \<open>stub_inv\<close>.

  The other programs. Isr: \<open>irq_handler\<close>, \<open>ebreak_handler\<close> with its
  GDB_STUB hook, and the sequences of ticks and traps around them. Sorter, Bench_Console,
  Bench_Sort: sw/bench_sort.c; the locale \<open>sorter\<close> is interpreted on both sorts and
  carries the report of \<open>main\<close>. Bench_Compute: sw/bench_compute.c. Demos: sw/main.c
  and sw/dbg_test.c. Sample_States is one board, at which the witnesses apply the properties that
  have hypotheses.

  Selftest: sw/selftest.c, its checks in order over a record of machine operations, run on the
  instruction set's arithmetic and on the core's units. Its interrupt tests run one instruction at
  a time with the tick source of sim/tb.v, the trap logic of Core_Traps and the handlers of Isr
  (\<open>instr_clk\<close>); a \<open>wfi\<close> may stall for ever, and is shown not to.

  Gdb_Bridge: sim/tb_dbg_gdb.cpp, the loader and the main loop, with the BENCH branch of
  rtl/attorv32_dbg.v; what the core and the socket do in each cycle is an argument, so its
  theorems hold for every program and every debugger. accept blocks, and may never return
  (\<open>stuck\<close>); a load of the receive register takes what it holds when the core writes
  back, in S_WAIT. Bridge_Sockets: its sockets. The descriptor table is a locale
  (\<open>descriptor_table\<close>), interpreted on a list in which the lowest free index is given
  out; whether a call succeeds is an input. \<open>net_main\<close> refines
  \<open>bridge_main\<close>.

  Bounds. \<open>get_packet\<close> and \<open>put_packet\<close> try three times, as the code
  does. The endless loops of the demo programs are run for any number of rounds. The bridge's loop
  ends by its cycle limit, the multipliers and the divider by their counters. The only fuel is in
  \<open>asm_run\<close>, six steps for the five instructions of the inline assembly.

  Assumptions. NGDB_REGS is 33 (RV32I); IO_BASE is 0x2000; the SoC has the default \<open>RAM_AW =
  12\<close> and four hardware breakpoints. A \<open>char\<close> is unsigned, as on RISC-V. A
  shift of a negative digit value in \<open>get_packet\<close> and \<open>hex_le_to_u32\<close> is
  the arithmetic one that the compilers implement. The buffer that \<open>gdb_stub_entry\<close>
  has on its stack starts with arbitrary contents, an argument of the model.

  Not modelled: the core's optional units in the pipeline (single-port register file, serial
  shifter, the wait for the multiplier and the divider); the RV32E variants of the startup and
  entry code; the machine code that a compiler makes of the C functions, which are modelled as
  functions; the generated ROM; the Verilog and Python test drivers, and the build and synthesis
  scripts.
\<close>

text \<open>C1: A whole visit of the debugger, over the polled UART. Take any sequence of framed commands
  that ends in a resume, sent by a host that acknowledges each reply, in which every payload is
  shorter than 280 bytes and has no # in it, every handler returns, the blocks and addresses of
  m, M, s and Z0 lie in RAM, and the breakpoint table is well formed with addresses in RAM when
  a z comes. Then gdb_stub_entry returns; it has sent the stop reply and then, for every command
  in order, the acknowledgement and the framed reply; the commands have been applied to the
  system one after the other and nothing else has changed, the hit flags of the breakpoint unit
  included, which hw_bp_clear_hits cannot read; and the receiver holds what the host sent after
  the session.\<close>

theorem gdb_stub_session:
  assumes "session buf (leave_step st) css out st2"
    and "uart_pending (soc (leave_step st)) = 43 # host_bytes css @ bs"
  shows "\<exists>u. gdb_stub_entry buf cause st = Some (with_uart u st2) \<and>
    uart_pending (soc (with_uart u st2)) = bs \<and>
    tx_log u = tx_log (uart (soc (leave_step st))) @ rsp_frame [84, 48, 53] @ out"
  using assms by (rule entry_session)

definition Z0_c :: "u8 list list" where
  "Z0_c = [[90, 48, 44, 49, 48, 48, 44, 50], [99]]"

lemma Z0_c_session:
  "session buf (sample_stub bs) Z0_c (43 # rsp_frame [79, 75] @ [43])
     (snd (bp_insert 0x100 False (sample_stub bs)))"
proof -
  let ?b = "rx_buf buf [90, 48, 44, 49, 48, 48, 44, 50]"
  have "parse_hex ?b 3 = Some (word_of_nat (hex_value [49, 48, 48]), 3 + length [49::u8, 48, 48])"
    by (rule parse_hex_digits) (simp_all add: rx_buf_def is_hex_def hex_to_nib_def)
  moreover have "word_of_nat (hex_value [49, 48, 48]) = (0x100 :: u32)"
    by (simp add: hex_value_def hex_to_nib_def)
  ultimately have p: "parse_hex ?b 3 = Some (0x100, 6)" by simp
  have "fst (bp_insert 0x100 False (sample_stub bs)) = 0"
    using bp_insert_table(2) [of "sample_stub bs" "0x100" False] by (simp add: sw_cap_def)
  moreover have "?b 0 = 90" "?b 1 = 48" "?b 2 = 44" by (simp_all add: rx_buf_def)
  ultimately have r: "run_command ?b (sample_stub bs) = Some (Some (lit ''OK''), snd (bp_insert 0x100 False (sample_stub bs)))"
    using p by (simp add: run_command_def bp_command_def status_def)
  have "ram_command ?b (sample_stub bs)"
    using p by (simp add: ram_command_def rx_buf_def in_ram_def)
  moreover have "c_string (lit ''OK'') [79, 75]" by (simp add: c_string_def lit_def)
  moreover have "session ?b (snd (bp_insert 0x100 False (sample_stub bs))) [[99]] [43] (snd (bp_insert 0x100 False (sample_stub bs)))"
    by (rule session.resume) (simp_all add: payload_ok_def ram_command_def run_command_def set_resume_pc_def rx_buf_def)
  ultimately show ?thesis
    using r unfolding Z0_c_def by (intro session.reply) (auto simp: payload_ok_def)
qed

lemma gdb_stub_session_witness:
  "\<exists>u. gdb_stub_entry (\<lambda>_. 0) 3 (sample_stub (43 # host_bytes Z0_c)) =
      Some (with_uart u (snd (bp_insert 0x100 False (sample_stub (43 # host_bytes Z0_c))))) \<and>
    tx_log u = rsp_frame [84, 48, 53] @ 43 # rsp_frame [79, 75] @ [43]"
  using gdb_stub_session [of "\<lambda>_. 0" "sample_stub (43 # host_bytes Z0_c)" Z0_c _ _ "[]" 3, OF _ ] Z0_c_session
  by (fastforce simp: leave_step_def Let_def)

text \<open>C6: Coming back from a single step undoes it. The instruction is one that can be stepped: in RAM
  at an even address, word aligned when it has 32 bits, not mret or the reserved c.jr x0, with
  successors in RAM, word aligned when they are 32-bit instructions, that overlap neither each
  other nor the instruction; the table is well formed and no scratch breakpoint was armed. Then,
  after cmd_step, the code that gdb_stub_entry runs first gives back every byte of the system,
  frees the scratch slots and leaves the stepping state.\<close>

theorem single_step_restores:
  assumes "table_wf st" and "sw_armed True st = {}"
    and "set_resume_pc args p st = Some st0" and "steppable st0"
    and "cmd_step args p st = Some (1, st1)"
  shows "soc (leave_step st1) = soc st \<and> sw_armed True (leave_step st1) = {} \<and> \<not> stepping (leave_step st1)"
proof -
  note f = set_resume_pc_frame [OF assms(3)]
  have wf: "table_wf st0" "sw_armed True st0 = {}" using f assms(1,2) by simp_all
  show ?thesis
    using step_lands(5) [OF wf assms(4) refl] remove_step_bps_wf(2) [OF plant_steps_wf [OF wf(1)]] f(3) assms(3,5)
    by (auto simp: cmd_step_def leave_step_def)
qed

lemma single_step_restores_witness:
  "cmd_step (\<lambda>_. 0) 0 (sample_stub []) \<noteq> None \<and>
   soc (leave_step (snd (the (cmd_step (\<lambda>_. 0) 0 (sample_stub []))))) = sample_soc []"
  using single_step_restores [OF sample_table sample_resume sample_steppable]
  by (simp add: cmd_step_def set_resume_pc_def)

text \<open>C8: next_pcs agrees with the core's own decoder: for every 16-bit and every aligned 32-bit
  instruction in RAM, except mret, the reserved c.jr x0 and the instructions that the core takes
  as an environment call (ecall, ebreak, c.ebreak), for which it goes to the trap vector, the
  address the core continues at when nothing is requested is one of the at most two addresses
  next_pcs returns.\<close>

theorem next_pcs_sound:
  assumes "in_ram pc" and "long_instr (decomp_input (soc st) pc) \<longrightarrow> \<not> bit pc 1"
    and "\<not> is_mret (decompressor (decomp_input (soc st) pc))" "\<not> is_env_trap (decompressor (decomp_input (soc st) pc))"
    and "\<not> reserved_jr (decomp_input (soc st) pc)"
  shows "\<exists>targets. next_pcs pc st = (targets, st) \<and> length targets \<le> NBP_STEP \<and>
    core_next m (soc st) (g_regs st) epc (ucast pc) \<in> ucast ` set targets"
  using pc_new_at_predicted [OF assms(1-3,5), of epc] assms(4) next_pcs_fields [OF assms(1) refl, of st] next_pcs_length [of pc st]
  by (cases "next_pcs pc st") (auto simp: predicted_def NBP_STEP_def core_next_def ucast14_in_ram [OF assms(1)])

lemma sample_next: "fst (next_pcs 0x100 (sample_stub [])) = [0x104, 0x108]"
  by code_simp

lemma next_pcs_sound_witness:
  "fst (next_pcs 0x100 (sample_stub [])) = [0x104, 0x108] \<and>
   core_next 0x1000 (sample_soc []) (g_regs (sample_stub [])) 0 0x100 \<in> ucast ` set (fst (next_pcs 0x100 (sample_stub [])))"
proof -
  have "in_ram 0x100" "long_instr (decomp_input (soc (sample_stub [])) 0x100) \<longrightarrow> \<not> bit (0x100 :: u32) 1"
    "\<not> is_mret (decompressor (decomp_input (soc (sample_stub [])) 0x100))"
    "\<not> is_env_trap (decompressor (decomp_input (soc (sample_stub [])) 0x100))"
    "\<not> reserved_jr (decomp_input (soc (sample_stub [])) 0x100)" by code_simp+
  from next_pcs_sound [OF this, of "0x1000" 0] obtain ts where
    "next_pcs 0x100 (sample_stub []) = (ts, sample_stub [])"
    "core_next 0x1000 (sample_soc []) (g_regs (sample_stub [])) 0 0x100 \<in> ucast ` set ts" by auto
  then show ?thesis using sample_next by simp
qed

text \<open>C20: The invariant of the stub between two visits: the table has its ten slots, no address is
  armed twice in either part, and scratch slots are in use only while a step is pending.
  Whatever bytes the host sends, a visit that returns keeps it.\<close>

theorem stub_invariant:
  assumes "stub_inv st" and "gdb_stub_entry buf cause st = Some st'"
  shows "stub_inv st'"
  by (rule gdb_stub_entry_inv [OF assms(2,1)])

lemma stub_invariant_witness:
  "\<exists>st'. gdb_stub_entry (\<lambda>_. 0) 3 (sample_stub (43 # host_bytes Z0_c)) = Some st' \<and> stub_inv st'"
proof -
  have "\<exists>st'. gdb_stub_entry (\<lambda>_. 0) 3 (sample_stub (43 # host_bytes Z0_c)) = Some st'"
    using entry_session [of "\<lambda>_. 0" "sample_stub (43 # host_bytes Z0_c)" Z0_c _ _ "[]" 3] Z0_c_session
    by (fastforce simp: leave_step_def)
  moreover have "stub_inv (sample_stub (43 # host_bytes Z0_c))" by (simp add: stub_inv_def)
  ultimately show ?thesis using stub_invariant by blast
qed
end
